(* ===== verification/Prelude.thy ===== *)
theory Prelude
  imports Main "HOL-Library.Word" "HOL-Library.Monad_Syntax"
begin

text \<open>
  Shared vocabulary of the development: the machine integer types of the C++ code, the
  result type of code that may throw, the end-pointer reading of a list of nodes, and the
  generic interface of a component that is driven by a sequence of inputs.

  Two kinds of failure are kept apart everywhere. \<open>None\<close> in an \<open>option\<close> result means
  undefined behaviour of the C++ abstract machine (null or dangling dereference, integer
  division by zero, an out-of-range conversion from floating point). \<open>Inl e\<close> in a sum
  means that the C++ function threw the standard exception \<open>e\<close>.
\<close>

type_synonym u8 = "8 word"
type_synonym u32 = "32 word"
type_synonym u64 = "64 word"
type_synonym i32 = "32 word"

datatype cpp_exception = InvalidArgument | OutOfRange | RuntimeError string

named_theorems component_simps \<open>unfolding rules of the modelled operations\<close>

subsection \<open>First and last element of a list as optional values\<close>

definition first_of :: "'a list \<Rightarrow> 'a option \<Rightarrow> 'a option" where
  "first_of xs d = (case xs of [] \<Rightarrow> d | x # _ \<Rightarrow> Some x)"

definition last_of :: "'a list \<Rightarrow> 'a option \<Rightarrow> 'a option" where
  "last_of xs d = (if xs = [] then d else Some (last xs))"

lemma first_of_simps [simp]:
  "first_of [] d = d"
  "first_of (x # xs) d = Some x"
  by (simp_all add: first_of_def)

lemma last_of_simps [simp]:
  "last_of [] d = d"
  "last_of (xs @ [x]) d = Some x"
  "last_of (x # xs) d = last_of xs (Some x)"
  by (simp_all add: last_of_def)

lemma first_of_append [simp]: "first_of (xs @ ys) d = first_of xs (first_of ys d)"
  by (cases xs) simp_all

lemma last_of_append [simp]: "last_of (xs @ ys) d = last_of ys (last_of xs d)"
  by (simp add: last_of_def)

lemma first_of_eq_Some: "first_of xs None = Some a \<longleftrightarrow> (\<exists>ys. xs = a # ys)"
  by (cases xs) auto

lemma last_of_eq_Some: "last_of xs None = Some a \<longleftrightarrow> (\<exists>ys. xs = ys @ [a])"
  by (cases xs rule: rev_cases) auto

lemma last_of_None [simp]: "last_of xs None = None \<longleftrightarrow> xs = []"
  by (simp add: last_of_def)

lemma first_of_None [simp]: "first_of xs None = None \<longleftrightarrow> xs = []"
  by (cases xs) simp_all

subsection \<open>64-bit counters\<close>

lemma unat_Suc_u64: "unat (n :: u64) + 1 < 2 ^ 64 \<Longrightarrow> unat (n + 1) = unat n + 1"
  by (simp add: unat_word_ariths)

lemma unat_pred_u64: "0 < unat (n :: u64) \<Longrightarrow> unat (n - 1) = unat n - 1"
  by (metis unat_0 unat_minus_one less_numeral_extra(3))

lemma unat_lt_u64 [simp]: "unat (n :: u64) < 18446744073709551616"
  using unsigned_less [of n] by simp

subsection \<open>Components driven by a sequence of inputs\<close>

text \<open>
  Every stateful component of the program is a state, a start state and a step per input.
  The contract all of them share: the invariant holds at the start and every step whose
  input the component admits keeps it. What follows once, for all of them: the invariant
  holds after every run.
\<close>

primrec run_machine :: "('s \<Rightarrow> 'i \<Rightarrow> 's) \<Rightarrow> 's \<Rightarrow> 'i list \<Rightarrow> 's" where
  "run_machine step s [] = s"
| "run_machine step s (i # is) = run_machine step (step s i) is"

lemma run_machine_append:
  "run_machine step s (is @ js) = run_machine step (run_machine step s is) js"
  by (induction "is" arbitrary: s) simp_all

lemma run_machine_foldl: "run_machine step s is = foldl step s is"
  by (induction "is" arbitrary: s) simp_all

locale safe_machine =
  fixes step :: "'s \<Rightarrow> 'i \<Rightarrow> 's"
    and inv :: "'s \<Rightarrow> bool"
    and admissible :: "'i \<Rightarrow> bool"
  assumes step_inv: "inv s \<Longrightarrow> admissible i \<Longrightarrow> inv (step s i)"
begin

lemma run_inv: "inv s \<Longrightarrow> list_all admissible is \<Longrightarrow> inv (run_machine step s is)"
proof (induction "is" arbitrary: s)
  case Nil
  then show ?case by simp
next
  case (Cons i "is")
  then show ?case by (simp add: step_inv)
qed

lemma prefix_inv:
  "inv s \<Longrightarrow> list_all admissible (is @ js) \<Longrightarrow> inv (run_machine step s is)"
  by (rule run_inv) simp_all

end

subsection \<open>Components with outputs that implement a specification\<close>

text \<open>
  A detailed component whose step may hit undefined behaviour (\<open>None\<close>), and a total
  specification of it. The contract is one step of a simulation, under a condition on the
  specified state it moves to (such as: a counter has not run out of bits).
\<close>

fun run_steps :: "('i \<Rightarrow> 'c \<Rightarrow> ('o \<times> 'c) option) \<Rightarrow> 'i list \<Rightarrow> 'c \<Rightarrow> ('o list \<times> 'c) option" where
  "run_steps step [] c = Some ([], c)"
| "run_steps step (i # is) c = (case step i c of
     None \<Rightarrow> None
   | Some (x, c') \<Rightarrow> (case run_steps step is c' of
       None \<Rightarrow> None
     | Some (xs, c'') \<Rightarrow> Some (x # xs, c'')))"

fun run_spec :: "('i \<Rightarrow> 'a \<Rightarrow> 'o \<times> 'a) \<Rightarrow> 'i list \<Rightarrow> 'a \<Rightarrow> 'o list \<times> 'a" where
  "run_spec step [] a = ([], a)"
| "run_spec step (i # is) a =
     (let (x, a') = step i a; (xs, a'') = run_spec step is a' in (x # xs, a''))"

fun stays :: "('a \<Rightarrow> bool) \<Rightarrow> ('i \<Rightarrow> 'a \<Rightarrow> 'o \<times> 'a) \<Rightarrow> 'i list \<Rightarrow> 'a \<Rightarrow> bool" where
  "stays P step [] a = True"
| "stays P step (i # is) a = (P (snd (step i a)) \<and> stays P step is (snd (step i a)))"

locale simulation =
  fixes cstep :: "'i \<Rightarrow> 'c \<Rightarrow> ('o \<times> 'c) option"
    and astep :: "'i \<Rightarrow> 'a \<Rightarrow> 'o \<times> 'a"
    and implements :: "'c \<Rightarrow> 'a \<Rightarrow> bool"
    and room :: "'a \<Rightarrow> bool"
  assumes step_sim: "implements c a \<Longrightarrow> room (snd (astep i a)) \<Longrightarrow>
    \<exists>c'. cstep i c = Some (fst (astep i a), c') \<and> implements c' (snd (astep i a))"
begin

lemma run_sim:
  "implements c a \<Longrightarrow> stays room astep is a \<Longrightarrow>
   \<exists>c'. run_steps cstep is c = Some (fst (run_spec astep is a), c') \<and>
     implements c' (snd (run_spec astep is a))"
proof (induction "is" arbitrary: c a)
  case Nil
  then show ?case by simp
next
  case (Cons i "is")
  from Cons.prems step_sim [of c a i] obtain c1
    where c1: "cstep i c = Some (fst (astep i a), c1)" "implements c1 (snd (astep i a))" by auto
  with Cons.IH [OF this(2)] Cons.prems obtain c2
    where "run_steps cstep is c1 = Some (fst (run_spec astep is (snd (astep i a))), c2)"
      "implements c2 (snd (run_spec astep is (snd (astep i a))))" by auto
  with c1 show ?case by (simp add: case_prod_beta Let_def)
qed

end

end
