(* ===== verification/Doubles.thy ===== *)
theory Doubles
  imports Complex_Main Prelude
begin

text \<open>
  The C++ type \<open>double\<close> (IEEE 754 binary64, round to nearest, ties to even), as far as the
  program uses it. A finite double is the rational number it stands for; every operation
  computes the exact rational result and rounds it with \<open>to_double\<close>. The sign of zero is
  not kept: the only operation that could observe it is a division by zero, and the divisors
  the program uses that can be zero are integers converted to \<open>double\<close>, whose zero is
  positive.
\<close>

datatype double = NaN | Infinite bool | Finite rat

subsection \<open>Rounding\<close>

function bit_length :: "int \<Rightarrow> nat" where
  "bit_length n = (if n \<le> 0 then 0 else Suc (bit_length (n div 2)))"
  by pat_completeness auto
termination
  by (relation "measure nat") auto

declare bit_length.simps [simp del]

text \<open>The binary exponent of a positive rational: \<open>2 powi ilog2 x \<le> x < 2 powi (ilog2 x + 1)\<close>.\<close>

definition ilog2 :: "rat \<Rightarrow> int" where
  "ilog2 x = (let (n, d) = quotient_of x;
                  e = int (bit_length n) - int (bit_length d)
              in if 2 powi e \<le> x then e else e - 1)"

text \<open>The exponent of the unit in the last place; subnormal numbers share the least one.\<close>

definition ulp_exp :: "rat \<Rightarrow> int" where
  "ulp_exp x = max (ilog2 \<bar>x\<bar> - 52) (- 1074)"

definition round_half_even :: "rat \<Rightarrow> int" where
  "round_half_even x =
     (let f = \<lfloor>x\<rfloor>; r = x - of_int f
      in if r < 1 / 2 then f else if 1 / 2 < r then f + 1 else if even f then f else f + 1)"

definition rnd :: "rat \<Rightarrow> rat" where
  "rnd x = (if x = 0 then 0
            else of_int (round_half_even (x / 2 powi ulp_exp x)) * 2 powi ulp_exp x)"

definition to_double :: "rat \<Rightarrow> double" where
  "to_double x =
     (let r = rnd x in if r \<noteq> 0 \<and> 1024 \<le> ilog2 \<bar>r\<bar> then Infinite (r < 0) else Finite r)"

subsection \<open>Operations\<close>

definition dbl_of_int :: "int \<Rightarrow> double" where
  "dbl_of_int i = to_double (of_int i)"

definition dbl_of_u64 :: "u64 \<Rightarrow> double" where
  "dbl_of_u64 n = to_double (of_nat (unat n))"

fun dbl_uminus :: "double \<Rightarrow> double" where
  "dbl_uminus NaN = NaN"
| "dbl_uminus (Infinite s) = Infinite (\<not> s)"
| "dbl_uminus (Finite q) = Finite (- q)"

fun dbl_add :: "double \<Rightarrow> double \<Rightarrow> double" where
  "dbl_add (Finite p) (Finite q) = to_double (p + q)"
| "dbl_add (Infinite s) (Infinite t) = (if s = t then Infinite s else NaN)"
| "dbl_add (Infinite s) (Finite q) = Infinite s"
| "dbl_add (Finite p) (Infinite t) = Infinite t"
| "dbl_add _ _ = NaN"

definition dbl_sub :: "double \<Rightarrow> double \<Rightarrow> double" where
  "dbl_sub x y = dbl_add x (dbl_uminus y)"

fun dbl_mul :: "double \<Rightarrow> double \<Rightarrow> double" where
  "dbl_mul (Finite p) (Finite q) = to_double (p * q)"
| "dbl_mul (Infinite s) (Infinite t) = Infinite (s \<noteq> t)"
| "dbl_mul (Infinite s) (Finite q) = (if q = 0 then NaN else Infinite (s \<noteq> (q < 0)))"
| "dbl_mul (Finite p) (Infinite t) = (if p = 0 then NaN else Infinite (t \<noteq> (p < 0)))"
| "dbl_mul _ _ = NaN"

fun dbl_div :: "double \<Rightarrow> double \<Rightarrow> double" where
  "dbl_div (Finite p) (Finite q) =
     (if q = 0 then (if p = 0 then NaN else Infinite (p < 0)) else to_double (p / q))"
| "dbl_div (Infinite s) (Finite q) = Infinite (s \<noteq> (q < 0))"
| "dbl_div (Finite p) (Infinite t) = Finite 0"
| "dbl_div _ _ = NaN"

text \<open>Comparisons: any comparison with NaN is false.\<close>

instantiation double :: ord
begin

fun less_eq_double :: "double \<Rightarrow> double \<Rightarrow> bool" where
  "less_eq_double (Finite p) (Finite q) = (p \<le> q)"
| "less_eq_double (Infinite s) (Infinite t) = (s \<or> \<not> t)"
| "less_eq_double (Infinite s) (Finite q) = s"
| "less_eq_double (Finite p) (Infinite t) = (\<not> t)"
| "less_eq_double _ _ = False"

fun less_double :: "double \<Rightarrow> double \<Rightarrow> bool" where
  "less_double (Finite p) (Finite q) = (p < q)"
| "less_double (Infinite s) (Infinite t) = (s \<and> \<not> t)"
| "less_double (Infinite s) (Finite q) = s"
| "less_double (Finite p) (Infinite t) = (\<not> t)"
| "less_double _ _ = False"

instance ..

end

text \<open>Conversion to an unsigned 64-bit integer drops the fraction; it is undefined behaviour
  when the result does not fit.\<close>

definition truncate_rat :: "rat \<Rightarrow> int" where
  "truncate_rat q = (if 0 \<le> q then \<lfloor>q\<rfloor> else \<lceil>q\<rceil>)"

definition dbl_to_u64 :: "double \<Rightarrow> u64 option" where
  "dbl_to_u64 x = (case x of
     Finite q \<Rightarrow>
       (let t = truncate_rat q in if 0 \<le> t \<and> t < 2 ^ 64 then Some (word_of_int t) else None)
   | _ \<Rightarrow> None)"

lemma Finite_le_trans: "Finite q \<le> x \<Longrightarrow> p \<le> q \<Longrightarrow> Finite p \<le> x"
  by (cases x) simp_all

lemma less_Finite_trans: "x < Finite p \<Longrightarrow> p \<le> q \<Longrightarrow> x < Finite q"
  by (cases x) simp_all

lemma Finite_le_not_less: "Finite q \<le> x \<Longrightarrow> p \<le> q \<Longrightarrow> \<not> x < Finite p"
  by (cases x) simp_all

lemma less_Finite_not_le: "x < Finite p \<Longrightarrow> p \<le> q \<Longrightarrow> \<not> Finite q \<le> x"
  by (cases x) simp_all

subsection \<open>The binary exponent\<close>

lemma bit_length_bounds: "0 < n \<Longrightarrow> 2 ^ (bit_length n - 1) \<le> n \<and> n < 2 ^ bit_length n"
proof (induction n rule: bit_length.induct)
  case (1 n)
  show ?case
  proof (cases "n div 2 \<le> 0")
    case True
    with 1 have "n = 1" by auto
    then show ?thesis by (simp add: bit_length.simps)
  next
    case False
    let ?b = "bit_length (n div 2)"
    from False 1 have ih: "2 ^ (?b - 1) \<le> n div 2" "n div 2 < 2 ^ ?b" by auto
    from False have "0 < ?b" by (subst bit_length.simps) simp
    then have "(2 :: int) ^ ?b = 2 * 2 ^ (?b - 1)" by (metis Suc_diff_1 power_Suc)
    with ih have "2 ^ ?b \<le> n" "n < 2 * 2 ^ ?b" by linarith+
    with 1 show ?thesis by (simp add: bit_length.simps [of n])
  qed
qed

lemma int_bit_length:
  assumes "0 < i"
  shows "(2 :: rat) ^ (bit_length i - 1) \<le> of_int i" and "of_int i < (2 :: rat) ^ bit_length i"
  using bit_length_bounds [OF assms]
  by (metis of_int_le_iff of_int_numeral of_int_power, metis of_int_less_iff of_int_numeral of_int_power)

lemma powi_two_pos [simp]: "(0 :: rat) < 2 powi e"
  by (simp add: zero_less_power_int)

lemma powi_two_Suc: "(2 :: rat) powi (e + 1) = 2 * 2 powi e"
  by (simp add: power_int_add)

lemma powi_two_add: "(2 :: rat) powi (a + b) = 2 powi a * 2 powi b"
  by (simp add: power_int_add)

lemma powi_two_mono: "a \<le> b \<Longrightarrow> (2 :: rat) powi a \<le> 2 powi b"
  by (rule power_int_increasing) simp_all

lemma powi_two_strict: "(2 :: rat) powi a < 2 powi b \<Longrightarrow> a < b"
  using powi_two_mono [of b a] by linarith

lemma ilog2_bounds:
  assumes "0 < x"
  shows "2 powi ilog2 x \<le> x" and "x < 2 powi (ilog2 x + 1)"
proof -
  obtain n d where q: "quotient_of x = (n, d)" by (cases "quotient_of x")
  then have d: "0 < d" and x: "x = of_int n / of_int d"
    by (simp_all add: quotient_of_denom_pos quotient_of_div)
  with assms have n: "0 < n" by (simp add: zero_less_divide_iff)
  let ?a = "bit_length n" and ?b = "bit_length d"
  let ?e = "int ?a - int ?b"
  have a1: "0 < ?a" and b1: "0 < ?b"
    using n d by (subst bit_length.simps; simp)+
  note ra = int_bit_length [OF n] and rb = int_bit_length [OF d]
  have p: "(2 :: rat) powi (int i - int j) = 2 ^ i / 2 ^ j" for i j
    by (simp add: power_int_diff)
  have lower: "2 powi (?e - 1) \<le> x"
  proof -
    have "?e - 1 = int (?a - 1) - int ?b" using a1 by simp
    then have "2 powi (?e - 1) = (2 :: rat) ^ (?a - 1) / 2 ^ ?b" using p by metis
    also have "\<dots> \<le> of_int n / of_int d"
      using ra rb d n by (intro frac_le) simp_all
    finally show ?thesis using x by simp
  qed
  have upper: "x < 2 powi (?e + 1)"
  proof -
    have "?e + 1 = int ?a - int (?b - 1)" using b1 by simp
    then have "2 powi (?e + 1) = (2 :: rat) ^ ?a / 2 ^ (?b - 1)" using p by metis
    moreover have "of_int n / of_int d < (2 :: rat) ^ ?a / 2 ^ (?b - 1)"
      using ra rb n by (intro frac_less) simp_all
    ultimately show ?thesis using x by simp
  qed
  have "ilog2 x = (if 2 powi ?e \<le> x then ?e else ?e - 1)"
    by (simp add: ilog2_def q Let_def)
  with lower upper show "2 powi ilog2 x \<le> x" and "x < 2 powi (ilog2 x + 1)"
    by (simp_all split: if_splits)
qed

lemma ilog2_le: "0 < x \<Longrightarrow> x < 2 powi (e + 1) \<Longrightarrow> ilog2 x \<le> e"
  using ilog2_bounds(1) [of x] powi_two_strict [of "ilog2 x" "e + 1"] by linarith

lemma ilog2_ge: "0 < x \<Longrightarrow> 2 powi e \<le> x \<Longrightarrow> e \<le> ilog2 x"
  using ilog2_bounds(2) [of x] powi_two_strict [of e "ilog2 x + 1"] by linarith

lemma ilog2_mono: "0 < x \<Longrightarrow> x \<le> y \<Longrightarrow> ilog2 x \<le> ilog2 y"
  using ilog2_bounds(1) [of x] ilog2_ge [of y "ilog2 x"] by linarith

subsection \<open>Rounding to an integer\<close>

lemma round_half_even_of_int [simp]: "round_half_even (of_int k) = k"
  by (simp add: round_half_even_def)

lemma round_half_even_error: "\<bar>of_int (round_half_even x) - x\<bar> \<le> 1 / 2"
proof -
  have "of_int \<lfloor>x\<rfloor> \<le> x" "x < of_int \<lfloor>x\<rfloor> + 1" by linarith+
  then show ?thesis by (auto simp: round_half_even_def Let_def abs_le_iff)
qed

lemma round_half_even_le: "x \<le> of_int k \<Longrightarrow> round_half_even x \<le> k"
proof -
  assume x: "x \<le> of_int k"
  show ?thesis
  proof (cases "\<lfloor>x\<rfloor> = k")
    case True
    then have "x = of_int k" using x by linarith
    then show ?thesis by simp
  next
    case False
    then have "\<lfloor>x\<rfloor> + 1 \<le> k" using x by linarith
    then show ?thesis by (auto simp: round_half_even_def Let_def)
  qed
qed

lemma round_half_even_ge: "of_int k \<le> x \<Longrightarrow> k \<le> round_half_even x"
proof -
  assume "of_int k \<le> x"
  then have "k \<le> \<lfloor>x\<rfloor>" by linarith
  then show ?thesis by (auto simp: round_half_even_def Let_def)
qed

lemma round_half_even_mono: "x \<le> y \<Longrightarrow> round_half_even x \<le> round_half_even y"
proof -
  assume xy: "x \<le> y"
  then have "\<lfloor>x\<rfloor> \<le> \<lfloor>y\<rfloor>" by linarith
  moreover have "round_half_even x \<le> round_half_even y" if "\<lfloor>x\<rfloor> = \<lfloor>y\<rfloor>"
    using xy that by (auto simp: round_half_even_def Let_def)
  moreover have "round_half_even x \<le> round_half_even y" if "\<lfloor>x\<rfloor> < \<lfloor>y\<rfloor>"
  proof -
    have "x \<le> of_int (\<lfloor>x\<rfloor> + 1)" and "of_int (\<lfloor>x\<rfloor> + 1) \<le> y" using that by linarith+
    then show ?thesis using round_half_even_le round_half_even_ge by fastforce
  qed
  ultimately show ?thesis by linarith
qed

subsection \<open>Rounding to a double\<close>

lemma rnd_zero [simp]: "rnd 0 = 0"
  by (simp add: rnd_def)

lemma rnd_alt: "rnd x = of_int (round_half_even (x / 2 powi ulp_exp x)) * 2 powi ulp_exp x"
  using round_half_even_of_int [of 0] by (simp add: rnd_def del: round_half_even_of_int)

text \<open>A number on the grid of \<open>x\<close> bounds the rounded \<open>x\<close> if it bounds \<open>x\<close>.\<close>

lemma powi_grid:
  assumes "e \<le> l"
  obtains k :: int where "(2 :: rat) powi l = of_int k * 2 powi e"
proof
  show "(2 :: rat) powi l = of_int (2 ^ nat (l - e)) * 2 powi e"
    using assms powi_two_add [of "l - e" e] by (simp add: power_int_def)
qed

lemma rnd_le_grid: "x \<le> of_int k * 2 powi ulp_exp x \<Longrightarrow> rnd x \<le> of_int k * 2 powi ulp_exp x"
proof -
  assume "x \<le> of_int k * 2 powi ulp_exp x"
  then have "x / 2 powi ulp_exp x \<le> of_int k" by (simp add: pos_divide_le_eq)
  then have "round_half_even (x / 2 powi ulp_exp x) \<le> k" by (rule round_half_even_le)
  then show ?thesis unfolding rnd_alt by (simp add: mult_right_mono)
qed

lemma rnd_ge_grid: "of_int k * 2 powi ulp_exp x \<le> x \<Longrightarrow> of_int k * 2 powi ulp_exp x \<le> rnd x"
proof -
  assume "of_int k * 2 powi ulp_exp x \<le> x"
  then have "of_int k \<le> x / 2 powi ulp_exp x" by (simp add: pos_le_divide_eq)
  then have "k \<le> round_half_even (x / 2 powi ulp_exp x)" by (rule round_half_even_ge)
  then show ?thesis unfolding rnd_alt by (simp add: mult_right_mono)
qed

lemma rnd_on_grid: "x = of_int k * 2 powi ulp_exp x \<Longrightarrow> rnd x = x"
  by (metis antisym order_refl rnd_ge_grid rnd_le_grid)

lemma rnd_nonneg: "0 \<le> x \<Longrightarrow> 0 \<le> rnd x"
  using rnd_ge_grid [of 0 x] by simp

lemma rnd_mono_pos:
  assumes "0 < x" and "x \<le> y"
  shows "rnd x \<le> rnd y"
proof (cases "ulp_exp x = ulp_exp y")
  case True
  have "x / 2 powi ulp_exp y \<le> y / 2 powi ulp_exp y" using assms by (simp add: divide_right_mono)
  then show ?thesis unfolding rnd_alt True by (simp add: mult_right_mono round_half_even_mono)
next
  case False
  have "ilog2 x \<le> ilog2 y" using assms by (rule ilog2_mono)
  with False assms have lt: "ilog2 x < ilog2 y" "ulp_exp y = ilog2 y - 52" "ulp_exp x \<le> ilog2 y"
    by (auto simp: ulp_exp_def)
  let ?z = "(2 :: rat) powi ilog2 y"
  have "x < 2 powi (ilog2 x + 1)" using assms(1) by (rule ilog2_bounds)
  also have "\<dots> \<le> ?z" using lt(1) by (intro powi_two_mono) simp
  finally have xz: "x \<le> ?z" by simp
  have zy: "?z \<le> y" using assms by (intro ilog2_bounds(1)) simp
  obtain i where "?z = of_int i * 2 powi ulp_exp x" using lt(3) by (rule powi_grid)
  with xz have "rnd x \<le> ?z" using rnd_le_grid [of x i] by simp
  also obtain j where "?z = of_int j * 2 powi ulp_exp y"
    using lt(2) powi_grid [of "ulp_exp y" "ilog2 y"] by auto
  with zy have "?z \<le> rnd y" using rnd_ge_grid [of j y] by simp
  finally show ?thesis .
qed

lemma rnd_mono: "0 \<le> x \<Longrightarrow> x \<le> y \<Longrightarrow> rnd x \<le> rnd y"
  by (cases "x = 0") (simp_all add: rnd_nonneg rnd_mono_pos)

text \<open>Numbers with at most 53 significant bits are kept.\<close>

lemma rnd_exact:
  assumes "\<bar>m\<bar> < 2 ^ 53" and "- 1074 \<le> e"
  shows "rnd (of_int m * 2 powi e) = of_int m * 2 powi e"
proof (cases "m = 0")
  case False
  let ?x = "of_int m * 2 powi e :: rat"
  have pos: "0 < \<bar>?x\<bar>" using False by (simp add: abs_mult)
  have "\<bar>?x\<bar> = of_int \<bar>m\<bar> * 2 powi e" by (simp add: abs_mult)
  also have "(of_int \<bar>m\<bar> :: rat) < 2 ^ 53" using assms(1) by (metis of_int_less_iff of_int_numeral of_int_power)
  then have "of_int \<bar>m\<bar> * 2 powi e < 2 ^ 53 * (2 :: rat) powi e" by (simp add: mult_strict_right_mono)
  also have "\<dots> = 2 powi (52 + e + 1)" using powi_two_add [of 53 e] by (simp add: add.commute)
  finally have "ilog2 \<bar>?x\<bar> \<le> 52 + e" by (rule ilog2_le [OF pos])
  then have "ulp_exp ?x \<le> e" using assms(2) by (simp add: ulp_exp_def)
  then obtain k where k: "(2 :: rat) powi e = of_int k * 2 powi ulp_exp ?x" by (rule powi_grid)
  then have "?x = of_int (m * k) * 2 powi ulp_exp ?x" by simp
  then show ?thesis by (rule rnd_on_grid)
qed simp

lemma rnd_of_int: "\<bar>m\<bar> < 2 ^ 53 \<Longrightarrow> rnd (of_int m) = of_int m"
  using rnd_exact [of m 0] by simp

text \<open>Half a unit in the last place of relative error, away from the subnormal numbers.\<close>

lemma rnd_error:
  assumes "2 powi - 1022 \<le> x"
  shows "\<bar>rnd x - x\<bar> \<le> x / 2 ^ 53"
proof -
  have x: "0 < x" using assms powi_two_pos [of "- 1022"] by linarith
  have "- 1022 \<le> ilog2 x" using x assms by (rule ilog2_ge)
  with x have u: "ulp_exp x = ilog2 x - 52" by (simp add: ulp_exp_def)
  let ?u = "2 powi ulp_exp x :: rat"
  have "rnd x - x = (of_int (round_half_even (x / ?u)) - x / ?u) * ?u"
    unfolding rnd_alt by (simp add: left_diff_distrib)
  then have "\<bar>rnd x - x\<bar> = \<bar>of_int (round_half_even (x / ?u)) - x / ?u\<bar> * ?u"
    by (simp add: abs_mult)
  also have "\<dots> \<le> 1 / 2 * ?u" using round_half_even_error by (intro mult_right_mono) simp_all
  also have "\<dots> = 2 powi ilog2 x / 2 ^ 53" by (simp add: u power_int_diff)
  also have "\<dots> \<le> x / 2 ^ 53" using ilog2_bounds(1) [OF x] by (simp add: divide_right_mono)
  finally show ?thesis .
qed

lemma ilog2_eq: "2 powi e \<le> x \<Longrightarrow> x < 2 powi (e + 1) \<Longrightarrow> ilog2 x = e"
  using ilog2_le [of x e] ilog2_ge [of x e] powi_two_pos [of e] by linarith

lemma to_double_Finite: "\<bar>rnd x\<bar> < 2 ^ 1024 \<Longrightarrow> to_double x = Finite (rnd x)"
proof -
  assume small: "\<bar>rnd x\<bar> < 2 ^ 1024"
  then have "\<bar>rnd x\<bar> < 2 powi (1023 + 1)" by simp
  then have "ilog2 \<bar>rnd x\<bar> \<le> 1023" if "rnd x \<noteq> 0"
    using that by (intro ilog2_le) simp_all
  then show ?thesis by (auto simp: to_double_def Let_def)
qed

lemma to_double_Infinite:
  assumes "2 ^ 1024 \<le> \<bar>rnd x\<bar>"
  shows "to_double x = Infinite (rnd x < 0)"
proof -
  from assms have nz: "rnd x \<noteq> 0" by auto
  from assms have "2 powi 1024 \<le> \<bar>rnd x\<bar>" by simp
  with nz have "1024 \<le> ilog2 \<bar>rnd x\<bar>" by (intro ilog2_ge) simp_all
  with nz show ?thesis by (simp add: to_double_def)
qed

subsection \<open>A 64-bit integer times a fraction\<close>

text \<open>The unit roundoff.\<close>

abbreviation uu :: rat where "uu \<equiv> 1 / 2 ^ 53"

lemma rnd_range:
  assumes "2 powi - 1022 \<le> x"
  shows "x * (1 - uu) \<le> rnd x" and "rnd x \<le> x * (1 + uu)"
proof -
  have e: "rnd x - x \<le> x / 2 ^ 53" "- (x / 2 ^ 53) \<le> rnd x - x"
    using rnd_error [OF assms] unfolding abs_le_iff by linarith+
  have m: "x * (1 - uu) = x - x / 2 ^ 53"
    by (simp only: right_diff_distrib mult_1_right times_divide_eq_right)
  have p: "x * (1 + uu) = x + x / 2 ^ 53"
    by (simp only: distrib_left mult_1_right times_divide_eq_right)
  show "x * (1 - uu) \<le> rnd x" unfolding m using e(2) by linarith
  show "rnd x \<le> x * (1 + uu)" unfolding p using e(1) by linarith
qed

lemma tiny: "1 / 32 \<le> x \<Longrightarrow> (2 :: rat) powi - 1022 \<le> x"
proof -
  assume "1 / 32 \<le> x"
  moreover have "(2 :: rat) powi - 1022 \<le> 2 powi - 5" by (rule powi_two_mono) simp
  moreover have "(2 :: rat) powi - 5 = 1 / 32" by (simp add: power_int_def power_divide)
  ultimately show ?thesis by linarith
qed

lemma rnd_scaled:
  assumes "1 \<le> x" and "1 / 16 \<le> h" and "h \<le> 2"
  shows "\<bar>rnd (rnd x * rnd h) - x * h\<bar> \<le> x * h / 2 ^ 51" and "0 < rnd x" and "0 < rnd h"
proof -
  let ?a = "rnd x" and ?g = "rnd h"
  have a: "x * (1 - uu) \<le> ?a" "?a \<le> x * (1 + uu)" using rnd_range [OF tiny, of x] assms(1) by simp_all
  have g: "h * (1 - uu) \<le> ?g" "?g \<le> h * (1 + uu)" using rnd_range [OF tiny, of h] assms(2) by simp_all
  have apos: "3 / 4 \<le> ?a" using a(1) assms(1) by simp
  have gpos: "3 / 64 \<le> ?g" using g(1) assms(2) by simp
  show "0 < rnd x" "0 < rnd h" using apos gpos by linarith+
  have "3 / 4 * (3 / 64) \<le> ?a * ?g" using apos gpos by (intro mult_mono) simp_all
  then have "1 / 32 \<le> ?a * ?g" by simp
  then have p: "?a * ?g * (1 - uu) \<le> rnd (?a * ?g)" "rnd (?a * ?g) \<le> ?a * ?g * (1 + uu)"
    by (intro rnd_range tiny; assumption)+
  have cubes: "(1 + uu) ^ 3 \<le> 1 + 1 / 2 ^ 51" "1 - 1 / 2 ^ 51 \<le> (1 - uu) ^ 3"
    by (simp_all add: power3_eq_cube)
  have xh: "0 \<le> x * h" using assms by simp
  have "?a * ?g \<le> (x * (1 + uu)) * (h * (1 + uu))"
    using a g apos gpos assms by (intro mult_mono) simp_all
  then have "?a * ?g * (1 + uu) \<le> (x * (1 + uu)) * (h * (1 + uu)) * (1 + uu)"
    by (intro mult_right_mono) simp_all
  also have "\<dots> = (x * h) * ((1 + uu) ^ 3)" by (simp add: power3_eq_cube)
  also have "\<dots> \<le> (x * h) * (1 + 1 / 2 ^ 51)" using cubes xh by (intro mult_left_mono) assumption+
  finally have up: "rnd (?a * ?g) \<le> (x * h) * (1 + 1 / 2 ^ 51)" using p(2) by linarith
  have "(x * (1 - uu)) * (h * (1 - uu)) \<le> ?a * ?g"
    using a g apos gpos assms by (intro mult_mono) simp_all
  then have "(x * (1 - uu)) * (h * (1 - uu)) * (1 - uu) \<le> ?a * ?g * (1 - uu)"
    by (intro mult_right_mono) simp_all
  moreover have "(x * (1 - uu)) * (h * (1 - uu)) * (1 - uu) = (x * h) * ((1 - uu) ^ 3)"
    by (simp add: power3_eq_cube)
  moreover have "(x * h) * (1 - 1 / 2 ^ 51) \<le> (x * h) * ((1 - uu) ^ 3)"
    using cubes xh by (intro mult_left_mono) assumption+
  ultimately have "(x * h) * (1 - 1 / 2 ^ 51) \<le> rnd (?a * ?g)" using p(1) by linarith
  with up show "\<bar>rnd (?a * ?g) - x * h\<bar> \<le> x * h / 2 ^ 51"
    unfolding abs_le_iff by (simp add: right_diff_distrib distrib_left mult.commute)
qed

lemma to_double_small: "0 \<le> x \<Longrightarrow> x \<le> 2 ^ 70 \<Longrightarrow> to_double x = Finite (rnd x)"
proof (rule to_double_Finite)
  assume "0 \<le> x" "x \<le> 2 ^ 70"
  then have "rnd x \<le> rnd (of_int 1 * 2 powi 70)" by (intro rnd_mono) simp_all
  also have "rnd (of_int 1 * 2 powi 70) = 2 ^ 70" using rnd_exact [of 1 70] by simp
  finally have "rnd x \<le> 2 ^ 70" .
  moreover have "0 \<le> rnd x" using \<open>0 \<le> x\<close> by (rule rnd_nonneg)
  moreover have "(2 :: rat) ^ 70 < 2 ^ 1024" by (rule power_strict_increasing) simp_all
  ultimately show "\<bar>rnd x\<bar> < 2 ^ 1024" by linarith
qed

text \<open>The product of a positive 64-bit integer with a factor, as the code computes it.\<close>

lemma dbl_scaled:
  assumes "n \<noteq> 0" and "1 / 16 \<le> h" and "h \<le> 2"
  obtains p where "dbl_mul (dbl_of_u64 n) (to_double h) = Finite p"
    "\<bar>p - of_nat (unat n) * h\<bar> \<le> of_nat (unat n) * h / 2 ^ 51"
proof
  let ?x = "of_nat (unat n) :: rat"
  have x: "1 \<le> ?x" 
  proof -
    have "1 \<le> unat n" using assms(1) by (simp add: Suc_le_eq unat_gt_0)
    then show ?thesis by (metis of_nat_1 of_nat_le_iff)
  qed
  have "?x < of_nat (2 ^ 64)" unfolding of_nat_less_iff using unsigned_less [of n] by simp
  then have x64: "?x \<le> 2 ^ 64" by simp
  let ?a = "rnd ?x" and ?g = "rnd h"
  have "?a \<le> rnd (of_int 1 * 2 powi 64)" by (rule rnd_mono) (use x x64 in \<open>linarith, simp\<close>)
  then have a: "?a \<le> 2 ^ 64" using rnd_exact [of 1 64] by simp
  have "?g \<le> rnd (of_int 2)" using assms by (intro rnd_mono) simp_all
  then have g: "?g \<le> 2" using rnd_of_int [of 2] by simp
  note s = rnd_scaled [OF x assms(2,3)]
  have "?a * ?g \<le> 2 ^ 64 * 2" using a g s(2,3) by (intro mult_mono) simp_all
  then have "to_double (?a * ?g) = Finite (rnd (?a * ?g))" using s(2,3) by (intro to_double_small) simp_all
  moreover have "to_double h = Finite ?g" using assms by (intro to_double_small) simp_all
  moreover have "dbl_of_u64 n = Finite ?a" unfolding dbl_of_u64_def
    by (rule to_double_small) (use x order_trans [OF x64, of "2 ^ 70"] in simp_all)
  ultimately show "dbl_mul (dbl_of_u64 n) (to_double h) = Finite (rnd (?a * ?g))" by simp
  show "\<bar>rnd (?a * ?g) - ?x * h\<bar> \<le> ?x * h / 2 ^ 51" by (rule s)
qed

lemma dbl_to_u64_Finite:
  assumes "0 \<le> p"
  shows "dbl_to_u64 (Finite p) = (if p < 2 ^ 64 then Some (word_of_int \<lfloor>p\<rfloor>) else None)"
  using assms by (auto simp: dbl_to_u64_def truncate_rat_def Let_def floor_less_iff)

lemma unat_floor:
  assumes "0 \<le> p" and "p < 2 ^ 64"
  shows "int (unat (word_of_int \<lfloor>p\<rfloor> :: u64)) = \<lfloor>p\<rfloor>"
proof -
  have "0 \<le> \<lfloor>p\<rfloor>" "\<lfloor>p\<rfloor> < 2 ^ 64" using assms by (simp_all add: floor_less_iff)
  then show ?thesis by (simp add: unsigned_of_int take_bit_int_eq_self)
qed

subsection \<open>Exact integers and bounded products\<close>

lemma dbl_of_int_exact: "\<bar>i\<bar> < 2 ^ 53 \<Longrightarrow> dbl_of_int i = Finite (of_int i)"
proof -
  assume "\<bar>i\<bar> < 2 ^ 53"
  then have r: "rnd (of_int i) = of_int i" by (rule rnd_of_int)
  have "\<bar>of_int i :: rat\<bar> < of_int (2 ^ 53)"
    using \<open>\<bar>i\<bar> < 2 ^ 53\<close> by (simp only: of_int_less_iff flip: of_int_abs)
  then have "\<bar>of_int i :: rat\<bar> < 2 ^ 53" by simp
  also have "(2 :: rat) ^ 53 < 2 ^ 1024" by (rule power_strict_increasing) simp_all
  finally have "\<bar>rnd (of_int i)\<bar> < 2 ^ 1024" unfolding r .
  then show ?thesis using r by (simp add: dbl_of_int_def to_double_Finite)
qed

lemma dbl_of_u64_exact:
  assumes "int (unat n) = N" and "N < 2 ^ 53"
  shows "dbl_of_u64 n = Finite (of_int N)"
proof -
  have "(of_nat (unat n) :: rat) = of_int N" using assms(1) by (metis of_int_of_nat_eq)
  moreover have "0 \<le> N" using assms(1) by linarith
  ultimately show ?thesis using dbl_of_int_exact [of N] assms(2) by (simp only: dbl_of_int_def dbl_of_u64_def abs_of_nonneg)
qed

lemma to_double_unit:
  assumes "0 \<le> x" and "x \<le> of_int k" and "0 \<le> k" and "k < 2 ^ 53"
  shows "\<exists>y. to_double x = Finite y \<and> 0 \<le> y \<and> y \<le> of_int k"
proof -
  have "(of_int k :: rat) \<le> of_int (2 ^ 53)" using assms(4) by (simp only: of_int_le_iff)
  then have "x \<le> 2 ^ 70" using assms(2) by simp
  then have "to_double x = Finite (rnd x)" using assms(1) by (intro to_double_small)
  moreover have "rnd x \<le> rnd (of_int k)" using assms(1,2) by (rule rnd_mono)
  moreover have "rnd (of_int k) = of_int k" using assms(3,4) by (intro rnd_of_int) simp
  ultimately show ?thesis using rnd_nonneg [OF assms(1)] by auto
qed

lemma scaled_product:
  assumes "0 \<le> x" and "x \<le> 1" and "int (unat n) = N" and "N < 2 ^ 53"
  shows "\<exists>p. dbl_mul (Finite x) (dbl_of_u64 n) = Finite p \<and> 0 \<le> p \<and> p \<le> of_int N"
proof -
  have N: "0 \<le> N" using assms(3) by linarith
  then have "x * of_int N \<le> 1 * of_int N" using assms(2) by (intro mult_right_mono) simp_all
  moreover have "0 \<le> x * of_int N" using assms(1) N by simp
  ultimately show ?thesis
    using to_double_unit [of "x * of_int N" N] N assms(4) by (simp add: dbl_of_u64_exact [OF assms(3,4)])
qed

lemma to_u64_below:
  fixes n :: u64
  assumes "0 \<le> p" and "p \<le> of_int N" and "int (unat n) = N" and "N < 2 ^ 53"
  shows "\<exists>t. dbl_to_u64 (Finite p) = Some t \<and> t \<le> n"
proof -
  have "(of_int N :: rat) < of_int (2 ^ 53)" using assms(4) by (simp only: of_int_less_iff)
  with assms(2) have lt: "p < 2 ^ 64" by simp
  have "\<lfloor>p\<rfloor> \<le> N" using assms(2) by (simp add: floor_le_iff)
  then have "int (unat (word_of_int \<lfloor>p\<rfloor> :: u64)) \<le> int (unat n)"
    unfolding unat_floor [OF assms(1) lt] assms(3) .
  then have "(word_of_int \<lfloor>p\<rfloor> :: u64) \<le> n" unfolding word_le_nat_alt by (simp only: of_nat_le_iff)
  with lt show ?thesis by (simp add: dbl_to_u64_Finite [OF assms(1)])
qed

subsection \<open>Values that are doubles\<close>

text \<open>A finite double is a rational that rounding keeps and that is not too large.\<close>

definition is_double :: "double \<Rightarrow> bool" where
  "is_double x = (case x of Finite q \<Rightarrow> to_double q = Finite q | _ \<Rightarrow> True)"

lemma below_ulp: "x \<noteq> 0 \<Longrightarrow> \<bar>x\<bar> < 2 powi (ulp_exp x + 53)"
proof -
  assume "x \<noteq> 0"
  then have "\<bar>x\<bar> < 2 powi (ilog2 \<bar>x\<bar> + 1)" by (intro ilog2_bounds(2)) simp
  also have "\<dots> \<le> 2 powi (ulp_exp x + 53)" by (rule powi_two_mono) (simp add: ulp_exp_def)
  finally show ?thesis .
qed

lemma rnd_idem [simp]: "rnd (rnd x) = rnd x"
proof (cases "x = 0")
  case False
  let ?e = "ulp_exp x" and ?k = "round_half_even (x / 2 powi ulp_exp x)"
  have "\<bar>x\<bar> / 2 powi ?e < 2 ^ 53"
    using below_ulp [OF False] by (simp add: pos_divide_less_eq powi_two_add mult.commute)
  then have "x / 2 powi ?e \<le> of_int (2 ^ 53)" "of_int (- (2 ^ 53)) \<le> x / 2 powi ?e"
    by (auto simp: abs_less_iff pos_divide_less_eq pos_le_divide_eq pos_divide_le_eq)
  then have k: "\<bar>?k\<bar> \<le> 2 ^ 53"
    using round_half_even_le [of "x / 2 powi ?e" "2 ^ 53"] round_half_even_ge [of "- (2 ^ 53)" "x / 2 powi ?e"]
    by (simp add: abs_le_iff)
  have e: "- 1074 \<le> ?e" by (simp add: ulp_exp_def)
  show ?thesis
  proof (cases "\<bar>?k\<bar> = 2 ^ 53")
    case True
    then have "?k = sgn ?k * 2 ^ 53" using sgn_mult_abs [of ?k] by (simp only:)
    then have "(of_int ?k :: rat) = of_int (sgn ?k * 2 ^ 53)" by (rule arg_cong)
    also have "\<dots> = of_int (sgn ?k) * 2 powi 53" by simp
    finally have "of_int ?k * 2 powi ?e = of_int (sgn ?k) * (2 :: rat) powi (?e + 53)"
      by (simp only: powi_two_add mult.assoc mult.commute mult.left_commute)
    moreover have "\<bar>sgn ?k\<bar> < 2 ^ 53" by (simp add: sgn_if)
    ultimately show ?thesis using e rnd_exact [of "sgn ?k" "?e + 53"] by (simp add: rnd_alt [of x])
  next
    case False
    with k e show ?thesis by (simp add: rnd_alt [of x] rnd_exact)
  qed
qed simp

lemma to_double_is_double: "is_double (to_double x)"
  by (auto simp: is_double_def to_double_def Let_def)

end
