(* ===== verification/Psi_Data.thy ===== *)
theory Psi_Data
  imports Doubles
begin

text \<open>
  The sample that the poller hands to the rest of the daemon: \<open>struct PsiData\<close> of
  \<open>include/governor/psi_poller.h\<close>, with its default member initialisers.
\<close>

record psi_data =
  some_avg10 :: double
  some_avg60 :: double
  some_avg300 :: double
  some_total :: u64
  full_avg10 :: double
  full_avg60 :: double
  full_avg300 :: double
  full_total :: u64

definition psi_default :: psi_data where
  "psi_default = \<lparr>some_avg10 = Finite 0, some_avg60 = Finite 0, some_avg300 = Finite 0,
     some_total = 0, full_avg10 = Finite 0, full_avg60 = Finite 0, full_avg300 = Finite 0,
     full_total = 0\<rparr>"

end
