(* ===== verification/Policy_Engine.thy ===== *)
theory Policy_Engine
  imports Psi_Data
begin

text \<open>
  The pressure state machine of \<open>src/governor/policy_engine.cpp\<close>. \<open>PressureTier\<close> is an
  \<open>enum class\<close> over \<open>int\<close>, so \<open>static_cast\<close> reaches every \<open>int\<close>: a tier is a wrapped
  integer, of which four have names. \<open>evaluate\<close> returns \<open>None\<close> where the code would index
  \<open>configs_\<close> out of range or overflow an \<open>int\<close> counter.
\<close>

datatype pressure_tier = Tier (tier_index: int)

abbreviation NORMAL :: pressure_tier where "NORMAL \<equiv> Tier 0"
abbreviation ELEVATED :: pressure_tier where "ELEVATED \<equiv> Tier 1"
abbreviation HIGH :: pressure_tier where "HIGH \<equiv> Tier 2"
abbreviation CRITICAL :: pressure_tier where "CRITICAL \<equiv> Tier 3"

instantiation pressure_tier :: linorder
begin

definition less_eq_pressure_tier :: "pressure_tier \<Rightarrow> pressure_tier \<Rightarrow> bool" where
  "less_eq_pressure_tier s t \<longleftrightarrow> tier_index s \<le> tier_index t"

definition less_pressure_tier :: "pressure_tier \<Rightarrow> pressure_tier \<Rightarrow> bool" where
  "less_pressure_tier s t \<longleftrightarrow> tier_index s < tier_index t"

instance
  by standard (auto simp: less_eq_pressure_tier_def less_pressure_tier_def pressure_tier.expand)

end

record tier_config =
  promote_threshold :: double
  demote_threshold :: double
  debounce_polls :: int
  shrink_pct :: double

datatype action_type = ActNone | ActShrink | ActGrow

record policy_action =
  action_kind :: action_type
  action_fraction :: double
  action_tier :: pressure_tier

record policy_engine =
  configs :: "tier_config list"
  current_tier :: pressure_tier
  promote_polls :: int
  demote_polls :: int

definition default_configs :: "tier_config list" where
  "default_configs =
    [\<lparr>promote_threshold = Finite 5, demote_threshold = Finite 0, debounce_polls = 3,
      shrink_pct = Finite 0\<rparr>,
     \<lparr>promote_threshold = Finite 5, demote_threshold = Finite 2, debounce_polls = 3,
      shrink_pct = to_double (1 / 10)\<rparr>,
     \<lparr>promote_threshold = Finite 15, demote_threshold = Finite 8, debounce_polls = 3,
      shrink_pct = Finite (1 / 4)\<rparr>,
     \<lparr>promote_threshold = Finite 30, demote_threshold = Finite 15, debounce_polls = 2,
      shrink_pct = Finite (1 / 2)\<rparr>]"

definition engine_new :: "tier_config list \<Rightarrow> policy_engine" where
  "engine_new cs = \<lparr>configs = (if cs = [] then default_configs else cs),
     current_tier = NORMAL, promote_polls = 0, demote_polls = 0\<rparr>"

definition engine_reset :: "policy_engine \<Rightarrow> policy_engine" where
  "engine_reset e = e\<lparr>current_tier := NORMAL, promote_polls := 0, demote_polls := 0\<rparr>"

definition get_tier_name :: "pressure_tier \<Rightarrow> string" where
  "get_tier_name t =
     (if t = NORMAL then ''NORMAL''
      else if t = ELEVATED then ''ELEVATED''
      else if t = HIGH then ''HIGH''
      else if t = CRITICAL then ''CRITICAL''
      else ''UNKNOWN'')"

subsection \<open>Evaluation of one sample\<close>

definition config_at :: "tier_config list \<Rightarrow> int \<Rightarrow> tier_config option" where
  "config_at cs i = (if 0 \<le> i \<and> i < int (length cs) then Some (cs ! nat i) else None)"

definition int_max :: int where "int_max = 2147483647"

definition int_succ :: "int \<Rightarrow> int option" where
  "int_succ i = (if i < int_max then Some (i + 1) else None)"

text \<open>The condition for leaving the tier with configuration \<open>cur\<close> for the next one, of
  index \<open>next_idx\<close> and configuration \<open>nxt\<close>.\<close>

definition promote_condition :: "int \<Rightarrow> tier_config \<Rightarrow> tier_config \<Rightarrow> psi_data \<Rightarrow> bool" where
  "promote_condition next_idx cur nxt d =
     (if next_idx = tier_index CRITICAL
      then promote_threshold nxt \<le> some_avg10 d \<or> promote_threshold cur \<le> some_avg60 d
      else promote_threshold nxt \<le> some_avg10 d)"

text \<open>The promotion check: the action, the engine and the flag \<open>promoted\<close>. \<open>configs_[current_idx]\<close>
  is read only when the next tier is CRITICAL.\<close>

definition promotion_check ::
    "policy_engine \<Rightarrow> psi_data \<Rightarrow> (bool \<times> policy_action \<times> policy_engine) option" where
  "promotion_check e d =
     (let idx = tier_index (current_tier e);
          none = \<lparr>action_kind = ActNone, action_fraction = Finite 0, action_tier = current_tier e\<rparr>
      in if idx < int (length (configs e)) - 1 then do {
           nxt \<leftarrow> config_at (configs e) (idx + 1);
           cur \<leftarrow> (if idx + 1 = tier_index CRITICAL then config_at (configs e) idx else Some nxt);
           if promote_condition (idx + 1) cur nxt d then do {
             n \<leftarrow> int_succ (promote_polls e);
             if debounce_polls nxt \<le> n
             then Some (True,
                    \<lparr>action_kind = ActShrink, action_fraction = shrink_pct nxt,
                     action_tier = Tier (idx + 1)\<rparr>,
                    e\<lparr>current_tier := Tier (idx + 1), promote_polls := 0, demote_polls := 0\<rparr>)
             else Some (False, none, e\<lparr>promote_polls := n, demote_polls := 0\<rparr>)
           }
           else Some (False, none, e\<lparr>promote_polls := 0\<rparr>)
         }
         else Some (False, none, e))"

text \<open>The demotion check for the tier index the evaluation started with.\<close>

definition demotion_check ::
    "int \<Rightarrow> policy_action \<Rightarrow> policy_engine \<Rightarrow> psi_data \<Rightarrow> (policy_action \<times> policy_engine) option" where
  "demotion_check idx act e d = do {
     cur \<leftarrow> config_at (configs e) idx;
     if some_avg10 d < demote_threshold cur then do {
       n \<leftarrow> int_succ (demote_polls e);
       if debounce_polls cur \<le> n
       then Some (\<lparr>action_kind = ActGrow, action_fraction = shrink_pct cur,
                   action_tier = Tier (idx - 1)\<rparr>,
                  e\<lparr>current_tier := Tier (idx - 1), promote_polls := 0, demote_polls := 0\<rparr>)
       else Some (act, e\<lparr>promote_polls := 0, demote_polls := n\<rparr>)
     }
     else Some (act, e\<lparr>demote_polls := 0\<rparr>)
   }"

definition evaluate :: "policy_engine \<Rightarrow> psi_data \<Rightarrow> (policy_action \<times> policy_engine) option" where
  "evaluate e d = do {
     (promoted, act, e1) \<leftarrow> promotion_check e d;
     if \<not> promoted \<and> 0 < tier_index (current_tier e)
     then demotion_check (tier_index (current_tier e)) act e1 d
     else Some (act, e1)
   }"

subsection \<open>The invariant\<close>

text \<open>
  The tier is a valid index, and a counter that is running is below the debounce count it is
  compared with: that of the next tier for promotions, of the current tier for demotions.
\<close>

abbreviation tier_now :: "policy_engine \<Rightarrow> int" where
  "tier_now e \<equiv> tier_index (current_tier e)"

abbreviation config_of :: "policy_engine \<Rightarrow> int \<Rightarrow> tier_config" where
  "config_of e i \<equiv> configs e ! nat i"

definition int_configs :: "tier_config list \<Rightarrow> bool" where
  "int_configs cs \<longleftrightarrow> list_all (\<lambda>c. debounce_polls c \<le> int_max) cs"

definition engine_ok :: "policy_engine \<Rightarrow> bool" where
  "engine_ok e \<longleftrightarrow> int_configs (configs e) \<and>
     0 \<le> tier_now e \<and> tier_now e < int (length (configs e)) \<and>
     0 \<le> promote_polls e \<and> 0 \<le> demote_polls e \<and>
     (promote_polls e = 0 \<or>
       tier_now e + 1 < int (length (configs e)) \<and>
       promote_polls e < debounce_polls (config_of e (tier_now e + 1))) \<and>
     (demote_polls e = 0 \<or>
       0 < tier_now e \<and> demote_polls e < debounce_polls (config_of e (tier_now e)))"

lemma config_at_Some [simp]:
  "0 \<le> i \<Longrightarrow> i < int (length cs) \<Longrightarrow> config_at cs i = Some (cs ! nat i)"
  by (simp add: config_at_def)

lemma int_configs_nth: "int_configs cs \<Longrightarrow> 0 \<le> i \<Longrightarrow> i < int (length cs) \<Longrightarrow>
    debounce_polls (cs ! nat i) \<le> int_max"
  by (simp add: int_configs_def list_all_length nat_less_iff)

lemma int_succ_below [simp]: "i < n \<Longrightarrow> n \<le> int_max \<Longrightarrow> int_succ i = Some (i + 1)"
  by (simp add: int_succ_def)

lemma int_succ_zero [simp]: "int_succ 0 = Some 1"
  by (simp add: int_succ_def int_max_def)

lemma engine_new_ok: "int_configs cs \<Longrightarrow> engine_ok (engine_new cs)"
  by (auto simp: engine_ok_def engine_new_def default_configs_def int_configs_def int_max_def)

lemma engine_reset_ok: "engine_ok e \<Longrightarrow> engine_ok (engine_reset e)"
  by (auto simp: engine_ok_def engine_reset_def)

text \<open>The counters do not overflow.\<close>

lemma promote_succ:
  assumes "engine_ok e" and "tier_now e + 1 < int (length (configs e))"
  shows "int_succ (promote_polls e) = Some (promote_polls e + 1)"
proof (cases "promote_polls e = 0")
  case False
  with assms have "promote_polls e < debounce_polls (config_of e (tier_now e + 1))"
    and "debounce_polls (config_of e (tier_now e + 1)) \<le> int_max"
    by (auto simp: engine_ok_def intro!: int_configs_nth)
  then show ?thesis by (rule int_succ_below)
qed simp

lemma demote_succ:
  assumes "engine_ok e"
  shows "int_succ (demote_polls e) = Some (demote_polls e + 1)"
proof (cases "demote_polls e = 0")
  case False
  with assms have "demote_polls e < debounce_polls (config_of e (tier_now e))"
    and "debounce_polls (config_of e (tier_now e)) \<le> int_max"
    by (auto simp: engine_ok_def intro!: int_configs_nth)
  then show ?thesis by (rule int_succ_below)
qed simp

subsection \<open>The step as a total function of the two conditions\<close>

definition can_promote :: "policy_engine \<Rightarrow> psi_data \<Rightarrow> bool" where
  "can_promote e d \<longleftrightarrow> tier_now e + 1 < int (length (configs e)) \<and>
     promote_condition (tier_now e + 1) (config_of e (tier_now e)) (config_of e (tier_now e + 1)) d"

definition can_demote :: "policy_engine \<Rightarrow> psi_data \<Rightarrow> bool" where
  "can_demote e d \<longleftrightarrow> 0 < tier_now e \<and>
     some_avg10 d < demote_threshold (config_of e (tier_now e))"

definition no_action :: "policy_engine \<Rightarrow> policy_action" where
  "no_action e = \<lparr>action_kind = ActNone, action_fraction = Finite 0, action_tier = current_tier e\<rparr>"

definition promoted_to_next :: "policy_engine \<Rightarrow> policy_action \<times> policy_engine" where
  "promoted_to_next e =
     (\<lparr>action_kind = ActShrink, action_fraction = shrink_pct (config_of e (tier_now e + 1)),
       action_tier = Tier (tier_now e + 1)\<rparr>,
      e\<lparr>current_tier := Tier (tier_now e + 1), promote_polls := 0, demote_polls := 0\<rparr>)"

definition demoted_to_previous :: "policy_engine \<Rightarrow> policy_action \<times> policy_engine" where
  "demoted_to_previous e =
     (\<lparr>action_kind = ActGrow, action_fraction = shrink_pct (config_of e (tier_now e)),
       action_tier = Tier (tier_now e - 1)\<rparr>,
      e\<lparr>current_tier := Tier (tier_now e - 1), promote_polls := 0, demote_polls := 0\<rparr>)"

definition promote_due :: "policy_engine \<Rightarrow> bool" where
  "promote_due e \<longleftrightarrow> debounce_polls (config_of e (tier_now e + 1)) \<le> promote_polls e + 1"

definition demote_due :: "policy_engine \<Rightarrow> int \<Rightarrow> bool" where
  "demote_due e n \<longleftrightarrow> debounce_polls (config_of e (tier_now e)) \<le> n + 1"

text \<open>
  When both conditions hold, the promotion part clears the demotion counter, and the
  demotion part then starts it at one and clears the promotion counter.
\<close>

definition step_total :: "policy_engine \<Rightarrow> psi_data \<Rightarrow> policy_action \<times> policy_engine" where
  "step_total e d =
     (if can_promote e d \<and> promote_due e then promoted_to_next e
      else let n = (if can_promote e d then 0 else demote_polls e)
           in if can_demote e d
              then if demote_due e n then demoted_to_previous e
                   else (no_action e, e\<lparr>promote_polls := 0, demote_polls := n + 1\<rparr>)
              else (no_action e,
                    e\<lparr>promote_polls := (if can_promote e d then promote_polls e + 1 else 0),
                      demote_polls := 0\<rparr>))"

lemma promotion_check_total:
  assumes "engine_ok e"
  shows "promotion_check e d = Some
    (if can_promote e d
     then if promote_due e then (True, promoted_to_next e)
          else (False, no_action e, e\<lparr>promote_polls := promote_polls e + 1, demote_polls := 0\<rparr>)
     else (False, no_action e, e\<lparr>promote_polls := 0\<rparr>))"
proof (cases "tier_now e + 1 < int (length (configs e))")
  case True
  with assms have "0 \<le> tier_now e" "tier_now e < int (length (configs e))"
    by (simp_all add: engine_ok_def)
  with True promote_succ [OF assms True] show ?thesis
    by (auto simp: promotion_check_def can_promote_def promote_due_def promoted_to_next_def
        no_action_def promote_condition_def Let_def)
next
  case False
  with assms have "promote_polls e = 0" by (auto simp: engine_ok_def)
  then have "e\<lparr>promote_polls := 0\<rparr> = e" by simp
  with False show ?thesis
    by (simp add: promotion_check_def can_promote_def no_action_def Let_def)
qed

lemma demotion_check_total:
  assumes "engine_ok e" and "0 < tier_now e" and "configs e1 = configs e"
    and "demote_polls e1 = 0 \<or> demote_polls e1 = demote_polls e"
  shows "demotion_check (tier_now e) act e1 d = Some
    (if can_demote e d
     then if demote_due e (demote_polls e1)
          then (fst (demoted_to_previous e),
                e1\<lparr>current_tier := Tier (tier_now e - 1), promote_polls := 0, demote_polls := 0\<rparr>)
          else (act, e1\<lparr>promote_polls := 0, demote_polls := demote_polls e1 + 1\<rparr>)
     else (act, e1\<lparr>demote_polls := 0\<rparr>))"
proof -
  have "tier_now e < int (length (configs e))" using assms(1) by (simp add: engine_ok_def)
  moreover have "int_succ (demote_polls e1) = Some (demote_polls e1 + 1)"
    using assms(4) demote_succ [OF assms(1)] by auto
  ultimately show ?thesis
    using assms(2,3)
    by (auto simp: demotion_check_def can_demote_def demote_due_def demoted_to_previous_def)
qed

lemma evaluate_total: "engine_ok e \<Longrightarrow> evaluate e d = Some (step_total e d)"
proof (cases "0 < tier_now e")
  case True
  assume ok: "engine_ok e"
  show ?thesis
    using True by (auto simp: evaluate_def promotion_check_total [OF ok] step_total_def
        demotion_check_total [OF ok True] demoted_to_previous_def no_action_def Let_def split: prod.split)
next
  case False
  assume ok: "engine_ok e"
  with False have z: "demote_polls e = 0" "tier_now e = 0" by (auto simp: engine_ok_def)
  then have "e\<lparr>promote_polls := n, demote_polls := 0\<rparr> = e\<lparr>promote_polls := n\<rparr>" for n by simp
  with z show ?thesis
    by (auto simp: evaluate_def promotion_check_total [OF ok] step_total_def can_demote_def
        Let_def split: prod.split)
qed

lemma step_total_configs: "configs (snd (step_total e d)) = configs e"
  by (simp add: step_total_def promoted_to_next_def demoted_to_previous_def Let_def)

lemma step_total_ok: "engine_ok e \<Longrightarrow> engine_ok (snd (step_total e d))"
  by (auto simp: step_total_def engine_ok_def promoted_to_next_def demoted_to_previous_def
      can_promote_def can_demote_def promote_due_def demote_due_def Let_def)

lemma evaluate_ok:
  "engine_ok e \<Longrightarrow> \<exists>a e'. evaluate e d = Some (a, e') \<and> engine_ok e' \<and> configs e' = configs e"
  using evaluate_total [of e d] step_total_ok [of e d] step_total_configs [of e d]
  by (cases "step_total e d") auto

end
