(* ===== verification/Policy_Runs.thy ===== *)
theory Policy_Runs
  imports Policy_Engine
begin

text \<open>
  The policy engine over a whole sequence of samples: an interpretation of \<open>safe_machine\<close>
  and of \<open>simulation\<close> for it, the history behind the two debounce counters, and the
  properties of the engine, general ones for any configuration and those of the default one.
\<close>

definition engine_exec :: "psi_data \<Rightarrow> policy_engine \<Rightarrow> (policy_action \<times> policy_engine) option" where
  "engine_exec d e = evaluate e d"

definition engine_spec :: "psi_data \<Rightarrow> policy_engine \<Rightarrow> policy_action \<times> policy_engine" where
  "engine_spec d e = step_total e d"

definition same_ok :: "policy_engine \<Rightarrow> policy_engine \<Rightarrow> bool" where
  "same_ok e e' \<longleftrightarrow> e = e' \<and> engine_ok e"

interpretation engine: simulation engine_exec engine_spec same_ok "\<lambda>_. True"
  by unfold_locales (auto simp: engine_exec_def engine_spec_def same_ok_def evaluate_total
      step_total_ok intro!: exI prod_eqI)

interpretation engine_inv: safe_machine "\<lambda>e d. snd (step_total e d)" engine_ok "\<lambda>_. True"
  by unfold_locales (rule step_total_ok)

definition engine_after :: "policy_engine \<Rightarrow> psi_data list \<Rightarrow> policy_engine" where
  "engine_after e ds = run_machine (\<lambda>e d. snd (step_total e d)) e ds"

definition actions_of :: "policy_engine \<Rightarrow> psi_data list \<Rightarrow> policy_action list" where
  "actions_of e ds = fst (run_spec engine_spec ds e)"

lemma engine_after_simps [simp]:
  "engine_after e [] = e"
  "engine_after e (d # ds) = engine_after (snd (step_total e d)) ds"
  "engine_after e (ds @ ds') = engine_after (engine_after e ds) ds'"
  by (simp_all add: engine_after_def run_machine_append)

lemma actions_of_simps [simp]:
  "actions_of e [] = []"
  "actions_of e (d # ds) = fst (step_total e d) # actions_of (snd (step_total e d)) ds"
  by (simp_all add: actions_of_def engine_spec_def case_prod_beta Let_def)

lemma actions_of_append [simp]:
  "actions_of e (ds @ ds') = actions_of e ds @ actions_of (engine_after e ds) ds'"
  by (induction ds arbitrary: e) simp_all

lemma length_actions_of [simp]: "length (actions_of e ds) = length ds"
  by (induction ds arbitrary: e) simp_all

lemma run_spec_engine: "snd (run_spec engine_spec ds e) = engine_after e ds"
  by (induction ds arbitrary: e) (simp_all add: engine_spec_def case_prod_beta Let_def)

lemma stays_True [simp]: "stays (\<lambda>_. True) step is a"
  by (induction "is" arbitrary: a) simp_all

lemma engine_after_ok: "engine_ok e \<Longrightarrow> engine_ok (engine_after e ds)"
  unfolding engine_after_def by (rule engine_inv.run_inv) (simp_all add: list_all_iff)

lemma engine_after_configs [simp]: "configs (engine_after e ds) = configs e"
  by (induction ds arbitrary: e) (simp_all add: step_total_configs)

lemma engine_runs:
  "engine_ok e \<Longrightarrow> run_steps engine_exec ds e = Some (actions_of e ds, engine_after e ds)"
  using engine.run_sim [of e e ds] by (auto simp: same_ok_def run_spec_engine actions_of_def)

subsection \<open>What a step does\<close>

lemma step_total_cases:
  obtains (promote) "can_promote e d" "promote_due e" "step_total e d = promoted_to_next e"
  | (demote) "can_demote e d" "\<not> (can_promote e d \<and> promote_due e)"
      "demote_due e (if can_promote e d then 0 else demote_polls e)"
      "step_total e d = demoted_to_previous e"
  | (wait) "\<not> (can_promote e d \<and> promote_due e)"
      "step_total e d = (no_action e, e\<lparr>
         promote_polls := (if can_promote e d \<and> \<not> can_demote e d then promote_polls e + 1 else 0),
         demote_polls := (if can_demote e d then (if can_promote e d then 0 else demote_polls e) + 1 else 0)\<rparr>)"
  by (cases "can_promote e d"; cases "promote_due e"; cases "can_demote e d";
      cases "demote_due e (if can_promote e d then 0 else demote_polls e)")
    (auto simp: step_total_def Let_def)

lemma can_promote_cong:
  "current_tier e' = current_tier e \<Longrightarrow> configs e' = configs e \<Longrightarrow> can_promote e' = can_promote e"
  by (simp add: can_promote_def fun_eq_iff)

lemma can_demote_cong:
  "current_tier e' = current_tier e \<Longrightarrow> configs e' = configs e \<Longrightarrow> can_demote e' = can_demote e"
  by (simp add: can_demote_def fun_eq_iff)

subsection \<open>The history behind the counters\<close>

text \<open>\<open>streak P n ds\<close>: the last \<open>n\<close> elements of \<open>ds\<close> exist and satisfy \<open>P\<close>.\<close>

definition streak :: "('a \<Rightarrow> bool) \<Rightarrow> nat \<Rightarrow> 'a list \<Rightarrow> bool" where
  "streak P n ds \<longleftrightarrow> n \<le> length ds \<and> list_all P (drop (length ds - n) ds)"

lemma streak_zero [simp]: "streak P 0 ds"
  by (simp add: streak_def)

lemma streak_snoc: "streak P n ds \<Longrightarrow> P d \<Longrightarrow> streak P (Suc n) (ds @ [d])"
  by (simp add: streak_def)

lemma streak_mono: "streak P n ds \<Longrightarrow> m \<le> n \<Longrightarrow> streak P m ds"
proof -
  assume s: "streak P n ds" and "m \<le> n"
  then have "set (drop (length ds - m) ds) \<subseteq> set (drop (length ds - n) ds)"
    by (intro set_drop_subset_set_drop diff_le_mono2)
  with s \<open>m \<le> n\<close> show ?thesis by (auto simp: streak_def list_all_iff)
qed

definition counters_recorded :: "policy_engine \<Rightarrow> psi_data list \<Rightarrow> bool" where
  "counters_recorded e ds \<longleftrightarrow> streak (can_promote e) (nat (promote_polls e)) ds \<and>
     streak (can_demote e) (nat (demote_polls e)) ds"

lemma step_recorded:
  assumes "engine_ok e" and "counters_recorded e ds"
  shows "counters_recorded (snd (step_total e d)) (ds @ [d])"
proof (cases rule: step_total_cases [where e = e and d = d])
  case promote
  then show ?thesis by (simp add: counters_recorded_def promoted_to_next_def)
next
  case demote
  then show ?thesis by (simp add: counters_recorded_def demoted_to_previous_def)
next
  case wait
  let ?e = "snd (step_total e d)"
  have same: "can_promote ?e = can_promote e" "can_demote ?e = can_demote e"
    using wait by (auto intro!: can_promote_cong can_demote_cong)
  have nn: "0 \<le> promote_polls e" "0 \<le> demote_polls e" using assms(1) by (simp_all add: engine_ok_def)
  have one: "streak P (Suc 0) (ds @ [d])" if "P d" for P
    using streak_snoc [of P 0 ds d] that by simp
  have "streak (can_promote e) (nat (promote_polls ?e)) (ds @ [d])"
    using wait assms(2) nn by (auto simp: counters_recorded_def Suc_nat_eq_nat_zadd1 [symmetric]
        add.commute intro: streak_snoc)
  moreover have "streak (can_demote e) (nat (demote_polls ?e)) (ds @ [d])"
    using wait assms(2) nn one by (auto simp: counters_recorded_def Suc_nat_eq_nat_zadd1 [symmetric]
        add.commute intro: streak_snoc)
  ultimately show ?thesis by (simp add: counters_recorded_def same)
qed

lemma run_recorded:
  "engine_ok e \<Longrightarrow> promote_polls e = 0 \<Longrightarrow> demote_polls e = 0 \<Longrightarrow>
   counters_recorded (engine_after e ds) ds"
proof (induction ds rule: rev_induct)
  case Nil
  then show ?case by (simp add: counters_recorded_def)
next
  case (snoc d ds)
  then show ?case
    using step_recorded [OF engine_after_ok, of e ds ds d] by simp
qed

subsection \<open>Properties of every configuration\<close>

text \<open>
  C2: Whatever the configuration (its debounce counts being \<open>int\<close> values) and whatever the
  samples, \<open>evaluate\<close> never indexes \<open>configs_\<close> out of range and never overflows a counter;
  every sample gets an action and the engine's invariant holds at the end.
\<close>

theorem engine_never_fails:
  assumes "int_configs cs"
  shows "\<exists>acts e. run_steps engine_exec ds (engine_new cs) = Some (acts, e) \<and>
    length acts = length ds \<and> engine_ok e \<and> 0 \<le> tier_index (current_tier e) \<and>
    tier_index (current_tier e) < int (length (configs e))"
  using engine_runs [OF engine_new_ok [OF assms], of ds]
    engine_after_ok [OF engine_new_ok [OF assms], of ds]
  by (auto simp: engine_ok_def)

text \<open>A sample with the given short averages, for the witnesses.\<close>

definition sample :: "double \<Rightarrow> double \<Rightarrow> psi_data" where
  "sample a10 a60 = psi_default\<lparr>some_avg10 := a10, some_avg60 := a60\<rparr>"

lemma sample_simps [simp]: "some_avg10 (sample x y) = x" "some_avg60 (sample x y) = y"
  by (simp_all add: sample_def psi_default_def)

lemma int_configs_default: "int_configs default_configs"
  by (simp add: int_configs_def default_configs_def int_max_def)

theorem engine_never_fails_witness:
  "\<exists>acts e. run_steps engine_exec [sample (Finite 6) NaN, sample (Infinite False) (Finite 1)]
      (engine_new default_configs) = Some (acts, e) \<and> length acts = 2 \<and> engine_ok e"
  using engine_never_fails [OF int_configs_default,
      of "[sample (Finite 6) NaN, sample (Infinite False) (Finite 1)]"]
  by (auto simp del: run_steps.simps)

text \<open>
  One evaluation moves the tier by at most one. SHRINK is returned exactly when the tier
  goes up, with the new tier's fraction; GROW exactly when it goes down, with the fraction of
  the tier it leaves; otherwise the action is NONE with fraction zero. The action always
  carries the tier the engine is in afterwards.
\<close>

theorem engine_moves_one_tier:
  assumes "engine_ok e"
  shows "\<exists>a e'. evaluate e d = Some (a, e') \<and> action_tier a = current_tier e' \<and>
    (case action_kind a of
       ActNone \<Rightarrow> current_tier e' = current_tier e \<and> action_fraction a = Finite 0
     | ActShrink \<Rightarrow> tier_index (current_tier e') = tier_index (current_tier e) + 1 \<and>
         action_fraction a = shrink_pct (configs e ! nat (tier_index (current_tier e')))
     | ActGrow \<Rightarrow> tier_index (current_tier e') = tier_index (current_tier e) - 1 \<and>
         action_fraction a = shrink_pct (configs e ! nat (tier_index (current_tier e))))"
proof -
  note total = evaluate_total [OF assms, of d]
  show ?thesis
    by (cases rule: step_total_cases [where e = e and d = d])
      (simp_all add: total promoted_to_next_def demoted_to_previous_def no_action_def)
qed

theorem engine_moves_one_tier_witness:
  "\<exists>a e'. evaluate (engine_new []) (sample (Finite 6) (Finite 0)) = Some (a, e') \<and>
    action_tier a = current_tier e'"
proof -
  have "engine_ok (engine_new [])"
    by (rule engine_new_ok) (simp add: int_configs_def)
  from engine_moves_one_tier [OF this] show ?thesis by blast
qed

text \<open>
  C11: Debouncing. From a new engine with any configuration, an evaluation that promotes to a
  tier with debounce count \<open>n\<close> comes after \<open>n\<close> consecutive samples (this one included) that
  all met the promotion condition of the tier left, and one that demotes comes after as many
  consecutive samples below the demotion threshold of the tier left.
\<close>

theorem engine_debounce:
  assumes "int_configs cs"
    and "run_steps engine_exec ds (engine_new cs) = Some (acts, e)"
    and "evaluate e d = Some (a, e')"
  shows "(action_kind a = ActShrink \<longrightarrow>
      streak (can_promote e) (nat (debounce_polls (configs e ! nat (tier_index (current_tier e'))))) (ds @ [d])) \<and>
    (action_kind a = ActGrow \<longrightarrow>
      streak (can_demote e) (nat (debounce_polls (configs e ! nat (tier_index (current_tier e))))) (ds @ [d]))"
proof -
  note new = engine_new_ok [OF assms(1)]
  from engine_runs [OF new] assms(2) have e: "e = engine_after (engine_new cs) ds" by simp
  have ok: "engine_ok e" using engine_after_ok [OF new] e by simp
  have rec: "counters_recorded e ds"
    using run_recorded [OF new, of ds] e by (simp add: engine_new_def)
  have st: "step_total e d = (a, e')" using assms(3) evaluate_total [OF ok] by simp
  have nn: "0 \<le> promote_polls e" "0 \<le> demote_polls e" using ok by (simp_all add: engine_ok_def)
  show ?thesis
  proof (cases rule: step_total_cases [where e = e and d = d])
    case promote
    with rec have "streak (can_promote e) (Suc (nat (promote_polls e))) (ds @ [d])"
      by (auto simp: counters_recorded_def intro: streak_snoc)
    with promote st nn show ?thesis
      by (auto simp: promoted_to_next_def promote_due_def elim!: streak_mono)
  next
    case demote
    with rec have "streak (can_demote e) (Suc (nat (demote_polls e))) (ds @ [d])"
      by (auto simp: counters_recorded_def intro: streak_snoc)
    with demote st nn show ?thesis
      by (auto simp: demoted_to_previous_def demote_due_def elim!: streak_mono split: if_splits)
  next
    case wait
    with st show ?thesis by (auto simp: no_action_def)
  qed
qed

theorem engine_debounce_witness:
  "\<exists>acts e a e'.
    run_steps engine_exec [sample (Finite 6) (Finite 0), sample (Finite 6) (Finite 0)] (engine_new []) =
      Some (acts, e) \<and>
    evaluate e (sample (Finite 7) (Finite 0)) = Some (a, e') \<and> action_kind a = ActShrink \<and>
    streak (can_promote e) 3
      ([sample (Finite 6) (Finite 0), sample (Finite 6) (Finite 0)] @ [sample (Finite 7) (Finite 0)])"
proof -
  let ?ds = "[sample (Finite 6) (Finite 0), sample (Finite 6) (Finite 0)]"
  let ?none = "\<lparr>action_kind = ActNone, action_fraction = Finite 0, action_tier = NORMAL\<rparr>"
  let ?e = "(engine_new [])\<lparr>promote_polls := 2\<rparr>"
  let ?a = "\<lparr>action_kind = ActShrink, action_fraction = to_double (1 / 10), action_tier = ELEVATED\<rparr>"
  let ?e' = "(engine_new [])\<lparr>current_tier := ELEVATED\<rparr>"
  have run: "run_steps engine_exec ?ds (engine_new []) = Some ([?none, ?none], ?e)"
    and ev: "evaluate ?e (sample (Finite 7) (Finite 0)) = Some (?a, ?e')"
    by (simp_all add: engine_exec_def evaluate_def promotion_check_def engine_new_def
        default_configs_def config_at_def promote_condition_def int_succ_def int_max_def Let_def)
  have "int_configs []" by (simp add: int_configs_def)
  from engine_debounce [OF this run ev] have "streak (can_promote ?e) 3 (?ds @ [sample (Finite 7) (Finite 0)])"
    by (simp add: engine_new_def default_configs_def)
  with run ev show ?thesis by (intro exI conjI) (assumption, assumption, simp, assumption)
qed

subsection \<open>Properties of the default configuration\<close>

definition default_engine :: "policy_engine \<Rightarrow> bool" where
  "default_engine e \<longleftrightarrow> engine_ok e \<and> configs e = default_configs"

lemma default_engine_run: "default_engine (engine_after (engine_new []) ds)"
  by (simp add: default_engine_def engine_after_ok engine_new_ok int_configs_def)
    (simp add: engine_new_def)

lemma default_engine_step: "default_engine e \<Longrightarrow> default_engine (snd (step_total e d))"
  by (simp add: default_engine_def step_total_ok step_total_configs)

lemma default_engine_after: "default_engine e \<Longrightarrow> default_engine (engine_after e ds)"
  by (simp add: default_engine_def engine_after_ok)

lemma default_tier:
  assumes "default_engine e"
  obtains "current_tier e = NORMAL" | "current_tier e = ELEVATED" | "current_tier e = HIGH" | "current_tier e = CRITICAL"
proof -
  obtain i where i: "current_tier e = Tier i" by (cases "current_tier e")
  with assms have "0 \<le> i" "i < 4" by (auto simp: default_engine_def engine_ok_def default_configs_def)
  then have "i = 0 \<or> i = 1 \<or> i = 2 \<or> i = 3" by linarith
  with i that show ?thesis by auto
qed

lemma default_engine_configs: "default_engine e \<Longrightarrow> configs e = default_configs"
  by (simp add: default_engine_def)

lemma default_counters:
  assumes "default_engine e"
  shows "0 \<le> promote_polls e" "0 \<le> demote_polls e"
    "current_tier e = NORMAL \<Longrightarrow> promote_polls e < 3 \<and> demote_polls e = 0"
    "current_tier e = ELEVATED \<Longrightarrow> promote_polls e < 3 \<and> demote_polls e < 3"
    "current_tier e = HIGH \<Longrightarrow> promote_polls e < 2 \<and> demote_polls e < 3"
    "current_tier e = CRITICAL \<Longrightarrow> promote_polls e = 0 \<and> demote_polls e < 2"
  using assms by (auto simp: default_engine_def engine_ok_def default_configs_def)

lemmas step_defs = step_total_def can_promote_def can_demote_def promote_due_def demote_due_def
  promoted_to_next_def demoted_to_previous_def no_action_def promote_condition_def Let_def

text \<open>Samples that ask for escalation, and samples that ask for recovery, at every tier.\<close>

definition critical_sample :: "psi_data \<Rightarrow> bool" where
  "critical_sample d \<longleftrightarrow> Finite 30 \<le> some_avg10 d"

definition calm_sample :: "psi_data \<Rightarrow> bool" where
  "calm_sample d \<longleftrightarrow> some_avg10 d < Finite 2 \<and> \<not> Finite 15 \<le> some_avg60 d"

lemma critical_sampleD:
  assumes "critical_sample d"
  shows "Finite 5 \<le> some_avg10 d" "Finite 15 \<le> some_avg10 d" "Finite 30 \<le> some_avg10 d"
    "\<not> some_avg10 d < Finite 2" "\<not> some_avg10 d < Finite 8" "\<not> some_avg10 d < Finite 15"
  using assms unfolding critical_sample_def by (cases "some_avg10 d"; auto)+

lemma calm_sampleD:
  assumes "calm_sample d"
  shows "some_avg10 d < Finite 2" "some_avg10 d < Finite 8" "some_avg10 d < Finite 15"
    "\<not> Finite 5 \<le> some_avg10 d" "\<not> Finite 15 \<le> some_avg10 d" "\<not> Finite 30 \<le> some_avg10 d"
    "\<not> Finite 15 \<le> some_avg60 d"
  using assms unfolding calm_sample_def by (cases "some_avg10 d"; auto)+

text \<open>How many such samples are still needed.\<close>

definition to_critical :: "policy_engine \<Rightarrow> int" where
  "to_critical e = (if current_tier e = NORMAL then 8 - promote_polls e
     else if current_tier e = ELEVATED then 5 - promote_polls e
     else if current_tier e = HIGH then 2 - promote_polls e else 0)"

definition to_normal :: "policy_engine \<Rightarrow> int" where
  "to_normal e = (if current_tier e = CRITICAL then 8 - demote_polls e
     else if current_tier e = HIGH then 6 - demote_polls e
     else if current_tier e = ELEVATED then 3 - demote_polls e else 0)"

lemma critical_step:
  assumes "default_engine e" and "critical_sample d"
  shows "to_critical (snd (step_total e d)) = max 0 (to_critical e - 1)"
  using assms(1) critical_sampleD [OF assms(2)]
    default_counters [OF assms(1)] default_engine_configs [OF assms(1)]
  by (cases e rule: default_tier) (auto simp: to_critical_def step_defs default_configs_def)

lemma calm_step:
  assumes "default_engine e" and "calm_sample d"
  shows "to_normal (snd (step_total e d)) = max 0 (to_normal e - 1)"
  using assms(1) calm_sampleD [OF assms(2)]
    default_counters [OF assms(1)] default_engine_configs [OF assms(1)]
  by (cases e rule: default_tier) (auto simp: to_normal_def step_defs default_configs_def)

lemma to_critical_zero:
  assumes "default_engine e"
  shows "to_critical e \<le> 0 \<longleftrightarrow> current_tier e = CRITICAL"
  using assms default_counters [OF assms] by (cases e rule: default_tier) (auto simp: to_critical_def)

lemma to_normal_zero:
  assumes "default_engine e"
  shows "to_normal e \<le> 0 \<longleftrightarrow> current_tier e = NORMAL"
  using assms default_counters [OF assms] by (cases e rule: default_tier) (auto simp: to_normal_def)

lemma critical_run:
  "default_engine e \<Longrightarrow> list_all critical_sample ds \<Longrightarrow>
   to_critical (engine_after e ds) = (if ds = [] then to_critical e else max 0 (to_critical e - int (length ds)))"
proof (induction ds arbitrary: e)
  case (Cons d ds)
  then show ?case
    using critical_step [of e d] Cons.IH [OF default_engine_step, of e d] by auto
qed simp

lemma calm_run:
  "default_engine e \<Longrightarrow> list_all calm_sample ds \<Longrightarrow>
   to_normal (engine_after e ds) = (if ds = [] then to_normal e else max 0 (to_normal e - int (length ds)))"
proof (induction ds arbitrary: e)
  case (Cons d ds)
  then show ?case
    using calm_step [of e d] Cons.IH [OF default_engine_step, of e d] by auto
qed simp

text \<open>
  C23: Escalation. Whatever happened before, eight consecutive samples with \<open>avg10\<close> at or
  above the CRITICAL threshold bring a default engine to CRITICAL, where further ones keep it.
\<close>

theorem engine_escalates:
  assumes "8 \<le> length hs" and "list_all critical_sample hs"
  shows "\<exists>acts e. run_steps engine_exec (ds @ hs) (engine_new []) = Some (acts, e) \<and>
    current_tier e = CRITICAL"
proof -
  let ?e = "engine_after (engine_new []) ds"
  note d = default_engine_run [of ds]
  have "to_critical ?e \<le> 8"
    using default_counters [OF d] by (simp add: to_critical_def)
  with critical_run [OF d assms(2)] assms(1) have "to_critical (engine_after ?e hs) \<le> 0" by auto
  then have "current_tier (engine_after ?e hs) = CRITICAL"
    using to_critical_zero [OF default_engine_after [OF d]] by simp
  with engine_runs [OF engine_new_ok, of "[]" "ds @ hs"] show ?thesis
    by (simp add: int_configs_def)
qed

theorem engine_escalates_witness:
  "\<exists>acts e. run_steps engine_exec ([sample (Finite 1) (Finite 1)] @ replicate 8 (sample (Finite 31) (Finite 1)))
      (engine_new []) = Some (acts, e) \<and> current_tier e = CRITICAL"
  by (rule engine_escalates) (simp_all add: critical_sample_def list_all_length)

text \<open>
  C24: Recovery. Whatever happened before, eight consecutive samples with \<open>avg10\<close> below 2 and
  \<open>avg60\<close> below 15 bring a default engine back to NORMAL, where further ones keep it.
\<close>

theorem engine_recovers:
  assumes "8 \<le> length ls" and "list_all calm_sample ls"
  shows "\<exists>acts e. run_steps engine_exec (ds @ ls) (engine_new []) = Some (acts, e) \<and>
    current_tier e = NORMAL"
proof -
  let ?e = "engine_after (engine_new []) ds"
  note d = default_engine_run [of ds]
  have "to_normal ?e \<le> 8"
    using default_counters [OF d] by (simp add: to_normal_def)
  with calm_run [OF d assms(2)] assms(1) have "to_normal (engine_after ?e ls) \<le> 0" by auto
  then have "current_tier (engine_after ?e ls) = NORMAL"
    using to_normal_zero [OF default_engine_after [OF d]] by simp
  with engine_runs [OF engine_new_ok, of "[]" "ds @ ls"] show ?thesis
    by (simp add: int_configs_def)
qed

theorem engine_recovers_witness:
  "\<exists>acts e. run_steps engine_exec
      (replicate 9 (sample (Finite 31) (Finite 20)) @ replicate 8 (sample (Finite 1) (Finite 14)))
      (engine_new []) = Some (acts, e) \<and> current_tier e = NORMAL"
  by (rule engine_recovers) (simp_all add: calm_sample_def list_all_length)

definition hovering_sample :: "psi_data \<Rightarrow> bool" where
  "hovering_sample d \<longleftrightarrow> Finite 8 \<le> some_avg10 d \<and> some_avg10 d < Finite 15 \<and>
     Finite 15 \<le> some_avg60 d"

definition high_engine :: policy_engine where
  "high_engine = \<lparr>configs = default_configs, current_tier = HIGH, promote_polls = 0, demote_polls = 0\<rparr>"

definition flap_cycle :: "policy_action list" where
  "flap_cycle =
    [\<lparr>action_kind = ActNone, action_fraction = Finite 0, action_tier = HIGH\<rparr>,
     \<lparr>action_kind = ActShrink, action_fraction = Finite (1 / 2), action_tier = CRITICAL\<rparr>,
     \<lparr>action_kind = ActNone, action_fraction = Finite 0, action_tier = CRITICAL\<rparr>,
     \<lparr>action_kind = ActGrow, action_fraction = Finite (1 / 2), action_tier = HIGH\<rparr>]"

lemma high_engine_ok: "engine_ok high_engine"
  by (simp add: high_engine_def engine_ok_def default_configs_def int_configs_def int_max_def)

lemma hover_step_high:
  assumes "hovering_sample d"
  shows "step_total (high_engine\<lparr>promote_polls := 0\<rparr>) d =
      (no_action high_engine, high_engine\<lparr>promote_polls := 1\<rparr>)"
    and "step_total (high_engine\<lparr>promote_polls := 1\<rparr>) d =
      (\<lparr>action_kind = ActShrink, action_fraction = Finite (1 / 2), action_tier = CRITICAL\<rparr>,
       high_engine\<lparr>current_tier := CRITICAL\<rparr>)"
    and "step_total (high_engine\<lparr>current_tier := CRITICAL\<rparr>) d =
      (no_action (high_engine\<lparr>current_tier := CRITICAL\<rparr>),
       high_engine\<lparr>current_tier := CRITICAL, demote_polls := 1\<rparr>)"
    and "step_total (high_engine\<lparr>current_tier := CRITICAL, demote_polls := 1\<rparr>) d =
      (\<lparr>action_kind = ActGrow, action_fraction = Finite (1 / 2), action_tier = HIGH\<rparr>, high_engine)"
proof -
  have "\<not> some_avg10 d < Finite 8" "\<not> Finite 30 \<le> some_avg10 d"
    using assms unfolding hovering_sample_def by (cases "some_avg10 d"; auto)+
  with assms show
    "step_total (high_engine\<lparr>promote_polls := 0\<rparr>) d =
      (no_action high_engine, high_engine\<lparr>promote_polls := 1\<rparr>)"
    "step_total (high_engine\<lparr>promote_polls := 1\<rparr>) d =
      (\<lparr>action_kind = ActShrink, action_fraction = Finite (1 / 2), action_tier = CRITICAL\<rparr>,
       high_engine\<lparr>current_tier := CRITICAL\<rparr>)"
    "step_total (high_engine\<lparr>current_tier := CRITICAL\<rparr>) d =
      (no_action (high_engine\<lparr>current_tier := CRITICAL\<rparr>),
       high_engine\<lparr>current_tier := CRITICAL, demote_polls := 1\<rparr>)"
    "step_total (high_engine\<lparr>current_tier := CRITICAL, demote_polls := 1\<rparr>) d =
      (\<lparr>action_kind = ActGrow, action_fraction = Finite (1 / 2), action_tier = HIGH\<rparr>, high_engine)"
    by (simp_all add: hovering_sample_def high_engine_def step_defs default_configs_def)
qed

lemma hover_cycle:
  assumes "list_all hovering_sample [a, b, c, d]"
  shows "actions_of high_engine [a, b, c, d] = flap_cycle" "engine_after high_engine [a, b, c, d] = high_engine"
proof -
  have "high_engine = high_engine\<lparr>promote_polls := 0\<rparr>" by (simp add: high_engine_def)
  with assms hover_step_high [of a] hover_step_high [of b] hover_step_high [of c] hover_step_high [of d]
  show "actions_of high_engine [a, b, c, d] = flap_cycle"
    "engine_after high_engine [a, b, c, d] = high_engine"
    by (simp_all add: flap_cycle_def no_action_def high_engine_def)
qed

lemma hover_run:
  "list_all hovering_sample ds \<Longrightarrow> length ds = 4 * n \<Longrightarrow>
   actions_of high_engine ds = concat (replicate n flap_cycle) \<and> engine_after high_engine ds = high_engine"
proof (induction n arbitrary: ds)
  case 0
  then show ?case by simp
next
  case (Suc n)
  then have "length ds = Suc (Suc (Suc (Suc (4 * n))))" by simp
  then obtain a b c d ds' where ds: "ds = [a, b, c, d] @ ds'"
    by (auto simp: length_Suc_conv)
  with Suc.prems have hd: "list_all hovering_sample [a, b, c, d]" and tl: "list_all hovering_sample ds'"
    "length ds' = 4 * n" by simp_all
  note hc = hover_cycle [OF hd] and ih = Suc.IH [OF tl]
  have "actions_of high_engine ds = flap_cycle @ actions_of high_engine ds'"
    unfolding ds actions_of_append hc ..
  moreover have "engine_after high_engine ds = engine_after high_engine ds'"
    unfolding ds engine_after_simps(3) hc ..
  ultimately show ?case using ih by simp
qed

text \<open>
  C25: The \<open>avg60\<close> trigger defeats the hysteresis. While \<open>avg10\<close> stays between 8 and 15 and
  \<open>avg60\<close> is at 15 or more, the default engine does not settle: from HIGH it alternates
  forever between CRITICAL (with a SHRINK by one half) and HIGH (with a GROW by one half), one
  full cycle every four samples.
\<close>

theorem engine_flaps_on_avg60:
  assumes "list_all hovering_sample ds" and "length ds = 4 * n"
  shows "run_steps engine_exec ds high_engine = Some (concat (replicate n flap_cycle), high_engine)"
  using hover_run [OF assms] engine_runs [OF high_engine_ok, of ds] by simp

theorem engine_flaps_on_avg60_witness:
  "run_steps engine_exec (replicate 8 (sample (Finite 10) (Finite 20))) high_engine =
     Some (flap_cycle @ flap_cycle, high_engine)"
  using engine_flaps_on_avg60 [of "replicate 8 (sample (Finite 10) (Finite 20))" 2]
  by (simp add: list_all_length hovering_sample_def numeral_2_eq_2)

definition lingering_sample :: "psi_data \<Rightarrow> bool" where
  "lingering_sample d \<longleftrightarrow> some_avg10 d < Finite 8 \<and> Finite 15 \<le> some_avg60 d"

lemma lingering_step:
  assumes "default_engine e" and "current_tier e = HIGH" and "promote_polls e = 0" and "lingering_sample d"
  shows "step_total e d = (no_action e, e\<lparr>promote_polls := 0, demote_polls := 1\<rparr>)"
  using assms default_engine_configs [OF assms(1)]
  by (simp add: lingering_sample_def step_defs default_configs_def)

lemma lingering_run:
  "default_engine e \<Longrightarrow> current_tier e = HIGH \<Longrightarrow> promote_polls e = 0 \<Longrightarrow> list_all lingering_sample ds \<Longrightarrow>
   current_tier (engine_after e ds) = HIGH \<and> list_all (\<lambda>a. action_kind a = ActNone) (actions_of e ds)"
proof (induction ds arbitrary: e)
  case (Cons d ds)
  then show ?case
    using lingering_step [of e d] default_engine_step [of e d] Cons.IH [of "snd (step_total e d)"]
    by (simp add: no_action_def)
qed simp

text \<open>
  C26: The same trigger can hold the engine at HIGH for good. While \<open>avg10\<close> is below the
  demotion threshold 8 but \<open>avg60\<close> is still at 15 or more, each sample clears the counter the
  previous one advanced: no sequence of such samples, however long, changes the tier or
  produces an action.
\<close>

theorem engine_stuck_at_high:
  assumes "list_all lingering_sample ds"
  shows "\<exists>acts e. run_steps engine_exec ds high_engine = Some (acts, e) \<and>
    current_tier e = HIGH \<and> list_all (\<lambda>a. action_kind a = ActNone) acts"
proof -
  have "default_engine high_engine" by (simp add: default_engine_def high_engine_ok) (simp add: high_engine_def)
  from lingering_run [OF this _ _ assms] engine_runs [OF high_engine_ok, of ds] show ?thesis
    by (simp add: high_engine_def)
qed

theorem engine_stuck_at_high_witness:
  "\<exists>acts e. run_steps engine_exec (replicate 5 (sample (Finite 0) (Finite 16))) high_engine = Some (acts, e) \<and>
    current_tier e = HIGH \<and> list_all (\<lambda>a. action_kind a = ActNone) acts"
  by (rule engine_stuck_at_high) (simp add: list_all_length lingering_sample_def)

text \<open>
  A sample whose averages are NaN (which \<open>stod\<close> accepts) can neither promote nor demote:
  the engine keeps its tier and both counters restart.
\<close>

theorem engine_ignores_nan:
  assumes "engine_ok e" and "some_avg10 d = NaN" and "some_avg60 d = NaN"
  shows "evaluate e d = Some (\<lparr>action_kind = ActNone, action_fraction = Finite 0,
    action_tier = current_tier e\<rparr>, e\<lparr>promote_polls := 0, demote_polls := 0\<rparr>)"
  using assms evaluate_total [OF assms(1), of d]
  by (simp add: step_total_def can_promote_def can_demote_def promote_condition_def no_action_def)

theorem engine_ignores_nan_witness:
  "evaluate (high_engine\<lparr>promote_polls := 1\<rparr>) (sample NaN NaN) =
     Some (\<lparr>action_kind = ActNone, action_fraction = Finite 0, action_tier = HIGH\<rparr>, high_engine)"
proof -
  have "engine_ok (high_engine\<lparr>promote_polls := 1\<rparr>)"
    by (simp add: high_engine_def engine_ok_def default_configs_def int_configs_def int_max_def)
  from engine_ignores_nan [OF this, of "sample NaN NaN"] show ?thesis
    by (simp add: high_engine_def)
qed

end
