(* ===== verification/Cpp_Strings.thy ===== *)
theory Cpp_Strings
  imports Doubles
begin

text \<open>
  The parts of the C++ library on strings that the program uses, on byte strings and in the
  \<open>"C"\<close> locale: searching in \<open>std::string\<close>, \<open>std::stoi\<close>, \<open>std::stoull\<close>, \<open>std::stod\<close> with the
  exceptions they throw, stream output of integers, \<open>std::getline\<close> and \<open>operator>>\<close>.
  \<open>npos\<close> is \<open>None\<close>.
\<close>

subsection \<open>Characters\<close>

definition char_code :: "char \<Rightarrow> nat" where
  "char_code c = of_char c"

definition is_space :: "char \<Rightarrow> bool" where
  "is_space c \<longleftrightarrow> char_code c = 32 \<or> 9 \<le> char_code c \<and> char_code c \<le> 13"

definition is_digit :: "char \<Rightarrow> bool" where
  "is_digit c \<longleftrightarrow> 48 \<le> char_code c \<and> char_code c \<le> 57"

definition is_xdigit :: "char \<Rightarrow> bool" where
  "is_xdigit c \<longleftrightarrow> is_digit c \<or> 65 \<le> char_code c \<and> char_code c \<le> 70 \<or>
     97 \<le> char_code c \<and> char_code c \<le> 102"

text \<open>The value of a decimal or hexadecimal digit.\<close>

definition digit_val :: "char \<Rightarrow> nat" where
  "digit_val c = (if is_digit c then char_code c - 48
     else if char_code c \<le> 70 then char_code c - 55 else char_code c - 87)"

definition to_lower :: "char \<Rightarrow> char" where
  "to_lower c = (if 65 \<le> char_code c \<and> char_code c \<le> 90 then char_of (char_code c + 32) else c)"

subsection \<open>Searching\<close>

definition starts_with :: "string \<Rightarrow> string \<Rightarrow> bool" where
  "starts_with nd s \<longleftrightarrow> take (length nd) s = nd"

fun find_at :: "string \<Rightarrow> string \<Rightarrow> nat \<Rightarrow> nat option" where
  "find_at nd [] i = (if nd = [] then Some i else None)"
| "find_at nd (c # cs) i = (if starts_with nd (c # cs) then Some i else find_at nd cs (Suc i))"

text \<open>\<open>s.find(nd, pos)\<close>\<close>

definition str_find :: "string \<Rightarrow> nat \<Rightarrow> string \<Rightarrow> nat option" where
  "str_find nd pos s = (if pos \<le> length s then find_at nd (drop pos s) pos else None)"

fun index_of :: "(char \<Rightarrow> bool) \<Rightarrow> string \<Rightarrow> nat \<Rightarrow> nat option" where
  "index_of P [] i = None"
| "index_of P (c # cs) i = (if P c then Some i else index_of P cs (Suc i))"

definition str_find_first_of :: "string \<Rightarrow> nat \<Rightarrow> string \<Rightarrow> nat option" where
  "str_find_first_of cs pos s = index_of (\<lambda>c. c \<in> set cs) (drop pos s) pos"

definition str_find_first_not_of :: "string \<Rightarrow> nat \<Rightarrow> string \<Rightarrow> nat option" where
  "str_find_first_not_of cs pos s = index_of (\<lambda>c. c \<notin> set cs) (drop pos s) pos"

text \<open>\<open>s.substr(pos, n)\<close> for \<open>pos <= s.size()\<close>, which holds at every call.\<close>

definition str_substr :: "nat \<Rightarrow> nat \<Rightarrow> string \<Rightarrow> string" where
  "str_substr pos n s = take n (drop pos s)"

subsection \<open>Reading integers\<close>

definition take_sign :: "string \<Rightarrow> bool \<times> string" where
  "take_sign s = (case s of [] \<Rightarrow> (False, [])
     | c # cs \<Rightarrow> if c = CHR ''-'' then (True, cs) else if c = CHR ''+'' then (False, cs) else (False, s))"

definition digits_value :: "nat \<Rightarrow> string \<Rightarrow> nat" where
  "digits_value b s = foldl (\<lambda>n c. b * n + digit_val c) 0 s"

definition stoi :: "string \<Rightarrow> cpp_exception + int" where
  "stoi s =
     (let (neg, t) = take_sign (dropWhile is_space s); ds = takeWhile is_digit t;
          v = (if neg then - int (digits_value 10 ds) else int (digits_value 10 ds))
      in if ds = [] then Inl InvalidArgument
         else if v < - 2147483648 \<or> 2147483647 < v then Inl OutOfRange
         else Inr v)"

text \<open>\<open>strtoull\<close> accepts a minus sign and negates in the result type.\<close>

definition stoull :: "string \<Rightarrow> cpp_exception + u64" where
  "stoull s =
     (let (neg, t) = take_sign (dropWhile is_space s); ds = takeWhile is_digit t;
          n = digits_value 10 ds
      in if ds = [] then Inl InvalidArgument
         else if 2 ^ 64 \<le> n then Inl OutOfRange
         else Inr (if neg then - of_nat n else of_nat n))"

subsection \<open>Reading doubles\<close>

text \<open>Digits, an optional point and more digits: the integral part, the fraction, the rest.\<close>

definition read_mantissa :: "(char \<Rightarrow> bool) \<Rightarrow> string \<Rightarrow> string \<times> string \<times> string" where
  "read_mantissa dig s =
     (let i = takeWhile dig s; r = dropWhile dig s
      in case r of [] \<Rightarrow> (i, [], [])
         | c # cs \<Rightarrow> if c = CHR ''.'' then (i, takeWhile dig cs, dropWhile dig cs) else (i, [], r))"

definition read_exponent :: "char \<Rightarrow> string \<Rightarrow> int" where
  "read_exponent mark s = (case s of [] \<Rightarrow> 0
     | c # cs \<Rightarrow> if to_lower c = mark
         then let (neg, t) = take_sign cs; n = int (digits_value 10 (takeWhile is_digit t))
              in if neg then - n else n
         else 0)"

definition mantissa_value :: "nat \<Rightarrow> string \<Rightarrow> string \<Rightarrow> rat" where
  "mantissa_value b i f = of_nat (digits_value b (i @ f)) / of_nat b ^ length f"

datatype float_text = NotANumber | InfText | NanText | Number rat

definition starts_hex :: "string \<Rightarrow> bool" where
  "starts_hex s \<longleftrightarrow> starts_with ''0x'' (map to_lower s) \<and>
     (let (i, f, r) = read_mantissa is_xdigit (drop 2 s) in i \<noteq> [] \<or> f \<noteq> [])"

definition read_unsigned_float :: "string \<Rightarrow> float_text" where
  "read_unsigned_float s =
     (if starts_with ''inf'' (map to_lower s) then InfText
      else if starts_with ''nan'' (map to_lower s) then NanText
      else if starts_hex s
      then let (i, f, r) = read_mantissa is_xdigit (drop 2 s)
           in Number (mantissa_value 16 i f * 2 powi read_exponent (CHR ''p'') r)
      else let (i, f, r) = read_mantissa is_digit s
           in if i = [] \<and> f = [] then NotANumber
              else Number (mantissa_value 10 i f * 10 powi read_exponent (CHR ''e'') r))"

text \<open>\<open>stod\<close> throws \<open>out_of_range\<close> on overflow, and (as glibc reports it) when a nonzero
  value lands inexactly among the subnormal numbers or zero.\<close>

definition underflows :: "rat \<Rightarrow> bool" where
  "underflows x \<longleftrightarrow> x \<noteq> 0 \<and> \<bar>rnd x\<bar> < 2 powi - 1022 \<and> rnd x \<noteq> x"

definition stod :: "string \<Rightarrow> cpp_exception + double" where
  "stod s =
     (let (neg, t) = take_sign (dropWhile is_space s)
      in case read_unsigned_float t of
           NotANumber \<Rightarrow> Inl InvalidArgument
         | InfText \<Rightarrow> Inr (Infinite neg)
         | NanText \<Rightarrow> Inr NaN
         | Number q \<Rightarrow>
             (let x = (if neg then - q else q)
              in case to_double x of
                   Finite r \<Rightarrow> if underflows x then Inl OutOfRange else Inr (Finite r)
                 | _ \<Rightarrow> Inl OutOfRange))"

subsection \<open>Writing integers\<close>

definition digit_char :: "nat \<Rightarrow> char" where
  "digit_char n = char_of (n + 48)"

fun nat_str :: "nat \<Rightarrow> string" where
  "nat_str n = (if n < 10 then [digit_char n] else nat_str (n div 10) @ [digit_char (n mod 10)])"

declare nat_str.simps [simp del]

definition int_str :: "int \<Rightarrow> string" where
  "int_str i = (if i < 0 then CHR ''-'' # nat_str (nat (- i)) else nat_str (nat i))"

subsection \<open>Streams\<close>

text \<open>The lines \<open>std::getline\<close> delivers until it fails.\<close>

function getlines :: "string \<Rightarrow> string list" where
  "getlines [] = []"
| "getlines (c # cs) =
     takeWhile (\<lambda>x. x \<noteq> CHR ''\<newline>'') (c # cs) #
       getlines (drop 1 (dropWhile (\<lambda>x. x \<noteq> CHR ''\<newline>'') (c # cs)))"
  by pat_completeness auto
termination
  by (relation "measure length")
    (auto simp: less_Suc_eq_le intro: le_trans [OF diff_le_self] length_dropWhile_le)

text \<open>The words \<open>operator>>\<close> delivers until it fails.\<close>

function read_words :: "string \<Rightarrow> string list" where
  "read_words s =
     (let t = dropWhile is_space s
      in if t = [] then []
         else takeWhile (\<lambda>c. \<not> is_space c) t # read_words (dropWhile (\<lambda>c. \<not> is_space c) t))"
  by pat_completeness auto
termination
proof (relation "measure length", simp, clarsimp)
  fix s :: string and x
  assume "x \<in> set s" "\<not> is_space x"
  then obtain c cs where t: "dropWhile is_space s = c # cs" "\<not> is_space c"
    by (cases "dropWhile is_space s") (auto simp: dropWhile_eq_Nil_conv dest: dropWhile_eq_Cons_conv [THEN iffD1])
  then have "length (dropWhile (\<lambda>c. \<not> is_space c) (dropWhile is_space s)) \<le> length cs"
    by (simp add: length_dropWhile_le)
  moreover have "length (c # cs) \<le> length s"
    using length_dropWhile_le [of is_space s] t(1) by simp
  ultimately show "length (dropWhile (\<lambda>c. \<not> is_space c) (dropWhile is_space s)) < length s"
    by simp
qed

declare read_words.simps [simp del]

subsection \<open>Matching a prefix\<close>

lemma starts_with_simps [simp]:
  "starts_with [] s"
  "\<not> starts_with (a # as) []"
  "starts_with (a # as) (b # bs) \<longleftrightarrow> a = b \<and> starts_with as bs"
  by (auto simp: starts_with_def)

subsection \<open>Decimal text of integers\<close>

lemma char_code_digit: "n < 10 \<Longrightarrow> char_code (digit_char n) = n + 48"
  by (simp add: char_code_def digit_char_def)

lemma digit_char_props [simp]:
  "n < 10 \<Longrightarrow> is_digit (digit_char n)"
  "n < 10 \<Longrightarrow> digit_val (digit_char n) = n"
  by (simp_all add: is_digit_def digit_val_def char_code_digit)

lemma nat_str_digits: "list_all is_digit (nat_str n)"
proof (induction n rule: nat_str.induct)
  case (1 n)
  then show ?case by (subst nat_str.simps) simp
qed

lemma nat_str_nonempty [simp]: "nat_str n \<noteq> []"
  by (subst nat_str.simps) simp

lemma digits_value_snoc [simp]: "digits_value b (s @ [c]) = b * digits_value b s + digit_val c"
  by (simp add: digits_value_def)

lemma digits_value_nat_str: "digits_value 10 (nat_str n) = n"
proof (induction n rule: nat_str.induct)
  case (1 n)
  show ?case
  proof (cases "n < 10")
    case True
    then show ?thesis by (subst nat_str.simps) (simp add: digits_value_def)
  next
    case False
    with 1 show ?thesis by (subst nat_str.simps) simp
  qed
qed

lemma digit_not_space: "is_digit c \<Longrightarrow> \<not> is_space c"
  by (simp add: is_digit_def is_space_def)

lemma nat_str_Cons: obtains c cs where "nat_str n = c # cs" "is_digit c"
  using nat_str_digits [of n] by (cases "nat_str n") auto

lemma digit_not_sign: "is_digit c \<Longrightarrow> c \<noteq> CHR ''-'' \<and> c \<noteq> CHR ''+''"
  by (auto simp: is_digit_def char_code_def)

lemma not_space_minus: "\<not> is_space (CHR ''-'')"
  by (simp add: is_space_def char_code_def)

lemma takeWhile_nat_str:
  "(\<And>c cs. r = c # cs \<Longrightarrow> \<not> is_digit c) \<Longrightarrow> takeWhile is_digit (nat_str n @ r) = nat_str n"
  using nat_str_digits [of n] by (cases r) (simp_all add: takeWhile_append2 list_all_iff)

lemma sign_nat_str [simp]: "take_sign (nat_str n @ r) = (False, nat_str n @ r)"
proof -
  obtain c cs where "nat_str n = c # cs" "is_digit c" by (rule nat_str_Cons)
  then show ?thesis using digit_not_sign [of c] by (simp add: take_sign_def)
qed

lemma skip_nat_str [simp]: "dropWhile is_space (nat_str n @ r) = nat_str n @ r"
proof -
  obtain c cs where "nat_str n = c # cs" "is_digit c" by (rule nat_str_Cons)
  then show ?thesis using digit_not_space [of c] by simp
qed

lemma stoull_nat_str:
  assumes "n < 2 ^ 64" and "\<And>c cs. r = c # cs \<Longrightarrow> \<not> is_digit c"
  shows "stoull (nat_str n @ r) = Inr (of_nat n)"
  using assms by (simp add: stoull_def takeWhile_nat_str digits_value_nat_str)

lemma stoi_int_str:
  assumes "- 2147483648 \<le> i" and "i \<le> 2147483647" and "\<And>c cs. r = c # cs \<Longrightarrow> \<not> is_digit c"
  shows "stoi (int_str i @ r) = Inr i"
  using assms
  by (auto simp: stoi_def int_str_def takeWhile_nat_str digits_value_nat_str not_space_minus
      take_sign_def [of "CHR ''-'' # _"])

text \<open>Characters that never occur in the text of an integer.\<close>

lemma int_str_chars: "list_all (\<lambda>c. is_digit c \<or> c = CHR ''-'') (int_str i)"
  using nat_str_digits [of "nat i"] nat_str_digits [of "nat (- i)"]
  by (auto simp: int_str_def list_all_iff)

lemma nat_str_chars: "list_all (\<lambda>c. is_digit c \<or> c = CHR ''-'') (nat_str n)"
  using nat_str_digits [of n] by (auto simp: list_all_iff)

end
