(* ===== verification/Psi_Parser.thy ===== *)
theory Psi_Parser
  imports Cpp_Strings Psi_Data
begin

text \<open>
  \<open>src/governor/psi_poller.cpp\<close>: the reader of \<open>/proc/pressure/memory\<close> and the polling
  loop. A file is the text read from it, empty when it cannot be opened. The loop is driven
  by the texts of its successive reads; each read yields the sample the callback is given,
  or the exception that leaves the thread function.
\<close>

subsection \<open>One line\<close>

text \<open>The four variables that \<open>parse_line\<close> assigns through its reference parameters.\<close>

record psi_line =
  avg10 :: double
  avg60 :: double
  avg300 :: double
  total :: u64

definition set_double :: "(double \<Rightarrow> psi_line) \<Rightarrow> string \<Rightarrow> cpp_exception + psi_line" where
  "set_double upd val = (case stod val of Inl e \<Rightarrow> Inl e | Inr x \<Rightarrow> Inr (upd x))"

definition parse_token :: "string \<Rightarrow> psi_line \<Rightarrow> cpp_exception + psi_line" where
  "parse_token token r =
     (case str_find ''='' 0 token of None \<Rightarrow> Inr r
      | Some eq \<Rightarrow>
          let key = str_substr 0 eq token; val = drop (eq + 1) token
          in if key = ''avg10'' then set_double (\<lambda>x. r\<lparr>avg10 := x\<rparr>) val
             else if key = ''avg60'' then set_double (\<lambda>x. r\<lparr>avg60 := x\<rparr>) val
             else if key = ''avg300'' then set_double (\<lambda>x. r\<lparr>avg300 := x\<rparr>) val
             else if key = ''total''
             then (case stoull val of Inl e \<Rightarrow> Inl e | Inr n \<Rightarrow> Inr (r\<lparr>total := n\<rparr>))
             else Inr r)"

fun parse_tokens :: "string list \<Rightarrow> psi_line \<Rightarrow> cpp_exception + psi_line" where
  "parse_tokens [] r = Inr r"
| "parse_tokens (t # ts) r =
     (case parse_token t r of Inl e \<Rightarrow> Inl e | Inr r' \<Rightarrow> parse_tokens ts r')"

text \<open>The first word, \<open>some\<close> or \<open>full\<close>, is read into \<open>prefix\<close> and dropped.\<close>

definition parse_line :: "string \<Rightarrow> psi_line \<Rightarrow> cpp_exception + psi_line" where
  "parse_line l r = parse_tokens (drop 1 (read_words l)) r"

subsection \<open>The file\<close>

definition some_line :: "psi_data \<Rightarrow> psi_line" where
  "some_line d = \<lparr>avg10 = some_avg10 d, avg60 = some_avg60 d, avg300 = some_avg300 d, total = some_total d\<rparr>"

definition full_line :: "psi_data \<Rightarrow> psi_line" where
  "full_line d = \<lparr>avg10 = full_avg10 d, avg60 = full_avg60 d, avg300 = full_avg300 d, total = full_total d\<rparr>"

definition set_some_line :: "psi_line \<Rightarrow> psi_data \<Rightarrow> psi_data" where
  "set_some_line r d = d\<lparr>some_avg10 := avg10 r, some_avg60 := avg60 r, some_avg300 := avg300 r, some_total := total r\<rparr>"

definition set_full_line :: "psi_line \<Rightarrow> psi_data \<Rightarrow> psi_data" where
  "set_full_line r d = d\<lparr>full_avg10 := avg10 r, full_avg60 := avg60 r, full_avg300 := avg300 r, full_total := total r\<rparr>"

fun parse_lines :: "string list \<Rightarrow> psi_data \<Rightarrow> cpp_exception + psi_data" where
  "parse_lines [] d = Inr d"
| "parse_lines (l # ls) d =
     (if starts_with ''some'' l
      then (case parse_line l (some_line d) of Inl e \<Rightarrow> Inl e
            | Inr r \<Rightarrow> parse_lines ls (set_some_line r d))
      else if starts_with ''full'' l
      then (case parse_line l (full_line d) of Inl e \<Rightarrow> Inl e
            | Inr r \<Rightarrow> parse_lines ls (set_full_line r d))
      else parse_lines ls d)"

definition parse_psi_file :: "string \<Rightarrow> cpp_exception + psi_data" where
  "parse_psi_file content = parse_lines (getlines content) psi_default"

subsection \<open>The polling thread\<close>

record psi_poller =
  poller_running :: bool
  poller_thread :: bool
  latest_data :: psi_data
  poller_callback :: bool

definition poller_new :: psi_poller where
  "poller_new = \<lparr>poller_running = False, poller_thread = False, latest_data = psi_default,
     poller_callback = False\<rparr>"

definition set_callback :: "psi_poller \<Rightarrow> psi_poller" where
  "set_callback p = p\<lparr>poller_callback := True\<rparr>"

definition get_latest :: "psi_poller \<Rightarrow> psi_data" where
  "get_latest p = latest_data p"

definition poller_start :: "psi_poller \<Rightarrow> psi_poller" where
  "poller_start p =
     (if poller_running p then p else p\<lparr>poller_running := True, poller_thread := True\<rparr>)"

text \<open>\<open>join\<close> waits for the loop to see the flag; it holds no lock.\<close>

definition poller_stop :: "psi_poller \<Rightarrow> psi_poller" where
  "poller_stop p =
     (if \<not> poller_running p then p else p\<lparr>poller_running := False, poller_thread := False\<rparr>)"

definition poller_destroy :: "psi_poller \<Rightarrow> psi_poller" where
  "poller_destroy p = poller_stop p"

text \<open>What the poller reads, when the file can be opened and when it can not.\<close>

definition read_file :: "string option \<Rightarrow> string" where
  "read_file file = (case file of None \<Rightarrow> '''' | Some content \<Rightarrow> content)"

text \<open>One iteration of \<open>poll_loop\<close>: the new state and the sample given to the callback, if
  any. The callback itself belongs to the daemon.\<close>

definition poll_once :: "string \<Rightarrow> psi_poller \<Rightarrow> cpp_exception + psi_data option \<times> psi_poller" where
  "poll_once content p =
     (if content = '''' then Inr (None, p)
      else case parse_psi_file content of Inl e \<Rightarrow> Inl e
        | Inr d \<Rightarrow> Inr (if poller_callback p then Some d else None, p\<lparr>latest_data := d\<rparr>))"

text \<open>The loop over the successive file contents. An exception leaves the thread function,
  which ends the process; the samples delivered before it are kept in the result.\<close>

fun poll_loop :: "string list \<Rightarrow> psi_poller \<Rightarrow> psi_data list \<times> (cpp_exception + psi_poller)" where
  "poll_loop [] p = ([], Inr p)"
| "poll_loop (c # cs) p =
     (if \<not> poller_running p then ([], Inr p)
      else case poll_once c p of Inl e \<Rightarrow> ([], Inl e)
        | Inr (out, p') \<Rightarrow>
            (let (ds, r) = poll_loop cs p'
             in (case out of None \<Rightarrow> ds | Some d \<Rightarrow> d # ds, r)))"


subsection \<open>The format the kernel writes\<close>

text \<open>Averages with two decimals, given here in hundredths, and the total in microseconds.\<close>

definition kernel_value :: "nat \<Rightarrow> string" where
  "kernel_value v = nat_str (v div 100) @ CHR ''.'' # [digit_char (v div 10 mod 10), digit_char (v mod 10)]"

definition kernel_line :: "string \<Rightarrow> nat \<times> nat \<times> nat \<times> nat \<Rightarrow> string" where
  "kernel_line name = (\<lambda>(a, b, c, t). name @ '' avg10='' @ kernel_value a @ '' avg60='' @ kernel_value b @
     '' avg300='' @ kernel_value c @ '' total='' @ nat_str t)"

definition kernel_file :: "nat \<times> nat \<times> nat \<times> nat \<Rightarrow> nat \<times> nat \<times> nat \<times> nat \<Rightarrow> string" where
  "kernel_file s f = kernel_line ''some'' s @ CHR ''\<newline>'' # kernel_line ''full'' f @ [CHR ''\<newline>'']"

fun in_range :: "nat \<times> nat \<times> nat \<times> nat \<Rightarrow> bool" where
  "in_range (a, b, c, t) \<longleftrightarrow> a \<le> 10000 \<and> b \<le> 10000 \<and> c \<le> 10000 \<and> t < 2 ^ 64"

definition hundredths :: "nat \<Rightarrow> double" where
  "hundredths v = to_double (of_nat v / 100)"

subsection \<open>Words and lines\<close>

lemma read_words_space: "is_space c \<Longrightarrow> read_words (c # s) = read_words s"
  by (subst (1 2) read_words.simps) simp

lemma read_words_word:
  assumes "w \<noteq> []" and "list_all (\<lambda>c. \<not> is_space c) w"
    and "\<And>c cs. r = c # cs \<Longrightarrow> is_space c"
  shows "read_words (w @ r) = w # read_words r"
proof -
  obtain d ds where w: "w = d # ds" using assms(1) by (cases w) auto
  have "dropWhile is_space (w @ r) = w @ r" using assms(2) by (simp add: w)
  moreover have "takeWhile (\<lambda>c. \<not> is_space c) (w @ r) = w"
    using assms(2,3) by (cases r) (simp_all add: takeWhile_append2 list_all_iff)
  moreover have "dropWhile (\<lambda>c. \<not> is_space c) (w @ r) = r"
    using assms(2,3) by (cases r) (simp_all add: dropWhile_append2 list_all_iff)
  ultimately show ?thesis by (subst read_words.simps) (simp add: w Let_def)
qed

lemma read_words_Nil [simp]: "read_words [] = []"
  by (subst read_words.simps) simp

lemma getlines_line: "CHR ''\<newline>'' \<notin> set l \<Longrightarrow> getlines (l @ CHR ''\<newline>'' # r) = l # getlines r"
proof -
  assume "CHR ''\<newline>'' \<notin> set l"
  then have "\<forall>x \<in> set l. x \<noteq> CHR ''\<newline>''" by auto
  then show ?thesis by (cases l) (simp_all add: takeWhile_append2 dropWhile_append2)
qed

lemma str_find_char: "c \<notin> set k \<Longrightarrow> str_find [c] 0 (k @ c # v) = Some (length k)"
proof -
  have "find_at [c] (k @ c # v) i = Some (i + length k)" if "c \<notin> set k" for i
    using that by (induction k arbitrary: i) (auto simp: starts_with_def)
  then show "c \<notin> set k \<Longrightarrow> ?thesis" by (simp add: str_find_def)
qed

lemma parse_token_field:
  assumes "CHR ''='' \<notin> set k"
  shows "parse_token (k @ CHR ''='' # v) r =
     (if k = ''avg10'' then set_double (\<lambda>x. r\<lparr>avg10 := x\<rparr>) v
      else if k = ''avg60'' then set_double (\<lambda>x. r\<lparr>avg60 := x\<rparr>) v
      else if k = ''avg300'' then set_double (\<lambda>x. r\<lparr>avg300 := x\<rparr>) v
      else if k = ''total'' then (case stoull v of Inl e \<Rightarrow> Inl e | Inr n \<Rightarrow> Inr (r\<lparr>total := n\<rparr>))
      else Inr r)"
  using assms by (simp add: parse_token_def str_find_char str_substr_def)

subsection \<open>The value of a printed average\<close>

lemma digits_value_append:
  "digits_value 10 (s @ [digit_char a, digit_char b]) = 100 * digits_value 10 s + 10 * digit_val (digit_char a) + digit_val (digit_char b)"
  by (simp add: digits_value_def)

lemma hundredths_digits: "100 * (v div 100) + 10 * (v div 10 mod 10) + v mod 10 = (v :: nat)"
proof -
  have "v div 100 = v div 10 div 10" by (simp flip: div_mult2_eq)
  then show ?thesis
    using mult_div_mod_eq [of 10 "v div 10"] mult_div_mod_eq [of 10 v] by linarith
qed

lemma lower_of_digit: "is_digit c \<Longrightarrow> to_lower c = c"
  by (simp add: to_lower_def is_digit_def)

lemma digit_ne: "is_digit c \<Longrightarrow> c \<noteq> CHR ''i'' \<and> c \<noteq> CHR ''n'' \<and> c \<noteq> CHR ''x'' \<and> c \<noteq> CHR ''.''"
  by (auto simp: is_digit_def char_code_def)

lemma kernel_value_split:
  obtains c cs d ds where "kernel_value v = c # d # ds" "is_digit c" "is_digit d \<or> d = CHR ''.''"
proof -
  obtain c cs where cs: "nat_str (v div 100) = c # cs" "is_digit c" by (rule nat_str_Cons)
  have all: "list_all is_digit cs" using nat_str_digits [of "v div 100"] cs by simp
  show ?thesis using that cs all by (cases cs) (auto simp: kernel_value_def)
qed

lemma read_kernel_value: "read_unsigned_float (kernel_value v) = Number (of_nat v / 100)"
proof -
  obtain c d ds where s: "kernel_value v = c # d # ds" "is_digit c" "is_digit d \<or> d = CHR ''.''"
    by (rule kernel_value_split)
  have "to_lower d \<noteq> CHR ''x''"
    using s(3) lower_of_digit [of d] digit_ne [of d] by (auto simp: to_lower_def char_code_def)
  then have "\<not> starts_hex (kernel_value v)" by (simp add: starts_hex_def s)
  moreover have "\<not> starts_with ''inf'' (map to_lower (kernel_value v))"
    "\<not> starts_with ''nan'' (map to_lower (kernel_value v))"
    using lower_of_digit [OF s(2)] digit_ne [OF s(2)] by (auto simp: s)
  moreover have "read_mantissa is_digit (kernel_value v) =
      (nat_str (v div 100), [digit_char (v div 10 mod 10), digit_char (v mod 10)], [])"
  proof -
    have "\<not> is_digit (CHR ''.'')" by (simp add: is_digit_def char_code_def)
    then show ?thesis using nat_str_digits [of "v div 100"]
      by (simp add: read_mantissa_def kernel_value_def takeWhile_append2 dropWhile_append2 list_all_iff Let_def)
  qed
  ultimately show ?thesis
    by (simp add: read_unsigned_float_def mantissa_value_def read_exponent_def digits_value_append
        digits_value_nat_str hundredths_digits)
qed

lemma stod_kernel_value:
  assumes "v \<le> 10000"
  shows "stod (kernel_value v) = Inr (hundredths v)"
proof -
  let ?x = "of_nat v / 100 :: rat"
  have "rnd ?x \<le> rnd (of_int 100)" using assms by (intro rnd_mono) simp_all
  then have "\<bar>rnd ?x\<bar> \<le> 100" using rnd_of_int [of 100] rnd_nonneg [of ?x] by simp
  then have fin: "to_double ?x = Finite (rnd ?x)" by (intro to_double_Finite) simp
  have "\<not> underflows ?x"
  proof (cases "v = 0")
    case False
    then have "1 \<le> (of_nat v :: rat)" by simp
    then have "rnd (of_int 1 * 2 powi (- 7)) \<le> rnd ?x" by (intro rnd_mono) (simp_all add: power_int_def power_divide)
    then have "2 powi (- 7) \<le> rnd ?x" using rnd_exact [of 1 "- 7"] by simp
    moreover have "(2 :: rat) powi (- 1022) \<le> 2 powi (- 7)" by (rule powi_two_mono) simp
    ultimately show ?thesis by (simp add: underflows_def)
  qed (simp add: underflows_def)
  moreover have "take_sign (dropWhile is_space (kernel_value v)) = (False, kernel_value v)"
    unfolding kernel_value_def by (simp only: skip_nat_str sign_nat_str)
  ultimately show ?thesis
    by (simp add: stod_def read_kernel_value hundredths_def fin)
qed

subsection \<open>A printed line\<close>

lemma digits_no_space: "list_all is_digit s \<Longrightarrow> list_all (\<lambda>c. \<not> is_space c) s"
  using digit_not_space by (auto simp: list_all_iff)

lemma kernel_value_no_space: "list_all (\<lambda>c. \<not> is_space c) (kernel_value v)"
  using digits_no_space [OF nat_str_digits, of "v div 100"] digit_not_space
  by (simp add: kernel_value_def is_space_def [of "CHR ''.''"] char_code_def [of "CHR ''.''"])

lemma space_chars [simp]: "is_space (CHR '' '')" "is_space (CHR ''\<newline>'')"
  by (simp_all add: is_space_def char_code_def)

lemma read_field:
  assumes "list_all (\<lambda>c. \<not> is_space c) k" and "list_all (\<lambda>c. \<not> is_space c) v"
    and "\<And>c cs. r = c # cs \<Longrightarrow> is_space c"
  shows "read_words (CHR '' '' # k @ CHR ''='' # v @ r) = (k @ CHR ''='' # v) # read_words r"
  using read_words_word [of "k @ CHR ''='' # v" r] assms
  by (simp add: read_words_space is_space_def [of "CHR ''=''"] char_code_def [of "CHR ''=''"])

lemma no_space_keys:
  "list_all (\<lambda>c. \<not> is_space c) ''avg10''" "list_all (\<lambda>c. \<not> is_space c) ''avg60''"
  "list_all (\<lambda>c. \<not> is_space c) ''avg300''" "list_all (\<lambda>c. \<not> is_space c) ''total''"
  "list_all (\<lambda>c. \<not> is_space c) ''some''" "list_all (\<lambda>c. \<not> is_space c) ''full''"
  by (simp_all add: is_space_def char_code_def)

lemma words_of_kernel_line:
  assumes "name \<noteq> []" and "list_all (\<lambda>c. \<not> is_space c) name"
  shows "read_words (kernel_line name (a, b, c, t)) =
    [name, ''avg10'' @ CHR ''='' # kernel_value a, ''avg60'' @ CHR ''='' # kernel_value b,
     ''avg300'' @ CHR ''='' # kernel_value c, ''total'' @ CHR ''='' # nat_str t]"
proof -
  note keys = no_space_keys and vals = kernel_value_no_space and tot = digits_no_space [OF nat_str_digits]
  let ?r4 = "CHR '' '' # ''total'' @ CHR ''='' # nat_str t @ []"
  let ?r3 = "CHR '' '' # ''avg300'' @ CHR ''='' # kernel_value c @ ?r4"
  let ?r2 = "CHR '' '' # ''avg60'' @ CHR ''='' # kernel_value b @ ?r3"
  let ?r1 = "CHR '' '' # ''avg10'' @ CHR ''='' # kernel_value a @ ?r2"
  have 4: "read_words ?r4 = [''total'' @ CHR ''='' # nat_str t]"
    by (subst read_field [OF keys(4) tot]) simp_all
  have 3: "read_words ?r3 = (''avg300'' @ CHR ''='' # kernel_value c) # read_words ?r4"
    by (rule read_field [OF keys(3) vals]) simp
  have 2: "read_words ?r2 = (''avg60'' @ CHR ''='' # kernel_value b) # read_words ?r3"
    by (rule read_field [OF keys(2) vals]) simp
  have 1: "read_words ?r1 = (''avg10'' @ CHR ''='' # kernel_value a) # read_words ?r2"
    by (rule read_field [OF keys(1) vals]) simp
  have "kernel_line name (a, b, c, t) = name @ ?r1" by (simp add: kernel_line_def)
  moreover have "read_words (name @ ?r1) = name # read_words ?r1"
    by (rule read_words_word [OF assms]) simp
  ultimately show ?thesis unfolding 1 2 3 4 by simp
qed

lemma stoull_total: "t < 2 ^ 64 \<Longrightarrow> stoull (nat_str t) = Inr (of_nat t)"
  using stoull_nat_str [of t "[]"] by simp

lemma parse_kernel_line:
  assumes "name \<noteq> []" and "list_all (\<lambda>c. \<not> is_space c) name" and "in_range (a, b, c, t)"
  shows "parse_line (kernel_line name (a, b, c, t)) r =
    Inr \<lparr>avg10 = hundredths a, avg60 = hundredths b, avg300 = hundredths c, total = of_nat t\<rparr>"
proof -
  have "parse_token (''avg10'' @ CHR ''='' # kernel_value a) r = Inr (r\<lparr>avg10 := hundredths a\<rparr>)"
    and "parse_token (''avg60'' @ CHR ''='' # kernel_value b) r = Inr (r\<lparr>avg60 := hundredths b\<rparr>)"
    and "parse_token (''avg300'' @ CHR ''='' # kernel_value c) r = Inr (r\<lparr>avg300 := hundredths c\<rparr>)"
    and "parse_token (''total'' @ CHR ''='' # nat_str t) r = Inr (r\<lparr>total := of_nat t\<rparr>)" for r
    using assms(3) by (subst parse_token_field; simp add: set_double_def stod_kernel_value stoull_total)+
  note tokens = this
  have "parse_line (kernel_line name (a, b, c, t)) r =
    Inr (r\<lparr>avg10 := hundredths a, avg60 := hundredths b, avg300 := hundredths c, total := of_nat t\<rparr>)"
    unfolding parse_line_def words_of_kernel_line [OF assms(1,2)] drop_Suc_Cons One_nat_def drop_0
      parse_tokens.simps tokens sum.case ..
  then show ?thesis by simp
qed

lemma no_newline:
  "list_all (\<lambda>c. \<not> is_space c) s \<Longrightarrow> CHR ''\<newline>'' \<notin> set s"
  by (auto simp: list_all_iff)

lemma kernel_line_no_newline:
  "list_all (\<lambda>c. \<not> is_space c) name \<Longrightarrow> CHR ''\<newline>'' \<notin> set (kernel_line name (a, b, c, t))"
  using no_newline [OF kernel_value_no_space] no_newline [OF digits_no_space [OF nat_str_digits]]
  by (auto simp: kernel_line_def dest: no_newline)

lemma parse_lines_kernel:
  assumes "in_range (a, b, c, t)"
  shows "parse_lines (kernel_line ''some'' (a, b, c, t) # ls) d = parse_lines ls (set_some_line
      \<lparr>avg10 = hundredths a, avg60 = hundredths b, avg300 = hundredths c, total = of_nat t\<rparr> d)"
    and "parse_lines (kernel_line ''full'' (a, b, c, t) # ls) d = parse_lines ls (set_full_line
      \<lparr>avg10 = hundredths a, avg60 = hundredths b, avg300 = hundredths c, total = of_nat t\<rparr> d)"
proof -
  have "starts_with ''some'' (kernel_line ''some'' (a, b, c, t))"
    "\<not> starts_with ''some'' (kernel_line ''full'' (a, b, c, t))"
    "starts_with ''full'' (kernel_line ''full'' (a, b, c, t))"
    by (simp_all add: kernel_line_def)
  then show "parse_lines (kernel_line ''some'' (a, b, c, t) # ls) d = parse_lines ls (set_some_line
      \<lparr>avg10 = hundredths a, avg60 = hundredths b, avg300 = hundredths c, total = of_nat t\<rparr> d)"
    and "parse_lines (kernel_line ''full'' (a, b, c, t) # ls) d = parse_lines ls (set_full_line
      \<lparr>avg10 = hundredths a, avg60 = hundredths b, avg300 = hundredths c, total = of_nat t\<rparr> d)"
    by (simp_all add: parse_kernel_line [OF _ no_space_keys(5) assms] parse_kernel_line [OF _ no_space_keys(6) assms])
qed

text \<open>C12: On the text the kernel writes, with averages up to 100.00 and totals
  below \<open>2^64\<close>, the parser throws nothing and yields every field: each average is the
  decimal correctly rounded to a double, each total is exact.\<close>

theorem psi_parses_kernel_file:
  assumes "in_range (a, b, c, t)" and "in_range (a', b', c', t')"
  shows "parse_psi_file (kernel_file (a, b, c, t) (a', b', c', t')) =
    Inr \<lparr>some_avg10 = to_double (of_nat a / 100), some_avg60 = to_double (of_nat b / 100),
         some_avg300 = to_double (of_nat c / 100), some_total = of_nat t,
         full_avg10 = to_double (of_nat a' / 100), full_avg60 = to_double (of_nat b' / 100),
         full_avg300 = to_double (of_nat c' / 100), full_total = of_nat t'\<rparr>"
proof -
  have "getlines (kernel_file (a, b, c, t) (a', b', c', t')) =
      [kernel_line ''some'' (a, b, c, t), kernel_line ''full'' (a', b', c', t')]"
    unfolding kernel_file_def using no_space_keys
    by (simp add: getlines_line kernel_line_no_newline)
  then show ?thesis using assms
    by (simp add: parse_psi_file_def parse_lines_kernel set_some_line_def set_full_line_def hundredths_def psi_default_def
        del: parse_lines.simps(2))
qed

theorem psi_parses_kernel_file_witness:
  "parse_psi_file (kernel_file (250, 120, 80, 123456) (110, 50, 10, 7890)) =
    Inr \<lparr>some_avg10 = to_double (of_nat 250 / 100), some_avg60 = to_double (of_nat 120 / 100),
         some_avg300 = to_double (of_nat 80 / 100), some_total = of_nat 123456,
         full_avg10 = to_double (of_nat 110 / 100), full_avg60 = to_double (of_nat 50 / 100),
         full_avg300 = to_double (of_nat 10 / 100), full_total = of_nat 7890\<rparr>"
  by (rule psi_parses_kernel_file) simp_all

subsection \<open>The loop\<close>

lemma poll_once_cases:
  assumes "poller_callback p"
  shows "poll_once c p =
    (if c = '''' then Inr (None, p)
     else case parse_psi_file c of Inl e \<Rightarrow> Inl e | Inr d \<Rightarrow> Inr (Some d, p\<lparr>latest_data := d\<rparr>))"
  using assms by (simp add: poll_once_def split: sum.splits)

abbreviation readings :: "string list \<Rightarrow> (cpp_exception + psi_data) list" where
  "readings cs \<equiv> map parse_psi_file (filter (\<lambda>c. c \<noteq> '''') cs)"

text \<open>C27: A running poller with a callback delivers, in order, the parse of every
  readable content up to the first one that does not parse, and skips unreadable ones. With
  no such content it goes on and its latest sample is the last delivered; otherwise the
  exception of the parser leaves the thread.\<close>

theorem poll_loop_delivers:
  assumes "poller_running p" and "poller_callback p"
  shows "fst (poll_loop cs p) = map projr (takeWhile (\<lambda>r. \<not> isl r) (readings cs)) \<and>
    snd (poll_loop cs p) =
      (case dropWhile (\<lambda>r. \<not> isl r) (readings cs) of
         [] \<Rightarrow> Inr (p\<lparr>latest_data := last (latest_data p # map projr (readings cs))\<rparr>)
       | r # _ \<Rightarrow> Inl (projl r))"
  using assms
proof (induction cs arbitrary: p)
  case Nil
  then show ?case by simp
next
  case (Cons c cs)
  show ?case
  proof (cases "c = ''''")
    case True
    then have r: "readings (c # cs) = readings cs" by simp
    have "poll_loop (c # cs) p = poll_loop cs p"
      using True Cons.prems by (simp add: poll_once_cases case_prod_beta Let_def)
    then show ?thesis unfolding r using Cons by presburger
  next
    case False
    show ?thesis
    proof (cases "parse_psi_file c")
      case (Inl e)
      with False Cons.prems show ?thesis by (simp add: poll_once_cases)
    next
      case (Inr d)
      obtain rs where rs: "readings cs = rs" by blast
      with False Inr have r: "readings (c # cs) = Inr d # rs" by simp
      let ?p = "p\<lparr>latest_data := d\<rparr>"
      have l: "poll_loop (c # cs) p = (d # fst (poll_loop cs ?p), snd (poll_loop cs ?p))"
        using False Inr Cons.prems by (simp add: poll_once_cases case_prod_beta Let_def)
      have h: "dropWhile (\<lambda>r. \<not> isl r) (Inr d # rs) = dropWhile (\<lambda>r. \<not> isl r) rs" by simp
      have "fst (poll_loop cs ?p) = map projr (takeWhile (\<lambda>r. \<not> isl r) rs)"
        and "snd (poll_loop cs ?p) = (case dropWhile (\<lambda>r. \<not> isl r) rs of
           [] \<Rightarrow> Inr (?p\<lparr>latest_data := last (latest_data ?p # map projr rs)\<rparr>)
         | r # _ \<Rightarrow> Inl (projl r))"
        using Cons.prems Cons.IH [of ?p] unfolding rs by simp_all
      then show ?thesis unfolding l r h fst_conv snd_conv
        by (cases "dropWhile (\<lambda>r. \<not> isl r) rs") (simp_all del: dropWhile_eq_Nil_conv)
    qed
  qed
qed

theorem poll_loop_delivers_witness:
  "snd (poll_loop ['''', ''some avg10=abc'', ''some avg10=1'']
      (poller_start (set_callback poller_new))) = Inl InvalidArgument"
proof -
  have bad: "parse_psi_file ''some avg10=abc'' = Inl InvalidArgument" by code_simp
  have "poller_running (poller_start (set_callback poller_new))"
    "poller_callback (poller_start (set_callback poller_new))"
    by (simp_all add: poller_start_def set_callback_def poller_new_def)
  from poll_loop_delivers [OF this, of "['''', ''some avg10=abc'', ''some avg10=1'']"]
  show ?thesis by (simp add: bad)
qed

subsection \<open>Every sample is made of doubles\<close>

definition line_typed :: "psi_line \<Rightarrow> bool" where
  "line_typed r \<longleftrightarrow> is_double (avg10 r) \<and> is_double (avg60 r) \<and> is_double (avg300 r)"

definition psi_typed :: "psi_data \<Rightarrow> bool" where
  "psi_typed d \<longleftrightarrow> line_typed (some_line d) \<and> line_typed (full_line d)"

lemma stod_is_double: "stod s = Inr x \<Longrightarrow> is_double x"
proof -
  assume "stod s = Inr x"
  then consider "\<not> (\<exists>q. x = Finite q)" | y where "x = to_double y"
    by (auto simp: stod_def Let_def split: prod.splits float_text.splits double.splits if_splits)
  then show ?thesis
  proof cases
    case 1
    then show ?thesis by (cases x) (simp_all add: is_double_def)
  qed (simp add: to_double_is_double)
qed

lemma parse_token_typed: "parse_token t r = Inr r' \<Longrightarrow> line_typed r \<Longrightarrow> line_typed r'"
  by (auto simp: parse_token_def set_double_def line_typed_def Let_def
      split: option.splits if_splits sum.splits dest: stod_is_double)

lemma parse_tokens_typed: "parse_tokens ts r = Inr r' \<Longrightarrow> line_typed r \<Longrightarrow> line_typed r'"
  by (induction ts r rule: parse_tokens.induct) (auto split: sum.splits dest: parse_token_typed)

lemma set_line_typed:
  "psi_typed d \<Longrightarrow> line_typed r \<Longrightarrow> psi_typed (set_some_line r d)"
  "psi_typed d \<Longrightarrow> line_typed r \<Longrightarrow> psi_typed (set_full_line r d)"
  by (simp_all add: psi_typed_def line_typed_def some_line_def full_line_def set_some_line_def set_full_line_def)

lemma parse_lines_typed: "parse_lines ls d = Inr d' \<Longrightarrow> psi_typed d \<Longrightarrow> psi_typed d'"
proof (induction ls d rule: parse_lines.induct)
  case (2 l ls d)
  have d: "line_typed (some_line d)" "line_typed (full_line d)" using "2.prems"(2) by (simp_all add: psi_typed_def)
  consider (some) "starts_with ''some'' l" | (full) "\<not> starts_with ''some'' l" "starts_with ''full'' l"
    | (other) "\<not> starts_with ''some'' l" "\<not> starts_with ''full'' l" by blast
  then show ?case
  proof cases
    case some
    with "2.prems" obtain r where r: "parse_line l (some_line d) = Inr r" "parse_lines ls (set_some_line r d) = Inr d'"
      by (auto split: sum.splits)
    have "line_typed r" using r(1) d(1) unfolding parse_line_def by (rule parse_tokens_typed)
    with "2.IH"(1) [OF some r] "2.prems"(2) show ?thesis by (simp add: set_line_typed)
  next
    case full
    with "2.prems" obtain r where r: "parse_line l (full_line d) = Inr r" "parse_lines ls (set_full_line r d) = Inr d'"
      by (auto split: sum.splits)
    have "line_typed r" using r(1) d(2) unfolding parse_line_def by (rule parse_tokens_typed)
    with "2.IH"(2) [OF full r] "2.prems"(2) show ?thesis by (simp add: set_line_typed)
  next
    case other
    with "2.IH"(3) [OF other] "2.prems" show ?thesis by simp
  qed
qed simp

lemma parse_file_typed: "parse_psi_file c = Inr d \<Longrightarrow> psi_typed d"
  unfolding parse_psi_file_def
  by (erule parse_lines_typed)
    (simp add: psi_typed_def line_typed_def some_line_def full_line_def psi_default_def is_double_def to_double_def)



end
