(* ===== verification/Protocol.thy ===== *)
theory Protocol
  imports Cpp_Strings
begin

text \<open>
  The wire protocol of \<open>include/governor/protocol.h\<close>: the message, its JSON text, the
  hand-written reader of that text with the exceptions of \<open>stoi\<close> and \<open>stoull\<close>, and the
  length-prefixed frame. Strings are byte strings; the double quote is \<open>CHR 0x22\<close>.
\<close>

datatype message_type = REGISTER | REPORT_SIZE | SHRINK | GROW | ACK | HEARTBEAT | UNKNOWN

record message =
  msg_type :: message_type
  msg_pid :: i32
  msg_target :: u64
  msg_current :: u64
  msg_tier :: i32

definition message_default :: message where
  "message_default = \<lparr>msg_type = UNKNOWN, msg_pid = 0, msg_target = 0, msg_current = 0, msg_tier = 0\<rparr>"

fun type_to_string :: "message_type \<Rightarrow> string" where
  "type_to_string REGISTER = ''REGISTER''"
| "type_to_string REPORT_SIZE = ''REPORT_SIZE''"
| "type_to_string SHRINK = ''SHRINK''"
| "type_to_string GROW = ''GROW''"
| "type_to_string ACK = ''ACK''"
| "type_to_string HEARTBEAT = ''HEARTBEAT''"
| "type_to_string UNKNOWN = ''UNKNOWN''"

definition string_to_type :: "string \<Rightarrow> message_type" where
  "string_to_type s =
     (if s = ''REGISTER'' then REGISTER
      else if s = ''REPORT_SIZE'' then REPORT_SIZE
      else if s = ''SHRINK'' then SHRINK
      else if s = ''GROW'' then GROW
      else if s = ''ACK'' then ACK
      else if s = ''HEARTBEAT'' then HEARTBEAT
      else UNKNOWN)"

abbreviation quote_char :: char where "quote_char \<equiv> CHR 0x22"

definition quoted :: "string \<Rightarrow> string" where
  "quoted s = quote_char # s @ [quote_char]"

definition serialize :: "message \<Rightarrow> string" where
  "serialize m =
     ''{'' @ quoted ''type'' @ '':'' @ quoted (type_to_string (msg_type m)) @ '','' @
     quoted ''pid'' @ '':'' @ int_str (sint (msg_pid m)) @ '','' @
     quoted ''target_bytes'' @ '':'' @ nat_str (unat (msg_target m)) @ '','' @
     quoted ''current_size_bytes'' @ '':'' @ nat_str (unat (msg_current m)) @ '','' @
     quoted ''tier'' @ '':'' @ int_str (sint (msg_tier m)) @ ''}''"

subsection \<open>Reading\<close>

text \<open>The lambda \<open>extract_string\<close>, with the positions the code computes.\<close>

definition blank_chars :: string where
  "blank_chars = [CHR '' '', CHR 0x09, quote_char]"

definition extract_string :: "string \<Rightarrow> string \<Rightarrow> string" where
  "extract_string key json =
     (case str_find (quoted key) 0 json of None \<Rightarrow> ''''
      | Some p \<Rightarrow>
     (case str_find '':'' p json of None \<Rightarrow> ''''
      | Some q \<Rightarrow>
     (case str_find_first_not_of blank_chars (q + 1) json of None \<Rightarrow> ''''
      | Some start \<Rightarrow>
     (case (if json ! (start - 1) = quote_char then str_find [quote_char] start json
            else str_find_first_of '',}'' start json) of None \<Rightarrow> ''''
      | Some stop \<Rightarrow> str_substr start (stop - start) json))))"

text \<open>An absent or empty field keeps its default.\<close>

definition read_int_field :: "string \<Rightarrow> string \<Rightarrow> cpp_exception + i32" where
  "read_int_field key json =
     (let s = extract_string key json
      in if s = '''' then Inr 0
         else case stoi s of Inl e \<Rightarrow> Inl e | Inr i \<Rightarrow> Inr (word_of_int i))"

definition read_u64_field :: "string \<Rightarrow> string \<Rightarrow> cpp_exception + u64" where
  "read_u64_field key json =
     (let s = extract_string key json in if s = '''' then Inr 0 else stoull s)"

definition deserialize :: "string \<Rightarrow> cpp_exception + message" where
  "deserialize json =
     (case read_int_field ''pid'' json of Inl e \<Rightarrow> Inl e | Inr p \<Rightarrow>
     (case read_u64_field ''target_bytes'' json of Inl e \<Rightarrow> Inl e | Inr t \<Rightarrow>
     (case read_u64_field ''current_size_bytes'' json of Inl e \<Rightarrow> Inl e | Inr c \<Rightarrow>
     (case read_int_field ''tier'' json of Inl e \<Rightarrow> Inl e | Inr r \<Rightarrow>
        Inr \<lparr>msg_type = string_to_type (extract_string ''type'' json), msg_pid = p,
             msg_target = t, msg_current = c, msg_tier = r\<rparr>))))"

subsection \<open>Frames\<close>

definition byte_of :: "char \<Rightarrow> u8" where
  "byte_of c = of_nat (char_code c)"

definition char_of_byte :: "u8 \<Rightarrow> char" where
  "char_of_byte b = char_of (unat b)"

text \<open>\<open>htonl\<close> followed by \<open>memcpy\<close>: the bytes of the length, most significant first.\<close>

definition be32 :: "u32 \<Rightarrow> u8 list" where
  "be32 w = [ucast (drop_bit 24 w), ucast (drop_bit 16 w), ucast (drop_bit 8 w), ucast w]"

text \<open>Four bytes read into a \<open>uint32_t\<close> and passed through \<open>ntohl\<close>.\<close>

definition be32_value :: "u8 list \<Rightarrow> nat" where
  "be32_value bs = foldl (\<lambda>n b. 256 * n + unat b) 0 bs"

definition frame :: "message \<Rightarrow> u8 list" where
  "frame m =
     (let payload = serialize m @ [CHR ''\<newline>'']
      in be32 (of_nat (length payload)) @ map byte_of payload)"

subsection \<open>The reader without positions\<close>

text \<open>\<open>suffix_at nd s\<close> is the part of \<open>s\<close> from the first occurrence of \<open>nd\<close> on.\<close>

fun suffix_at :: "string \<Rightarrow> string \<Rightarrow> string option" where
  "suffix_at nd [] = (if nd = [] then Some [] else None)"
| "suffix_at nd (c # cs) = (if starts_with nd (c # cs) then Some (c # cs) else suffix_at nd cs)"

definition value_after_colon :: "string \<Rightarrow> string" where
  "value_after_colon u =
     (let w = dropWhile (\<lambda>c. c \<in> set blank_chars) u;
          stop = (if last (CHR '':'' # takeWhile (\<lambda>c. c \<in> set blank_chars) u) = quote_char
                  then (\<lambda>c. c = quote_char) else (\<lambda>c. c = CHR '','' \<or> c = CHR ''}''))
      in if \<exists>c \<in> set w. stop c then takeWhile (\<lambda>c. \<not> stop c) w else '''')"

definition extract_spec :: "string \<Rightarrow> string \<Rightarrow> string" where
  "extract_spec key json =
     (case suffix_at (quoted key) json of None \<Rightarrow> ''''
      | Some r \<Rightarrow> (case suffix_at '':'' r of None \<Rightarrow> '''' | Some u \<Rightarrow> value_after_colon (tl u)))"

lemma suffix_at_props:
  "suffix_at nd s = Some t \<Longrightarrow> length t \<le> length s \<and> t = drop (length s - length t) s \<and> starts_with nd t"
  by (induction s) (auto simp: Suc_diff_le starts_with_def split: if_splits)

lemma find_at_suffix:
  "find_at nd s i = (case suffix_at nd s of None \<Rightarrow> None | Some t \<Rightarrow> Some (i + (length s - length t)))"
  by (induction s arbitrary: i) (auto simp: starts_with_def Suc_diff_le dest: suffix_at_props split: option.splits)

lemma str_find_suffix:
  assumes "p \<le> length s"
  shows "str_find nd p s = (case suffix_at nd (drop p s) of None \<Rightarrow> None | Some t \<Rightarrow> Some (length s - length t))"
    and "suffix_at nd (drop p s) = Some t \<Longrightarrow>
      length t \<le> length s - p \<and> t = drop (length s - length t) s \<and> starts_with nd t"
proof -
  show 2: "length t \<le> length s - p \<and> t = drop (length s - length t) s \<and> starts_with nd t"
    if "suffix_at nd (drop p s) = Some t" for t
    using suffix_at_props [OF that] assms by (auto simp: add.commute)
  show "str_find nd p s = (case suffix_at nd (drop p s) of None \<Rightarrow> None | Some t \<Rightarrow> Some (length s - length t))"
    using assms 2 by (auto simp: str_find_def find_at_suffix split: option.splits)
qed

lemma index_of_split:
  "index_of P s i = (if \<exists>c \<in> set s. P c then Some (i + length (takeWhile (\<lambda>c. \<not> P c) s)) else None)"
  by (induction s arbitrary: i) auto

lemma find_char_suffix: "suffix_at [c] s =
    (if c \<in> set s then Some (dropWhile (\<lambda>x. x \<noteq> c) s) else None)"
  by (induction s) (auto simp: starts_with_def)

lemma takeWhile_length_drop: "length s - length (dropWhile P s) = length (takeWhile P s)"
  by (metis add_diff_cancel_right' length_append takeWhile_dropWhile_id)

lemma find_stop:
  assumes "st \<le> length json"
  shows "(case str_find [c] st json of None \<Rightarrow> '''' | Some e \<Rightarrow> str_substr st (e - st) json) =
      (let w = drop st json in if c \<in> set w then takeWhile (\<lambda>x. x \<noteq> c) w else '''')"
    and "(case str_find_first_of cs st json of None \<Rightarrow> '''' | Some e \<Rightarrow> str_substr st (e - st) json) =
      (let w = drop st json in if \<exists>x \<in> set w. x \<in> set cs then takeWhile (\<lambda>x. x \<notin> set cs) w else '''')"
proof -
  let ?w = "drop st json"
  have "length json - length (dropWhile (\<lambda>x. x \<noteq> c) ?w) - st = length (takeWhile (\<lambda>x. x \<noteq> c) ?w)"
    using takeWhile_length_drop [of ?w "\<lambda>x. x \<noteq> c"] by simp
  then show "(case str_find [c] st json of None \<Rightarrow> '''' | Some e \<Rightarrow> str_substr st (e - st) json) =
      (let w = ?w in if c \<in> set w then takeWhile (\<lambda>x. x \<noteq> c) w else '''')"
    by (simp add: str_find_suffix(1) [OF assms] find_char_suffix str_substr_def flip: takeWhile_eq_take)
  show "(case str_find_first_of cs st json of None \<Rightarrow> '''' | Some e \<Rightarrow> str_substr st (e - st) json) =
      (let w = ?w in if \<exists>x \<in> set w. x \<in> set cs then takeWhile (\<lambda>x. x \<notin> set cs) w else '''')"
    by (simp add: str_find_first_of_def index_of_split str_substr_def flip: takeWhile_eq_take)
qed

lemma nth_before_stop: "(c # u) ! length (takeWhile P u) = last (c # takeWhile P u)"
proof (cases "takeWhile P u" rule: rev_cases)
  case Nil
  then show ?thesis by simp
next
  case (snoc ys y)
  then have "u ! length ys = y" using takeWhile_nth [of "length ys" P u] by simp
  with snoc show ?thesis by simp
qed

lemma value_lookup:
  assumes "drop q json = CHR '':'' # u"
  shows "(case str_find_first_not_of blank_chars (q + 1) json of None \<Rightarrow> ''''
      | Some start \<Rightarrow>
     (case (if json ! (start - 1) = quote_char then str_find [quote_char] start json
            else str_find_first_of '',}'' start json) of None \<Rightarrow> ''''
      | Some stop \<Rightarrow> str_substr start (stop - start) json)) = value_after_colon u"
proof -
  let ?B = "\<lambda>c. c \<in> set blank_chars"
  let ?pre = "takeWhile ?B u" and ?w = "dropWhile ?B u"
  have du: "drop (Suc q) json = u" using arg_cong [OF assms, of tl] by (simp add: drop_Suc tl_drop)
  have first: "str_find_first_not_of blank_chars (q + 1) json =
      (if ?w = [] then None else Some (q + 1 + length ?pre))"
    by (auto simp: str_find_first_not_of_def index_of_split du dropWhile_eq_Nil_conv)
  show ?thesis
  proof (cases "?w = []")
    case True
    have none: "str_find_first_not_of blank_chars (q + 1) json = None"
      unfolding first by (rule if_P [OF True])
    have "value_after_colon u = ''''" unfolding value_after_colon_def Let_def True by simp
    then show ?thesis unfolding none by simp
  next
    case False
    let ?st = "q + 1 + length ?pre"
    have dst: "drop ?st json = ?w"
      using drop_drop [of "length ?pre" "Suc q" json] by (simp add: du dropWhile_eq_drop add.commute)
    have le: "?st \<le> length json" using False dst by (metis drop_all nle_le)
    have "json ! (?st - 1) = (drop q json) ! length ?pre" using le by simp
    also have "\<dots> = last (CHR '':'' # ?pre)"
      unfolding assms by (rule nth_before_stop)
    finally have prev: "json ! (?st - 1) = last (CHR '':'' # ?pre)" .
    have some: "str_find_first_not_of blank_chars (q + 1) json = Some ?st"
      unfolding first by (rule if_not_P [OF False])
    show ?thesis
    proof (cases "last (CHR '':'' # ?pre) = quote_char")
      case True
      show ?thesis unfolding some option.case prev if_P [OF True] find_stop(1) [OF le] dst
        unfolding value_after_colon_def Let_def if_P [OF True] by auto
    next
      case False
      show ?thesis unfolding some option.case prev if_not_P [OF False] find_stop(2) [OF le] dst
        unfolding value_after_colon_def Let_def if_not_P [OF False] by simp
    qed
  qed
qed

lemma extract_string_eq: "extract_string key json = extract_spec key json"
proof (cases "suffix_at (quoted key) json")
  case None
  then show ?thesis by (simp add: extract_string_def extract_spec_def str_find_suffix(1))
next
  case (Some r)
  then have r0: "suffix_at (quoted key) (drop 0 json) = Some r" by simp
  have p: "str_find (quoted key) 0 json = Some (length json - length r)"
    using str_find_suffix(1) [of 0 json "quoted key"] r0 by simp
  have le0: "0 \<le> length json" by simp
  note r' = str_find_suffix(2) [OF le0 r0]
  have r: "r = drop (length json - length r) json" by (rule conjunct1 [OF conjunct2 [OF r']])
  let ?p = "length json - length r"
  show ?thesis
  proof (cases "suffix_at '':'' r")
    case None
    then have "suffix_at '':'' (drop ?p json) = None" unfolding r [symmetric] .
    with Some None p str_find_suffix(1) [of ?p json "'':''"] show ?thesis
      by (simp add: extract_string_def extract_spec_def)
  next
    case (Some s)
    have s: "suffix_at '':'' (drop ?p json) = Some s" unfolding r [symmetric] by (rule Some)
    have q: "str_find '':'' ?p json = Some (length json - length s)"
      using str_find_suffix(1) [of ?p json "'':''"] s by simp
    have "?p \<le> length json" by simp
    note s' = str_find_suffix(2) [OF this s]
    have sd: "s = drop (length json - length s) json" by (rule conjunct1 [OF conjunct2 [OF s']])
    have st: "starts_with '':'' s" by (rule conjunct2 [OF conjunct2 [OF s']])
    from st obtain u where u: "s = CHR '':'' # u" by (cases s) (auto simp: starts_with_def)
    from sd u have "drop (length json - length s) json = CHR '':'' # u" by (rule trans [OF sym])
    from value_lookup [OF this] p q Some \<open>suffix_at (quoted key) json = Some r\<close> u show ?thesis
      by (simp add: extract_string_def extract_spec_def)
  qed
qed


subsection \<open>Reading back what was written\<close>

lemma suffix_at_skip:
  "quote_char \<notin> set xs \<Longrightarrow> suffix_at (quoted k) (xs @ r) = suffix_at (quoted k) r"
  by (induction xs) (auto simp: quoted_def)

abbreviation plain :: "string \<Rightarrow> bool" where
  "plain xs \<equiv> list_all (\<lambda>c. is_digit c \<or> c = CHR ''-'') xs"

lemma plain_chars:
  assumes "plain xs" and "c \<in> set xs"
  shows "c \<notin> set blank_chars \<and> c \<noteq> CHR '','' \<and> c \<noteq> CHR ''}'' \<and> c \<noteq> quote_char \<and> c \<noteq> CHR '':''"
  using assms by (auto simp: list_all_iff is_digit_def char_code_def blank_chars_def)

lemma value_of_plain:
  assumes "plain xs" and "xs \<noteq> []" and "c = CHR '','' \<or> c = CHR ''}''"
  shows "value_after_colon (xs @ c # r) = xs"
proof -
  obtain d ds where xs: "xs = d # ds" using assms(2) by (cases xs) auto
  have "d \<notin> set blank_chars" using plain_chars [OF assms(1), of d] xs by simp
  moreover have "takeWhile (\<lambda>c. \<not> (c = CHR '','' \<or> c = CHR ''}'')) (xs @ c # r) = xs"
    using plain_chars [OF assms(1)] assms(3) by (subst takeWhile_append2) auto
  ultimately show ?thesis using assms(3) by (auto simp: value_after_colon_def xs)
qed

lemma value_of_quoted:
  assumes "xs = d # ds" and "d \<notin> set blank_chars" and "quote_char \<notin> set xs"
  shows "value_after_colon (quote_char # xs @ quote_char # r) = xs"
proof -
  have "takeWhile (\<lambda>c. c \<noteq> quote_char) (xs @ quote_char # r) = xs"
    using assms(3) by (subst takeWhile_append2) auto
  moreover have "quote_char \<in> set blank_chars" by (simp add: blank_chars_def)
  ultimately show ?thesis using assms(1,2) by (simp add: value_after_colon_def)
qed

lemma extract_msg_type: "extract_string ''type'' (serialize m @ s) = type_to_string (msg_type m)"
proof -
  have v: "value_after_colon (quote_char # type_to_string t @ quote_char # r) = type_to_string t" for t r
    by (cases t; simp only: type_to_string.simps; rule value_of_quoted [OF refl])
      (simp_all add: blank_chars_def)
  show ?thesis
    by (simp add: extract_string_eq extract_spec_def serialize_def quoted_def v)
qed


lemma plain_strs [simp]: "plain (int_str i)" "plain (nat_str n)"
  by (simp_all add: int_str_chars nat_str_chars)

lemma plain_no_quote: "plain xs \<Longrightarrow> quote_char \<notin> set xs"
  using plain_chars by blast

lemma int_str_nonempty [simp]: "int_str i \<noteq> []"
  by (simp add: int_str_def)

lemmas read_back = extract_string_eq extract_spec_def serialize_def

lemma extract_numbers:
  "extract_string ''pid'' (serialize m @ s) = int_str (sint (msg_pid m))"
  "extract_string ''target_bytes'' (serialize m @ s) = nat_str (unat (msg_target m))"
  "extract_string ''current_size_bytes'' (serialize m @ s) = nat_str (unat (msg_current m))"
  "extract_string ''tier'' (serialize m @ s) = int_str (sint (msg_tier m))"
proof -
  have skip: "plain xs \<Longrightarrow> suffix_at (quote_char # k @ [quote_char]) (xs @ r) = suffix_at (quote_char # k @ [quote_char]) r"
    for xs k r using suffix_at_skip [of xs k r] plain_no_quote [of xs] by (simp add: quoted_def)
  note skips = skip [of _ "''target_bytes''", simplified] skip [of _ "''current_size_bytes''", simplified]
    skip [of _ "''tier''", simplified]
  show "extract_string ''pid'' (serialize m @ s) = int_str (sint (msg_pid m))"
    by (cases "msg_type m") (simp_all add: read_back quoted_def value_of_plain)
  show "extract_string ''target_bytes'' (serialize m @ s) = nat_str (unat (msg_target m))"
    by (cases "msg_type m") (simp_all add: read_back quoted_def value_of_plain skips)
  show "extract_string ''current_size_bytes'' (serialize m @ s) = nat_str (unat (msg_current m))"
    by (cases "msg_type m") (simp_all add: read_back quoted_def value_of_plain skips)
  show "extract_string ''tier'' (serialize m @ s) = int_str (sint (msg_tier m))"
    by (cases "msg_type m") (simp_all add: read_back quoted_def value_of_plain skips)
qed

lemma string_of_type [simp]: "string_to_type (type_to_string t) = t"
  by (cases t) (simp_all add: string_to_type_def)

lemma stoi_sint: "stoi (int_str (sint (w :: i32))) = Inr (sint w)"
proof -
  have "- 2147483648 \<le> sint w" "sint w \<le> 2147483647"
    using sint_ge [of w] sint_lt [of w] by simp_all
  from stoi_int_str [OF this, of "[]"] show ?thesis by simp
qed

lemma stoull_unat: "stoull (nat_str (unat (w :: u64))) = Inr w"
  using stoull_nat_str [of "unat w" "[]"] unsigned_less [of w] by simp

text \<open>C3: \<open>deserialize\<close> inverts \<open>serialize\<close> on every message, for all values of the
  fields at their width, whatever text follows (the frame appends a newline).\<close>

theorem protocol_roundtrip: "deserialize (serialize m @ s) = Inr m"
  by (simp add: deserialize_def read_int_field_def read_u64_field_def extract_numbers
      extract_msg_type stoi_sint stoull_unat)


theorem protocol_roundtrip_witness:
  "deserialize (serialize \<lparr>msg_type = SHRINK, msg_pid = - 7, msg_target = - 1, msg_current = 100, msg_tier = 2\<rparr>
     @ [CHR ''\<newline>'']) =
   Inr \<lparr>msg_type = SHRINK, msg_pid = - 7, msg_target = - 1, msg_current = 100, msg_tier = 2\<rparr>"
  by (rule protocol_roundtrip)


subsection \<open>Frames on the wire\<close>

lemma byte_of_inverse [simp]: "char_of_byte (byte_of c) = c"
proof -
  have "char_code c < 256" by (simp add: char_code_def)
  then have "unat (byte_of c) = char_code c" by (simp add: byte_of_def unat_of_nat)
  then show ?thesis by (simp add: char_of_byte_def char_code_def)
qed

lemma map_byte_of_inverse [simp]: "map (char_of_byte \<circ> byte_of) s = s"
  by (induction s) simp_all

lemma unat_ucast_byte: "unat (ucast (w :: u32) :: u8) = unat w mod 256"
  by (simp add: unsigned_ucast_eq take_bit_eq_mod)

lemma be32_inverse [simp]: "be32_value (be32 w) = unat w"
proof -
  let ?n = "unat w"
  have "?n < 4294967296" using unsigned_less [of w] by simp
  then have "?n div 16777216 < 256" by (simp add: less_mult_imp_div_less)
  then have d: "?n div 16777216 mod 256 = ?n div 16777216" by simp
  have "?n = 256 * (256 * (256 * (?n div 16777216) + ?n div 65536 mod 256) + ?n div 256 mod 256) + ?n mod 256"
  proof -
    have "?n = 256 * (?n div 256) + ?n mod 256" by simp
    also have "?n div 256 = 256 * (?n div 65536) + ?n div 256 mod 256"
      using mult_div_mod_eq [of 256 "?n div 256"] by (simp flip: div_mult2_eq)
    also have "?n div 65536 = 256 * (?n div 16777216) + ?n div 65536 mod 256"
      using mult_div_mod_eq [of 256 "?n div 65536"] by (simp flip: div_mult2_eq)
    finally show ?thesis .
  qed
  then show ?thesis
    by (simp add: be32_value_def be32_def unat_ucast_byte drop_bit_eq_div unat_div_distrib d)
qed

lemma length_be32 [simp]: "length (be32 w) = 4"
  by (simp add: be32_def)

lemma length_nat_str: "n < 10 ^ k \<Longrightarrow> 0 < k \<Longrightarrow> length (nat_str n) \<le> k"
proof (induction k arbitrary: n)
  case 0
  then show ?case by simp
next
  case (Suc k)
  show ?case
  proof (cases "n < 10")
    case True
    then show ?thesis by (subst nat_str.simps) simp
  next
    case False
    then have "0 < k" using Suc.prems by (cases k) simp_all
    moreover have "n div 10 < 10 ^ k" using Suc.prems by (simp add: less_mult_imp_div_less)
    ultimately show ?thesis using Suc.IH [of "n div 10"] False by (subst nat_str.simps) simp
  qed
qed

lemma length_u64_str: "length (nat_str (unat (w :: u64))) \<le> 20"
proof -
  have "unat w < 10 ^ 20" by (rule less_trans [OF unat_lt_u64]) simp
  then show ?thesis by (rule length_nat_str) simp
qed

lemma length_i32_str: "length (int_str (sint (w :: i32))) \<le> 11"
proof -
  have "- 2147483648 \<le> sint w" "sint w \<le> 2147483647"
    using sint_ge [of w] sint_lt [of w] by simp_all
  then have "nat (sint w) < 10 ^ 10" "nat (- sint w) < 10 ^ 10" by (simp_all add: nat_less_iff)
  from this [THEN length_nat_str] show ?thesis by (auto simp: int_str_def intro: le_trans)
qed

lemma length_serialize: "length (serialize m) \<le> 145"
  using length_u64_str [of "msg_target m"] length_u64_str [of "msg_current m"]
    length_i32_str [of "msg_pid m"] length_i32_str [of "msg_tier m"]
  by (cases "msg_type m") (simp_all add: serialize_def quoted_def)

definition payload_of :: "message \<Rightarrow> string" where
  "payload_of m = serialize m @ [CHR ''\<newline>'']"

lemma frame_eq: "frame m = be32 (of_nat (length (payload_of m))) @ map byte_of (payload_of m)"
  by (simp add: frame_def payload_of_def Let_def)

lemma payload_bounds: "1 \<le> length (payload_of m)" "length (payload_of m) \<le> 146"
  using length_serialize [of m] by (simp_all add: payload_of_def)

lemma payload_nonempty [simp]: "payload_of m \<noteq> []"
  by (simp add: payload_of_def)

lemma payload_roundtrip [simp]: "deserialize (payload_of m) = Inr m"
  by (simp add: payload_of_def deserialize_def read_int_field_def read_u64_field_def extract_numbers
      extract_msg_type stoi_sint stoull_unat)

text \<open>A frame is four length bytes, most significant first, followed by exactly
  that many payload bytes, which read back as the message. The length is between 1 and
  146, so it never wraps in its 32 bits and the client's limit of 65536 always admits it.\<close>

theorem frame_layout:
  "be32_value (take 4 (frame m)) = length (drop 4 (frame m)) \<and>
   deserialize (map char_of_byte (drop 4 (frame m))) = Inr m \<and>
   1 \<le> be32_value (take 4 (frame m)) \<and> be32_value (take 4 (frame m)) \<le> 146"
proof -
  have u: "unat (of_nat (length (payload_of m)) :: u32) = length (payload_of m)"
    using payload_bounds [of m] by (simp add: unat_of_nat)
  show ?thesis using payload_bounds [of m] by (simp add: frame_eq u)
qed

subsection \<open>The lookup of a field\<close>

text \<open>C21: The field lookup of the reader, which works on positions with \<open>npos\<close> tests, is for every
  text (well-formed JSON or not) and every key the plain description: find the first quoted
  key, then the first colon after it, skip blanks and an opening quote, and take what stands
  before the closing quote, or else before a comma or brace; the empty string when any of these
  is missing.\<close>

theorem extract_string_equals_spec: "extract_string key json = extract_spec key json"
  by (rule extract_string_eq)

end
