(* ===== verification/Sockets.thy ===== *)
theory Sockets
  imports Protocol
begin

text \<open>
  What the system calls on a stream socket return. The calls are not code of the repository,
  so their results are inputs of the model: the list of things that the successive \<open>read\<close>
  (or \<open>write\<close>) calls on one descriptor meet. A \<open>read\<close> takes at most the bytes it asked for
  and leaves the rest for the next call. When the list is used up nothing more arrives.
\<close>

subsection \<open>Reading\<close>

datatype io_in = Bytes "u8 list" | Eof | Again | Fail

text \<open>\<open>read(fd, buf, n)\<close> for positive \<open>n\<close>: what it returns and what is left. No bytes at all is
  the end of the stream; an empty list is a peer that stays silent.\<close>

fun sys_read :: "nat \<Rightarrow> io_in list \<Rightarrow> io_in \<times> io_in list" where
  "sys_read n [] = (Again, [])"
| "sys_read n (Bytes bs # s) =
     (if bs = [] then (Eof, s)
      else if length bs \<le> n then (Bytes bs, s)
      else (Bytes (take n bs), Bytes (drop n bs) # s))"
| "sys_read n (e # s) = (e, s)"

fun in_size :: "io_in list \<Rightarrow> nat" where
  "in_size [] = 0"
| "in_size (Bytes bs # s) = Suc (length bs) + in_size s"
| "in_size (e # s) = Suc (in_size s)"

lemma sys_read_size: "0 < n \<Longrightarrow> s \<noteq> [] \<Longrightarrow> in_size (snd (sys_read n s)) < in_size s"
  by (cases "(n, s)" rule: sys_read.cases) auto

lemma sys_read_bytes:
  "fst (sys_read n s) = Bytes bs \<Longrightarrow> 0 < n \<Longrightarrow> bs \<noteq> [] \<and> length bs \<le> n"
  by (cases "(n, s)" rule: sys_read.cases) (auto split: if_splits)

text \<open>The result of reading a whole payload: its bytes, a dead peer, or a read that is still
  waiting when the input is used up.\<close>

datatype payload_read = Payload "u8 list" | Gone | Starved

subsection \<open>Two readers of a payload\<close>

text \<open>The loop of \<open>ClientRegistry::handle_client_message\<close>: the socket is non-blocking, and
  \<open>EAGAIN\<close> is retried at once.\<close>

function read_spinning :: "nat \<Rightarrow> u8 list \<Rightarrow> io_in list \<Rightarrow> payload_read \<times> io_in list" where
  "read_spinning n got s =
     (if n \<le> length got then (Payload got, s)
      else if s = [] then (Starved, [])
      else case sys_read (n - length got) s of
        (Bytes bs, s') \<Rightarrow> read_spinning n (got @ bs) s'
      | (Eof, s') \<Rightarrow> (Gone, s')
      | (Again, s') \<Rightarrow> read_spinning n got s'
      | (Fail, s') \<Rightarrow> (Gone, s'))"
  by pat_completeness auto
termination
proof (relation "measure (\<lambda>(n, got, s). in_size s)", simp_all, goal_cases)
  case (1 n got s x bs)
  then show ?case using sys_read_size [of "n - length got" s] by (metis diff_is_0_eq not_gr_zero snd_conv)
next
  case (2 n got s x)
  then show ?case using sys_read_size [of "n - length got" s] by (metis diff_is_0_eq not_gr_zero snd_conv)
qed

text \<open>The loop of \<open>GovernorClient::listener_loop\<close>: the socket is blocking, and every result
  that is not positive ends the connection.\<close>

function read_blocking :: "nat \<Rightarrow> u8 list \<Rightarrow> io_in list \<Rightarrow> payload_read \<times> io_in list" where
  "read_blocking n got s =
     (if n \<le> length got then (Payload got, s)
      else if s = [] then (Starved, [])
      else case sys_read (n - length got) s of
        (Bytes bs, s') \<Rightarrow> read_blocking n (got @ bs) s'
      | (_, s') \<Rightarrow> (Gone, s'))"
  by pat_completeness auto
termination
proof (relation "measure (\<lambda>(n, got, s). in_size s)", simp_all, goal_cases)
  case (1 n got s x bs)
  then show ?case using sys_read_size [of "n - length got" s] by (metis diff_is_0_eq not_gr_zero snd_conv)
qed

declare read_spinning.simps [simp del] read_blocking.simps [simp del]

subsection \<open>What the readers have in common\<close>

text \<open>The contract of a payload reader: it stops when it has what it was asked for, and it
  appends what one \<open>read\<close> gave.\<close>

locale payload_reader =
  fixes rd :: "nat \<Rightarrow> u8 list \<Rightarrow> io_in list \<Rightarrow> payload_read \<times> io_in list"
  assumes rd_done: "n \<le> length got \<Longrightarrow> rd n got s = (Payload got, s)"
    and rd_chunk: "length got < n \<Longrightarrow> fst (sys_read (n - length got) s) = Bytes bs \<Longrightarrow>
      rd n got s = rd n (got @ bs) (snd (sys_read (n - length got) s))"
    and rd_starved: "length got < n \<Longrightarrow> rd n got [] = (Starved, [])"
begin

text \<open>However the bytes of a stream are cut into chunks, a payload is its next bytes.\<close>

lemma rd_take:
  "length got < n \<Longrightarrow> n - length got < length bs \<Longrightarrow>
   rd n got (Bytes bs # s) = (Payload (got @ take (n - length got) bs), Bytes (drop (n - length got) bs) # s)"
  by (subst rd_chunk) (auto simp: rd_done)

lemma rd_all:
  "length got < n \<Longrightarrow> bs \<noteq> [] \<Longrightarrow> length bs \<le> n - length got \<Longrightarrow>
   rd n got (Bytes bs # s) = rd n (got @ bs) s"
  by (subst rd_chunk) auto

end

interpretation spinning: payload_reader read_spinning
proof
  fix n got s bs
  show "n \<le> length got \<Longrightarrow> read_spinning n got s = (Payload got, s)" by (subst read_spinning.simps) simp
  show "length got < n \<Longrightarrow> read_spinning n got [] = (Starved, [])" by (subst read_spinning.simps) simp
  show "read_spinning n got s = read_spinning n (got @ bs) (snd (sys_read (n - length got) s))"
    if "length got < n" "fst (sys_read (n - length got) s) = Bytes bs"
    using that by (cases s; subst read_spinning.simps) (auto simp: case_prod_beta)
qed

interpretation blocking: payload_reader read_blocking
proof
  fix n got s bs
  show "n \<le> length got \<Longrightarrow> read_blocking n got s = (Payload got, s)" by (subst read_blocking.simps) simp
  show "length got < n \<Longrightarrow> read_blocking n got [] = (Starved, [])" by (subst read_blocking.simps) simp
  show "read_blocking n got s = read_blocking n (got @ bs) (snd (sys_read (n - length got) s))"
    if "length got < n" "fst (sys_read (n - length got) s) = Bytes bs"
    using that by (cases s; subst read_blocking.simps) (auto simp: case_prod_beta)
qed

subsection \<open>Streams cut into chunks\<close>

fun drop_bytes :: "nat \<Rightarrow> u8 list list \<Rightarrow> u8 list list" where
  "drop_bytes n [] = []"
| "drop_bytes n (c # cs) =
     (if n = 0 then c # cs
      else if length c \<le> n then drop_bytes (n - length c) cs
      else drop n c # cs)"

abbreviation no_empty :: "u8 list list \<Rightarrow> bool" where
  "no_empty cs \<equiv> list_all (\<lambda>c. c \<noteq> []) cs"

lemma drop_bytes_0 [simp]: "drop_bytes 0 cs = cs"
  by (cases cs) simp_all

lemma concat_drop_bytes [simp]: "concat (drop_bytes n cs) = drop n (concat cs)"
  by (induction n cs rule: drop_bytes.induct) auto

lemma no_empty_drop_bytes: "no_empty cs \<Longrightarrow> no_empty (drop_bytes n cs)"
  by (induction n cs rule: drop_bytes.induct) auto

lemma drop_bytes_add: "drop_bytes m (drop_bytes n cs) = drop_bytes (n + m) cs"
  by (induction n cs rule: drop_bytes.induct) (auto simp: add.commute)

context payload_reader begin

lemma rd_short:
  "no_empty cs \<Longrightarrow> length got + length (concat cs) < n \<Longrightarrow> rd n got (map Bytes cs) = (Starved, [])"
proof (induction cs arbitrary: got)
  case Nil
  then show ?case by (simp add: rd_starved)
next
  case (Cons c cs)
  then have "rd n got (map Bytes (c # cs)) = rd n (got @ c) (map Bytes cs)" by (simp add: rd_all)
  with Cons show ?case by simp
qed

lemma rd_stream:
  assumes "no_empty cs" and "length got \<le> n" and "n \<le> length got + length (concat cs)"
  shows "rd n got (map Bytes cs @ s) =
    (Payload (got @ take (n - length got) (concat cs)), map Bytes (drop_bytes (n - length got) cs) @ s)"
  using assms
proof (induction cs arbitrary: got)
  case Nil
  then show ?case by (simp add: rd_done)
next
  case (Cons c cs)
  consider "length got = n" | "length got < n" "length c \<le> n - length got"
    | "length got < n" "n - length got < length c"
    using Cons.prems by linarith
  then show ?case
  proof cases
    case 1
    then show ?thesis by (simp add: rd_done)
  next
    case 2
    then have "rd n got (map Bytes (c # cs) @ s) = rd n (got @ c) (map Bytes cs @ s)"
      using Cons.prems by (simp add: rd_all)
    also have "\<dots> = (Payload ((got @ c) @ take (n - length (got @ c)) (concat cs)),
        map Bytes (drop_bytes (n - length (got @ c)) cs) @ s)"
      using 2 Cons.prems by (intro Cons.IH) simp_all
    finally show ?thesis using 2 by simp
  next
    case 3
    then show ?thesis by (simp add: rd_take)
  qed
qed

end

lemma sys_read_stream:
  assumes "n \<le> length c" and "0 < n"
  shows "sys_read n (map Bytes (c # cs) @ s) = (Bytes (take n c), map Bytes (drop_bytes n (c # cs)) @ s)"
  using assms by auto

text \<open>The chunks carry the frames of the messages one after the other, and whenever a reader
  gets to a frame the whole header is there to read.\<close>

fun carries :: "message list \<Rightarrow> u8 list list \<Rightarrow> bool" where
  "carries [] cs = (cs = [])"
| "carries (m # ms) cs =
     (cs \<noteq> [] \<and> 4 \<le> length (hd cs) \<and> take (length (frame m)) (concat cs) = frame m \<and>
      carries ms (drop_bytes (length (frame m)) cs))"

lemma length_frame: "length (frame m) = 4 + length (payload_of m)"
  by (simp add: frame_eq)

text \<open>Frames that were written one per chunk, and frames that piled up into one chunk.\<close>

lemma carries_one_each: "carries ms (map frame ms)"
  by (induction ms) (simp_all add: length_frame)

lemma no_empty_frames: "no_empty (map frame ms)"
proof -
  have "frame m \<noteq> []" for m using length_frame [of m] by auto
  then show ?thesis by (simp add: list_all_iff)
qed

text \<open>Frames may be written while others are on the way.\<close>

lemma drop_bytes_append: "n \<le> length (concat cs) \<Longrightarrow> drop_bytes n (cs @ ds) = drop_bytes n cs @ ds"
  by (induction n cs rule: drop_bytes.induct) auto

lemma carries_append: "carries ms cs \<Longrightarrow> carries (ms @ ms') (cs @ map frame ms')"
proof (induction ms arbitrary: cs)
  case Nil
  then show ?case by (simp add: carries_one_each)
next
  case (Cons m ms)
  then have f: "take (length (frame m)) (concat cs) = frame m" by simp
  then have le: "length (frame m) \<le> length (concat cs)" by (metis length_take min.cobounded1)
  have "carries (ms @ ms') (drop_bytes (length (frame m)) (cs @ map frame ms'))"
    unfolding drop_bytes_append [OF le] using Cons by simp
  then show ?case using Cons.prems f le by simp
qed

text \<open>Reading one frame off the stream: the four header bytes, then the payload they announce.\<close>

lemma carries_Cons:
  assumes "carries (m # ms) cs" and "no_empty cs"
  defines "n \<equiv> length (payload_of m)"
  obtains hdr cs1 where
    "sys_read 4 (map Bytes cs @ s) = (Bytes hdr, map Bytes cs1 @ s)"
    "length hdr = 4" "be32_value hdr = n" "no_empty cs1"
    "take n (concat cs1) = map byte_of (payload_of m)" "n \<le> length (concat cs1)"
    "carries ms (drop_bytes n cs1)" "no_empty (drop_bytes n cs1)"
proof -
  obtain c cs' where cs: "cs = c # cs'" "4 \<le> length c"
    and f: "take (length (frame m)) (concat cs) = frame m"
    and rest: "carries ms (drop_bytes (length (frame m)) cs)"
    using assms(1) by (cases cs) auto
  let ?cs1 = "drop_bytes 4 cs"
  have "take 4 (frame m) = take 4 (take (length (frame m)) (concat cs))" unfolding f ..
  also have "\<dots> = take 4 (concat cs)" by (simp add: length_frame min_def)
  also have "\<dots> = take 4 c" using cs(2) by (simp add: cs(1))
  finally have hdr: "take 4 c = take 4 (frame m)" ..
  have len: "length (take 4 c) = 4" using cs by simp
  have be: "be32_value (take 4 c) = n"
    using frame_layout [of m] unfolding hdr by (simp add: length_frame n_def)
  have "take n (drop 4 (concat cs)) = drop 4 (take (length (frame m)) (concat cs))"
    by (simp add: drop_take length_frame n_def)
  then have p: "take n (concat ?cs1) = map byte_of (payload_of m)"
    unfolding f by (simp add: frame_eq)
  then have "length (take n (concat ?cs1)) = n" by (simp add: n_def)
  then have le: "n \<le> length (concat ?cs1)" by (simp add: min_def split: if_splits)
  have "drop_bytes n ?cs1 = drop_bytes (length (frame m)) cs"
    by (simp add: drop_bytes_add length_frame n_def)
  with rest assms(2) have r: "carries ms (drop_bytes n ?cs1)" "no_empty (drop_bytes n ?cs1)"
    by (simp_all add: no_empty_drop_bytes)
  show ?thesis
  proof (rule that)
    show "sys_read 4 (map Bytes cs @ s) = (Bytes (take 4 c), map Bytes ?cs1 @ s)"
      using sys_read_stream [OF cs(2), of cs' s] by (simp add: cs(1))
  qed (use len be p le r assms(2) in \<open>simp_all add: no_empty_drop_bytes del: concat_drop_bytes\<close>)
qed

subsection \<open>Writing\<close>

datatype io_out = Wrote nat | WAgain | WFail

text \<open>\<open>write\<close> accepts at most what it was offered.\<close>

definition accepted :: "nat \<Rightarrow> u8 list \<Rightarrow> nat" where
  "accepted k bs = min k (length bs)"


text \<open>The bytes a socket takes over a list of write results.\<close>

fun room :: "io_out list \<Rightarrow> nat" where
  "room [] = 0"
| "room (Wrote k # ws) = k + room ws"
| "room (_ # ws) = room ws"

lemma length_frame_le: "length (frame m) \<le> 150"
  using payload_bounds(2) [of m] by (simp add: length_frame)

lemma sys_read_size_le: "in_size (snd (sys_read n s)) \<le> in_size s"
  by (cases "(n, s)" rule: sys_read.cases) auto

lemma read_spinning_size: "in_size (snd (read_spinning n got s)) \<le> in_size s"
proof (induction "in_size s" arbitrary: got s rule: less_induct)
  case less
  show ?case
  proof (cases "n \<le> length got \<or> s = []")
    case True
    then show ?thesis by (subst read_spinning.simps) auto
  next
    case False
    obtain e s' where e: "sys_read (n - length got) s = (e, s')" by fastforce
    then have lt: "in_size s' < in_size s" using sys_read_size [of "n - length got" s] False by simp
    have "in_size (snd (read_spinning n g s')) \<le> in_size s" for g
      using less(1) [OF lt, of g] lt by linarith
    with e False lt show ?thesis
      by (cases e; subst read_spinning.simps) simp_all
  qed
qed

lemma read_blocking_size: "in_size (snd (read_blocking n got s)) \<le> in_size s"
proof (induction "in_size s" arbitrary: got s rule: less_induct)
  case less
  show ?case
  proof (cases "n \<le> length got \<or> s = []")
    case True
    then show ?thesis by (subst read_blocking.simps) auto
  next
    case False
    obtain e s' where e: "sys_read (n - length got) s = (e, s')" by fastforce
    then have lt: "in_size s' < in_size s" using sys_read_size [of "n - length got" s] False by simp
    have "in_size (snd (read_blocking n g s')) \<le> in_size s" for g
      using less(1) [OF lt, of g] lt by linarith
    with e False lt show ?thesis
      by (cases e; subst read_blocking.simps) simp_all
  qed
qed

end
