(* ===== verification/Client_Registry.thy ===== *)
theory Client_Registry
  imports Sockets "HOL-Library.AList"
begin

text \<open>
  \<open>src/governor/client_registry.cpp\<close>: the table of connected caches, the epoll loop that
  fills it, the reader of framed messages, and the two broadcasts. Results of system calls
  are inputs (theory Sockets). The state keeps, beside the members of the class, what the
  kernel keeps for it: the open connections, the descriptors epoll watches, and a log of the
  calls of \<open>close\<close>, the latest first. \<open>connected_at\<close> is written but never read and is left out.
\<close>

record client_info =
  ci_fd :: int
  ci_pid :: i32
  ci_current :: u64
  ci_min :: u64

text \<open>The unordered map is an association list in its iteration order.\<close>

record registry =
  listen_fd :: int
  epoll_fd :: int
  reg_running :: bool
  clients :: "(int \<times> client_info) list"
  conns :: "int list"
  watched :: "int list"
  close_log :: "int list"

definition registry_new :: registry where
  "registry_new = \<lparr>listen_fd = - 1, epoll_fd = - 1, reg_running = False, clients = [],
     conns = [], watched = [], close_log = []\<rparr>"

text \<open>A handler either returns or is stuck in a loop that no input ends.\<close>

datatype 's handled = Returned (handled_state: 's) | Spinning (handled_state: 's)

subsection \<open>Start and stop\<close>

record start_env =
  got_socket :: "int option"
  bind_ok :: bool
  listen_ok :: bool
  got_epoll :: "int option"
  ctl_ok :: bool

definition close_fd :: "int \<Rightarrow> registry \<Rightarrow> registry" where
  "close_fd fd r = r\<lparr>conns := removeAll fd (conns r), watched := removeAll fd (watched r),
     close_log := fd # close_log r\<rparr>"

text \<open>The exception thrown, if any, and the state it leaves.\<close>

definition registry_start :: "start_env \<Rightarrow> registry \<Rightarrow> cpp_exception option \<times> registry" where
  "registry_start e r =
     (if reg_running r then (None, r)
      else let r = r\<lparr>reg_running := True\<rparr> in
      case got_socket e of
        None \<Rightarrow> (Some (RuntimeError ''Failed to create socket''), r\<lparr>listen_fd := - 1\<rparr>)
      | Some l \<Rightarrow>
      let r = r\<lparr>listen_fd := l\<rparr> in
      if \<not> bind_ok e then (Some (RuntimeError ''Failed to bind socket''), close_fd l r)
      else if \<not> listen_ok e then (Some (RuntimeError ''Failed to listen on socket''), close_fd l r)
      else case got_epoll e of
        None \<Rightarrow> (Some (RuntimeError ''Failed to create epoll fd''), close_fd l (r\<lparr>epoll_fd := - 1\<rparr>))
      | Some p \<Rightarrow>
      let r = r\<lparr>epoll_fd := p\<rparr> in
      if \<not> ctl_ok e
      then (Some (RuntimeError ''Failed to add listen fd to epoll''), close_fd p (close_fd l r))
      else (None, r))"

definition registry_stop :: "registry \<Rightarrow> registry" where
  "registry_stop r =
     (if \<not> reg_running r then r
      else let r = r\<lparr>reg_running := False\<rparr>;
               r = (if listen_fd r \<noteq> - 1 then (close_fd (listen_fd r) r)\<lparr>listen_fd := - 1\<rparr> else r);
               r = (if epoll_fd r \<noteq> - 1 then (close_fd (epoll_fd r) r)\<lparr>epoll_fd := - 1\<rparr> else r);
               r = fold (close_fd \<circ> fst) (clients r) r
           in r\<lparr>clients := []\<rparr>)"

definition registry_destroy :: "registry \<Rightarrow> registry" where
  "registry_destroy r = registry_stop r"

subsection \<open>Connections\<close>

text \<open>What \<open>accept\<close> returns: a descriptor and whether \<open>epoll_ctl\<close> then takes it, \<open>EAGAIN\<close>, or
  another error.\<close>

datatype accept_result = Accepted int bool | AcceptAgain | AcceptError

definition add_client :: "int \<Rightarrow> registry \<Rightarrow> registry" where
  "add_client fd r =
     r\<lparr>clients := AList.update fd \<lparr>ci_fd = fd, ci_pid = 0, ci_current = 0, ci_min = 0\<rparr> (clients r),
       conns := List.insert fd (conns r), watched := List.insert fd (watched r)\<rparr>"

fun handle_new_connection :: "accept_result list \<Rightarrow> registry \<Rightarrow> registry handled" where
  "handle_new_connection [] r = Spinning r"
| "handle_new_connection (AcceptAgain # xs) r = Returned r"
| "handle_new_connection (AcceptError # xs) r = handle_new_connection xs r"
| "handle_new_connection (Accepted fd ok # xs) r =
     handle_new_connection xs (if ok then add_client fd r else r\<lparr>close_log := fd # close_log r\<rparr>)"

definition remove_client :: "int \<Rightarrow> registry \<Rightarrow> registry" where
  "remove_client fd r = (case map_of (clients r) fd of
     None \<Rightarrow> r
   | Some _ \<Rightarrow> (close_fd fd r)\<lparr>clients := AList.delete fd (clients r)\<rparr>)"

subsection \<open>Messages from a client\<close>

definition apply_message :: "int \<Rightarrow> message \<Rightarrow> registry \<Rightarrow> registry" where
  "apply_message fd msg r = (case map_of (clients r) fd of
     None \<Rightarrow> r
   | Some c \<Rightarrow>
       if msg_type msg = REGISTER
       then r\<lparr>clients := AList.update fd (c\<lparr>ci_pid := msg_pid msg, ci_current := msg_current msg\<rparr>) (clients r)\<rparr>
       else if msg_type msg = REPORT_SIZE
       then r\<lparr>clients := AList.update fd (c\<lparr>ci_current := msg_current msg\<rparr>) (clients r)\<rparr>
       else r)"

text \<open>Every exception of the parser is swallowed.\<close>

definition receive :: "int \<Rightarrow> u8 list \<Rightarrow> registry \<Rightarrow> registry" where
  "receive fd p r = (case deserialize (map char_of_byte p) of
     Inl _ \<Rightarrow> r
   | Inr msg \<Rightarrow> apply_message fd msg r)"

text \<open>A short read of the header is dropped and the loop goes on with the bytes behind it.\<close>

function handle_client_message :: "int \<Rightarrow> io_in list \<Rightarrow> registry \<Rightarrow> registry handled \<times> io_in list" where
  "handle_client_message fd s r =
     (case sys_read 4 s of
        (Again, s') \<Rightarrow> (Returned r, s')
      | (Fail, s') \<Rightarrow> (Returned (remove_client fd r), s')
      | (Eof, s') \<Rightarrow> (Returned (remove_client fd r), s')
      | (Bytes hdr, s') \<Rightarrow>
          if length hdr < 4 then handle_client_message fd s' r
          else (case read_spinning (be32_value hdr) [] s' of
              (Gone, s'') \<Rightarrow> (Returned (remove_client fd r), s'')
            | (Starved, s'') \<Rightarrow> (Spinning r, s'')
            | (Payload p, s'') \<Rightarrow> handle_client_message fd s'' (receive fd p r)))"
  by pat_completeness auto
termination
proof (relation "measure (\<lambda>(fd, s, r). in_size s)", goal_cases)
  case 1
  show ?case by simp
next
  case prems: (2 fd s r x y hdr)
  then show ?case using sys_read_size [of 4 s] by (cases s) (auto simp: prod_eq_iff)
next
  case prems: (3 fd s r x y hdr z w p)
  then show ?case
    using sys_read_size [of 4 s] read_spinning_size [of "be32_value hdr" "[]" y]
    by (cases s) (auto simp: prod_eq_iff)
qed

declare handle_client_message.simps [simp del]

subsection \<open>The event loop\<close>

text \<open>A readiness event, with what the calls made while handling it will meet.\<close>

record epoll_event =
  ev_fd :: int
  ev_in :: bool
  ev_err :: bool
  ev_hup :: bool
  ev_accepts :: "accept_result list"
  ev_reads :: "io_in list"

definition handle_event :: "epoll_event \<Rightarrow> registry \<Rightarrow> registry handled" where
  "handle_event ev r =
     (if ev_fd ev = listen_fd r then handle_new_connection (ev_accepts ev) r
      else if ev_err ev \<or> ev_hup ev \<or> \<not> ev_in ev then Returned (remove_client (ev_fd ev) r)
      else fst (handle_client_message (ev_fd ev) (ev_reads ev) r))"

fun handle_events :: "epoll_event list \<Rightarrow> registry \<Rightarrow> registry handled" where
  "handle_events [] r = Returned r"
| "handle_events (ev # evs) r = (case handle_event ev r of
     Spinning r' \<Rightarrow> Spinning r'
   | Returned r' \<Rightarrow> handle_events evs r')"

text \<open>What \<open>epoll_wait\<close> returns: events (none on a timeout), \<open>EINTR\<close>, or another error.\<close>

datatype wait_result = Woken "epoll_event list" | Interrupted | WaitError

fun run_event_loop :: "wait_result list \<Rightarrow> registry \<Rightarrow> registry handled" where
  "run_event_loop [] r = Returned r"
| "run_event_loop (w # ws) r =
     (if \<not> reg_running r then Returned r
      else case w of
        Interrupted \<Rightarrow> run_event_loop ws r
      | WaitError \<Rightarrow> Returned r
      | Woken evs \<Rightarrow> (case handle_events evs r of
          Spinning r' \<Rightarrow> Spinning r'
        | Returned r' \<Rightarrow> run_event_loop ws r'))"

subsection \<open>Broadcasts\<close>

text \<open>The write loop: \<open>EAGAIN\<close> is retried at once, another error gives up. The bytes delivered
  to the peer, and whether the loop is still retrying when the results are used up.\<close>

fun write_all :: "u8 list \<Rightarrow> io_out list \<Rightarrow> u8 list \<times> bool" where
  "write_all bs [] = ([], bs \<noteq> [])"
| "write_all bs (w # ws) =
     (if bs = [] then ([], False)
      else case w of
        Wrote k \<Rightarrow> (let n = accepted k bs; (d, h) = write_all (drop n bs) ws in (take n bs @ d, h))
      | WAgain \<Rightarrow> write_all bs ws
      | WFail \<Rightarrow> ([], False))"

definition send_to_client :: "message \<Rightarrow> io_out list \<Rightarrow> u8 list \<times> bool" where
  "send_to_client msg ws = write_all (frame msg) ws"

text \<open>The targets: the product is a double, and its conversion back is undefined out of range.\<close>

definition shrink_target :: "double \<Rightarrow> u64 \<Rightarrow> u64 option" where
  "shrink_target fraction cur = dbl_to_u64 (dbl_mul (dbl_of_u64 cur) (dbl_sub (Finite 1) fraction))"

definition grow_target :: "double \<Rightarrow> u64 \<Rightarrow> u64 option" where
  "grow_target fraction cur = dbl_to_u64 (dbl_mul (dbl_of_u64 cur) (dbl_add (Finite 1) fraction))"

text \<open>One message per client in iteration order, with the results of the writes of each
  descriptor. The result lists what each client received; the flag tells that the last of
  them is being retried for ever, with the mutex held.\<close>

fun broadcast :: "message_type \<Rightarrow> (u64 \<Rightarrow> u64 option) \<Rightarrow> (int \<Rightarrow> io_out list) \<Rightarrow>
    (int \<times> client_info) list \<Rightarrow> ((int \<times> u8 list) list \<times> bool) option" where
  "broadcast ty target ws [] = Some ([], False)"
| "broadcast ty target ws ((fd, c) # cs) = do {
     t \<leftarrow> target (ci_current c);
     let (d, stuck) = send_to_client (message_default\<lparr>msg_type := ty, msg_target := t\<rparr>) (ws fd);
     if stuck then Some ([(fd, d)], True)
     else do {
       (ds, stuck') \<leftarrow> broadcast ty target ws cs;
       Some ((fd, d) # ds, stuck')
     }
   }"

definition broadcast_shrink :: "double \<Rightarrow> (int \<Rightarrow> io_out list) \<Rightarrow> registry \<Rightarrow> ((int \<times> u8 list) list \<times> bool) option" where
  "broadcast_shrink fraction ws r = broadcast SHRINK (shrink_target fraction) ws (clients r)"

definition broadcast_grow :: "double \<Rightarrow> (int \<Rightarrow> io_out list) \<Rightarrow> registry \<Rightarrow> ((int \<times> u8 list) list \<times> bool) option" where
  "broadcast_grow fraction ws r = broadcast GROW (grow_target fraction) ws (clients r)"

definition get_client_count :: "registry \<Rightarrow> nat" where
  "get_client_count r = length (clients r)"

definition get_total_cache_size :: "registry \<Rightarrow> u64" where
  "get_total_cache_size r = foldl (\<lambda>total p. total + ci_current (snd p)) 0 (clients r)"

subsection \<open>The table and the kernel agree\<close>

definition registry_ok :: "registry \<Rightarrow> bool" where
  "registry_ok r \<longleftrightarrow> distinct (map fst (clients r)) \<and> list_all (\<lambda>(fd, c). ci_fd c = fd) (clients r) \<and>
     set (conns r) = fst ` set (clients r) \<and> set (watched r) = fst ` set (clients r)"

lemma clients_update_same:
  assumes "list_all (\<lambda>(fd, c). ci_fd c = fd) cs" and "ci_fd c = fd"
  shows "list_all (\<lambda>(fd, c). ci_fd c = fd) (AList.update fd c cs)"
  using assms by (induction cs) auto

lemma clients_delete_same:
  "list_all (\<lambda>(fd, c). ci_fd c = fd) cs \<Longrightarrow> list_all (\<lambda>(fd, c). ci_fd c = fd) (AList.delete fd cs)"
  by (auto simp: list_all_iff AList.delete_eq)

lemma keys_delete: "fst ` set (AList.delete fd cs) = fst ` set cs - {fd}"
  by (metis delete_keys list.set_map set_removeAll)

lemma add_client_ok: "registry_ok r \<Longrightarrow> registry_ok (add_client fd r)"
  by (simp add: registry_ok_def add_client_def distinct_update clients_update_same dom_update)

lemma remove_client_ok: "registry_ok r \<Longrightarrow> registry_ok (remove_client fd r)"
  by (auto simp: registry_ok_def remove_client_def close_fd_def distinct_delete clients_delete_same
      keys_delete split: option.split)

lemma apply_message_ok: "registry_ok r \<Longrightarrow> registry_ok (apply_message fd m r)"
proof -
  assume ok: "registry_ok r"
  have upd: "registry_ok (r\<lparr>clients := AList.update fd c' (clients r)\<rparr>)"
    if "map_of (clients r) fd = Some c" "ci_fd c' = ci_fd c" for c c'
  proof -
    have "(fd, c) \<in> set (clients r)" using that(1) by (rule map_of_SomeD)
    then have "ci_fd c' = fd" "insert fd (fst ` set (clients r)) = fst ` set (clients r)"
      using ok that(2) by (force simp: registry_ok_def list_all_iff)+
    then show ?thesis
      using ok by (simp add: registry_ok_def distinct_update clients_update_same dom_update)
  qed
  show ?thesis using ok by (auto simp: apply_message_def split: option.split intro!: upd)
qed

text \<open>What the event loop does to the registry, it does with four operations; a property that
  these keep is kept by the whole loop.\<close>

locale table_property =
  fixes P :: "registry \<Rightarrow> bool"
  assumes add_keeps: "P r \<Longrightarrow> P (add_client fd r)"
    and remove_keeps: "P r \<Longrightarrow> P (remove_client fd r)"
    and apply_keeps: "P r \<Longrightarrow> P (apply_message fd m r)"
    and reject_keeps: "P r \<Longrightarrow> P (r\<lparr>close_log := fd # close_log r\<rparr>)"
begin

lemma receive_keeps: "P r \<Longrightarrow> P (receive fd p r)"
  by (simp add: receive_def apply_keeps split: sum.split)

lemma new_connection_keeps: "P r \<Longrightarrow> P (handled_state (handle_new_connection xs r))"
  by (induction xs r rule: handle_new_connection.induct) (simp_all add: add_keeps reject_keeps)

lemma client_message_keeps: "P r \<Longrightarrow> P (handled_state (fst (handle_client_message fd s r)))"
proof (induction "in_size s" arbitrary: s r rule: less_induct)
  case less
  note ih = less.hyps and ok = less.prems
  obtain e s' where e: "sys_read 4 s = (e, s')" by fastforce
  show ?case
  proof (cases e)
    case (Bytes hdr)
    then have "s \<noteq> []" using e by auto
    then have lt: "in_size s' < in_size s" using sys_read_size [of 4 s] e by simp
    obtain x s'' where x: "read_spinning (be32_value hdr) [] s' = (x, s'')" by fastforce
    then have "in_size s'' < in_size s" using read_spinning_size [of "be32_value hdr" "[]" s'] lt by simp
    then have "P (handled_state (fst (handle_client_message fd s'' (receive fd p r))))" for p
      by (rule ih) (rule receive_keeps [OF ok])
    moreover have "P (handled_state (fst (handle_client_message fd s' r)))"
      using lt ok by (rule ih)
    ultimately show ?thesis using e Bytes x ok
      by (subst handle_client_message.simps) (auto simp: remove_keeps split: payload_read.split)
  qed (use e ok in \<open>subst handle_client_message.simps; simp add: remove_keeps\<close>)+
qed

lemma event_keeps: "P r \<Longrightarrow> P (handled_state (handle_event ev r))"
  by (simp add: handle_event_def new_connection_keeps remove_keeps client_message_keeps)

lemma events_keep: "P r \<Longrightarrow> P (handled_state (handle_events evs r))"
proof (induction evs arbitrary: r)
  case (Cons ev evs)
  then show ?case using event_keeps [of r ev] by (auto split: handled.split)
qed simp

lemma loop_keeps: "P r \<Longrightarrow> P (handled_state (run_event_loop ws r))"
proof (induction ws arbitrary: r)
  case (Cons w ws)
  show ?case
  proof (cases w)
    case (Woken evs)
    then show ?thesis using Cons events_keep [of r evs] by (cases "handle_events evs r") simp_all
  qed (use Cons in simp_all)
qed simp

end

interpretation rok: table_property registry_ok
  by unfold_locales (fact add_client_ok remove_client_ok apply_message_ok | simp add: registry_ok_def)+

text \<open>The loop never touches the descriptors of the registry itself, nor its flag.\<close>

definition loop_ids :: "registry \<Rightarrow> int \<times> int \<times> bool" where
  "loop_ids r = (listen_fd r, epoll_fd r, reg_running r)"

lemma loop_ids_ops:
  "loop_ids (add_client fd r) = loop_ids r" "loop_ids (remove_client fd r) = loop_ids r"
  "loop_ids (apply_message fd m r) = loop_ids r" "loop_ids (r\<lparr>close_log := fds\<rparr>) = loop_ids r"
  by (auto simp: loop_ids_def add_client_def remove_client_def close_fd_def apply_message_def split: option.split)

interpretation ids: table_property "\<lambda>r. loop_ids r = x" for x
  by unfold_locales (simp_all add: loop_ids_ops)

lemma registry_start_ok:
  "registry_start e registry_new = (None, r) \<Longrightarrow> registry_ok r"
  by (auto simp: registry_start_def registry_new_def registry_ok_def Let_def close_fd_def
      split: if_splits option.splits)


text \<open>The stop of a running registry closes the listening socket, the epoll descriptor and
  every connection of the table, each once, and leaves nothing open, watched or registered.\<close>

theorem registry_stop_closes_all:
  assumes "registry_ok r" and "reg_running r" and "listen_fd r \<noteq> - 1" and "epoll_fd r \<noteq> - 1"
  shows "conns (registry_stop r) = [] \<and> watched (registry_stop r) = [] \<and>
    clients (registry_stop r) = [] \<and> \<not> reg_running (registry_stop r) \<and>
    close_log (registry_stop r) = rev (listen_fd r # epoll_fd r # map fst (clients r)) @ close_log r"
proof -
  have f: "conns (fold (close_fd \<circ> fst) cs r) = filter (\<lambda>x. x \<notin> fst ` set cs) (conns r) \<and>
    watched (fold (close_fd \<circ> fst) cs r) = filter (\<lambda>x. x \<notin> fst ` set cs) (watched r) \<and>
    close_log (fold (close_fd \<circ> fst) cs r) = rev (map fst cs) @ close_log r \<and>
    reg_running (fold (close_fd \<circ> fst) cs r) = reg_running r" for cs :: "(int \<times> client_info) list" and r
    by (induction cs arbitrary: r) (auto simp: close_fd_def removeAll_filter_not_eq intro: filter_cong)
  let ?r = "close_fd (epoll_fd r) (close_fd (listen_fd r) r)"
  have "set (conns ?r) \<subseteq> fst ` set (clients r)" "set (watched ?r) \<subseteq> fst ` set (clients r)"
    using assms(1) by (auto simp: registry_ok_def close_fd_def)
  then have "filter (\<lambda>x. x \<notin> fst ` set (clients r)) (conns ?r) = []"
    "filter (\<lambda>x. x \<notin> fst ` set (clients r)) (watched ?r) = []"
    by (auto simp: filter_empty_conv)
  then show ?thesis using assms(2-)
    by (simp add: registry_stop_def Let_def f close_fd_def)
qed

text \<open>A failed start leaves the flag set and the closed socket recorded: when \<open>bind\<close>
  fails, \<open>start\<close> throws, a second \<open>start\<close> returns normally without listening, and \<open>stop\<close>
  closes the same descriptor a second time.\<close>

theorem registry_failed_start:
  fixes e e' :: start_env
  assumes "got_socket e = Some l" and "\<not> bind_ok e" and "l \<noteq> - 1"
  defines "r \<equiv> snd (registry_start e registry_new)"
  shows "fst (registry_start e registry_new) = Some (RuntimeError ''Failed to bind socket'') \<and>
    registry_start e' r = (None, r) \<and> epoll_fd r = - 1 \<and>
    close_log (registry_stop r) = [l, l]"
  using assms by (simp add: r_def registry_start_def registry_new_def close_fd_def registry_stop_def Let_def)

subsection \<open>Witnesses\<close>

definition ok_env :: start_env where
  "ok_env = \<lparr>got_socket = Some 3, bind_ok = True, listen_ok = True, got_epoll = Some 4, ctl_ok = True\<rparr>"

definition started_registry :: registry where
  "started_registry = snd (registry_start ok_env registry_new)"

text \<open>A connection on descriptor 5, then a hang-up of it.\<close>

definition connect_event :: epoll_event where
  "connect_event = \<lparr>ev_fd = 3, ev_in = True, ev_err = False, ev_hup = False,
     ev_accepts = [Accepted 5 True, AcceptAgain], ev_reads = []\<rparr>"

lemma started: "registry_start ok_env registry_new = (None, started_registry)"
  by (simp add: started_registry_def ok_env_def registry_start_def registry_new_def)


lemma started_ok: "registry_ok (add_client 5 started_registry)"
  by (rule add_client_ok) (rule registry_start_ok [OF started])

theorem registry_stop_closes_all_witness:
  "close_log (registry_stop (add_client 5 started_registry)) = [5, 4, 3]"
proof -
  have s: "reg_running (add_client 5 started_registry)" "listen_fd (add_client 5 started_registry) = 3"
    "epoll_fd (add_client 5 started_registry) = 4" "close_log (add_client 5 started_registry) = []"
    "map fst (clients (add_client 5 started_registry)) = [5]"
    by (simp_all add: started_registry_def ok_env_def registry_start_def registry_new_def add_client_def)
  have "listen_fd (add_client 5 started_registry) \<noteq> - 1" "epoll_fd (add_client 5 started_registry) \<noteq> - 1"
    by (simp_all add: s)
  from registry_stop_closes_all [OF started_ok s(1) this] show ?thesis by (simp add: s)
qed

theorem registry_failed_start_witness:
  "close_log (registry_stop (snd (registry_start (ok_env\<lparr>bind_ok := False\<rparr>) registry_new))) = [3, 3]"
proof -
  have "got_socket (ok_env\<lparr>bind_ok := False\<rparr>) = Some 3" "\<not> bind_ok (ok_env\<lparr>bind_ok := False\<rparr>)"
    by (simp_all add: ok_env_def)
  from registry_failed_start [OF this, of ok_env] show ?thesis by simp
qed

subsection \<open>Messages\<close>

lemma receive_frame [simp]: "receive fd (map byte_of (payload_of m)) r = apply_message fd m r"
  by (simp add: receive_def)

lemma reassemble_then:
  "carries ms cs \<Longrightarrow> no_empty cs \<Longrightarrow>
   handle_client_message fd (map Bytes cs @ s) r = handle_client_message fd s (fold (apply_message fd) ms r)"
proof (induction ms arbitrary: cs r)
  case (Cons m ms)
  let ?n = "length (payload_of m)"
  from Cons.prems obtain hdr cs1 where
    1: "sys_read 4 (map Bytes cs @ s) = (Bytes hdr, map Bytes cs1 @ s)"
      "length hdr = 4" "be32_value hdr = ?n" "no_empty cs1"
      "take ?n (concat cs1) = map byte_of (payload_of m)" "?n \<le> length (concat cs1)"
      "carries ms (drop_bytes ?n cs1)" "no_empty (drop_bytes ?n cs1)"
    by (rule carries_Cons [where s = s])
  have "read_spinning ?n [] (map Bytes cs1 @ s) =
      (Payload (map byte_of (payload_of m)), map Bytes (drop_bytes ?n cs1) @ s)"
    using spinning.rd_stream [of cs1 "[]" ?n s] 1 by simp
  then have "handle_client_message fd (map Bytes cs @ s) r =
      handle_client_message fd (map Bytes (drop_bytes ?n cs1) @ s) (apply_message fd m r)"
    using 1 by (subst handle_client_message.simps) simp
  also have "\<dots> = handle_client_message fd s (fold (apply_message fd) ms (apply_message fd m r))"
    using 1 by (intro Cons.IH) simp_all
  finally show ?case by simp
qed simp

lemma message_ends [simp]:
  "handle_client_message fd [] r = (Returned r, [])"
  "handle_client_message fd [Eof] r = (Returned (remove_client fd r), [])"
  "handle_client_message fd [Fail] r = (Returned (remove_client fd r), [])"
  by (subst handle_client_message.simps, simp)+

lemma reassemble:
  "carries ms cs \<Longrightarrow> no_empty cs \<Longrightarrow>
   handle_client_message fd (map Bytes cs) r = (Returned (fold (apply_message fd) ms r), [])"
  using reassemble_then [of ms cs fd "[]" r] by simp

text \<open>A property of every size in the table: new clients have size zero, and messages bring their own.\<close>

definition sizes_are :: "(u64 \<Rightarrow> bool) \<Rightarrow> registry \<Rightarrow> bool" where
  "sizes_are P r \<longleftrightarrow> (\<forall>p \<in> set (clients r). P (ci_current (snd p)))"

lemma set_update_subset: "set (AList.update k v xs) \<subseteq> insert (k, v) (set xs)"
  by (induction xs) auto

lemma apply_sizes: "sizes_are P r \<Longrightarrow> P (msg_current x) \<Longrightarrow> sizes_are P (apply_message fd x r)"
proof -
  assume z: "sizes_are P r" and x: "P (msg_current x)"
  have upd: "sizes_are P (r\<lparr>clients := AList.update fd c (clients r)\<rparr>)" if "P (ci_current c)" for c
    using z that set_update_subset [of fd c "clients r"] by (fastforce simp: sizes_are_def)
  show ?thesis using z x by (auto simp: apply_message_def split: option.splits intro!: upd)
qed

lemma applies_sizes:
  "list_all (\<lambda>x. P (msg_current x)) ms \<Longrightarrow> sizes_are P r \<Longrightarrow> sizes_are P (fold (apply_message fd) ms r)"
  by (induction ms arbitrary: r) (auto intro: apply_sizes)

lemma add_sizes: "sizes_are P r \<Longrightarrow> P 0 \<Longrightarrow> sizes_are P (add_client fd r)"
  using set_update_subset [of fd "\<lparr>ci_fd = fd, ci_pid = 0, ci_current = 0, ci_min = 0\<rparr>" "clients r"]
  by (fastforce simp: sizes_are_def add_client_def)

lemma remove_sizes: "sizes_are P r \<Longrightarrow> sizes_are P (remove_client fd r)"
  by (auto simp: sizes_are_def remove_client_def close_fd_def AList.delete_eq split: option.splits)

definition sizes_reported :: "message list \<Rightarrow> u64 list" where
  "sizes_reported ms = map msg_current (filter (\<lambda>m. msg_type m = REGISTER \<or> msg_type m = REPORT_SIZE) ms)"

lemma apply_message_lookup:
  "map_of (clients (apply_message fd m r)) g =
    (if g = fd then map_option (\<lambda>c.
        if msg_type m = REGISTER then c\<lparr>ci_pid := msg_pid m, ci_current := msg_current m\<rparr>
        else if msg_type m = REPORT_SIZE then c\<lparr>ci_current := msg_current m\<rparr> else c)
       (map_of (clients r) fd)
     else map_of (clients r) g)"
  by (auto simp: apply_message_def update_conv' split: option.split)

lemma apply_messages_lookup:
  assumes "map_of (clients r) fd = Some c"
  shows "(\<exists>c'. map_of (clients (fold (apply_message fd) ms r)) fd = Some c' \<and>
      ci_current c' = last (ci_current c # sizes_reported ms)) \<and>
    (\<forall>g. g \<noteq> fd \<longrightarrow> map_of (clients (fold (apply_message fd) ms r)) g = map_of (clients r) g)"
  using assms
proof (induction ms arbitrary: r c)
  case Nil
  then show ?case by (simp add: sizes_reported_def)
next
  case (Cons m ms)
  from Cons.prems obtain c1 where c1: "map_of (clients (apply_message fd m r)) fd = Some c1"
    and cur: "ci_current c1 = (if msg_type m = REGISTER \<or> msg_type m = REPORT_SIZE then msg_current m else ci_current c)"
    by (auto simp: apply_message_lookup)
  from Cons.IH [OF c1] show ?case
    by (auto simp: cur apply_message_lookup sizes_reported_def)
qed

text \<open>However the payloads are cut into reads, frames that arrive with whole headers are
  taken in order: the handler consumes all of them and returns, the client's recorded size is
  the last one a REGISTER or REPORT_SIZE carried, and no other client changes.\<close>

theorem registry_reassembles_frames:
  fixes r :: registry
  assumes "carries ms cs" and "no_empty cs" and "map_of (clients r) fd = Some c"
  shows "\<exists>r' c'. handle_client_message fd (map Bytes cs) r = (Returned r', []) \<and>
    map_of (clients r') fd = Some c' \<and> ci_current c' = last (ci_current c # sizes_reported ms) \<and>
    (\<forall>g. g \<noteq> fd \<longrightarrow> map_of (clients r') g = map_of (clients r) g)"
  using reassemble [OF assms(1,2), of fd r] apply_messages_lookup [OF assms(3), of ms] by blast

text \<open>C29: A header that arrives in two reads is lost. The handler drops both parts, takes the
  first four bytes of the payload for a length of more than two billion, and waits for that
  many bytes; it never returns unless they come, and the message has no effect.\<close>

theorem registry_loses_split_header:
  assumes "0 < k" and "k < 4"
  shows "handle_client_message fd
      [Bytes (take k (frame m)), Bytes (drop k (take 4 (frame m))), Bytes (drop 4 (frame m))] r =
    (Spinning r, [])"
proof -
  let ?p = "map byte_of (payload_of m)"
  have len: "length (take k (frame m)) = k" "length (drop k (take 4 (frame m))) = 4 - k"
    using assms by (simp_all add: length_frame)
  then have ne: "take k (frame m) \<noteq> []" "drop k (take 4 (frame m)) \<noteq> []"
    using assms by (metis length_0_conv not_gr_zero zero_less_diff)+
  have d: "drop 4 (frame m) = ?p" by (simp add: frame_eq)
  obtain q where q: "?p = [0x7B, 0x22, 0x74, 0x79] @ q" "length q < 1000"
  proof
    show "?p = [0x7B, 0x22, 0x74, 0x79] @ drop 4 ?p"
      by (simp add: payload_of_def serialize_def quoted_def byte_of_def char_code_def)
    show "length (drop 4 ?p) < 1000" using payload_bounds(2) [of m] by simp
  qed
  have "handle_client_message fd [Bytes ?p] r = (Spinning r, [])"
  proof (cases "q = []")
    case True
    then show ?thesis by (subst handle_client_message.simps) (simp add: q be32_value_def spinning.rd_starved)
  next
    case False
    with q(2) have "read_spinning 2065855609 [] [Bytes q] = (Starved, [])"
      by (simp add: spinning.rd_all spinning.rd_starved)
    with False show ?thesis by (subst handle_client_message.simps) (simp add: q be32_value_def)
  qed
  moreover have "handle_client_message fd (Bytes (take k (frame m)) # s) r = handle_client_message fd s r"
    "handle_client_message fd (Bytes (drop k (take 4 (frame m))) # s) r = handle_client_message fd s r" for s
    using assms len ne by (subst handle_client_message.simps, simp)+
  ultimately show ?thesis unfolding d by simp
qed

definition sample_register :: message where
  "sample_register = message_default\<lparr>msg_type := REGISTER, msg_pid := 42, msg_current := 9000\<rparr>"

theorem registry_reassembles_frames_witness:
  "\<exists>r' c'. handle_client_message 5 [Bytes (frame sample_register)] (add_client 5 started_registry) = (Returned r', []) \<and>
    map_of (clients r') 5 = Some c' \<and> ci_current c' = 9000"
proof -
  have "map_of (clients (add_client 5 started_registry)) 5 =
      Some \<lparr>ci_fd = 5, ci_pid = 0, ci_current = 0, ci_min = 0\<rparr>"
    by (simp add: add_client_def update_conv')
  from registry_reassembles_frames [OF carries_one_each [of "[sample_register]"] no_empty_frames this]
  show ?thesis by (auto simp: sizes_reported_def sample_register_def)
qed

theorem registry_loses_split_header_witness:
  "handle_client_message 5 [Bytes (take 2 (frame message_default)),
      Bytes (drop 2 (take 4 (frame message_default))), Bytes (drop 4 (frame message_default))]
    registry_new = (Spinning registry_new, [])"
  by (rule registry_loses_split_header) simp_all

subsection \<open>Targets\<close>

lemma of_nat_floor:
  fixes p :: rat
  assumes "0 \<le> p" and "p < 2 ^ 64"
  shows "(of_nat (unat (word_of_int \<lfloor>p\<rfloor> :: u64)) :: rat) = of_int \<lfloor>p\<rfloor>"
  using unat_floor [OF assms] by (metis of_int_of_nat_eq)

lemma target_zero: "dbl_to_u64 (dbl_mul (dbl_of_u64 0) (to_double h)) = Some 0" if "0 \<le> h" "h \<le> 2"
proof -
  have "dbl_of_u64 0 = Finite 0" by (simp add: dbl_of_u64_def to_double_def)
  moreover have "to_double h = Finite (rnd h)" using that by (intro to_double_small) simp_all
  moreover have "to_double 0 = Finite 0" by (simp add: to_double_def)
  ultimately show ?thesis by (simp add: dbl_to_u64_def truncate_rat_def)
qed

lemma close_nonneg: "\<bar>p - q\<bar> \<le> q / 2 ^ 51 \<Longrightarrow> 0 \<le> q \<Longrightarrow> (0 :: rat) \<le> p"
  unfolding abs_le_iff by (simp add: field_simps)

lemma target_cases:
  assumes "n \<noteq> 0" and "1 / 16 \<le> h" and "h \<le> 2"
  obtains p where "dbl_to_u64 (dbl_mul (dbl_of_u64 n) (to_double h)) =
      (if p < 2 ^ 64 then Some (word_of_int \<lfloor>p\<rfloor>) else None)"
    "\<bar>p - of_nat (unat n) * h\<bar> \<le> of_nat (unat n) * h / 2 ^ 51" "0 \<le> p"
proof -
  from dbl_scaled [OF assms] obtain p where
    p: "dbl_mul (dbl_of_u64 n) (to_double h) = Finite p"
      "\<bar>p - of_nat (unat n) * h\<bar> \<le> of_nat (unat n) * h / 2 ^ 51" .
  let ?q = "of_nat (unat n) * h :: rat"
  have "0 \<le> ?q" by (rule mult_nonneg_nonneg, rule of_nat_0_le_iff) (use assms in linarith)
  with p(2) have "0 \<le> p" by (rule close_nonneg)
  then show ?thesis using p that [of p] by (simp add: dbl_to_u64_Finite)
qed

lemma shrink_target_bounds:
  assumes "1 / 16 \<le> f" and "f \<le> 15 / 16"
  shows "\<exists>t. shrink_target (Finite f) n = Some t \<and> t \<le> n \<and>
    \<bar>of_nat (unat t) - (1 - f) * of_nat (unat n)\<bar> \<le> 1 + of_nat (unat n) / 2 ^ 51"
proof (cases "n = 0")
  case True
  then show ?thesis using assms target_zero [of "1 - f"] by (simp add: shrink_target_def dbl_sub_def)
next
  case False
  let ?x = "of_nat (unat n) :: rat" and ?h = "1 - f"
  have h: "1 / 16 \<le> ?h" "?h \<le> 2" "?h \<le> 15 / 16" using assms by simp_all
  from target_cases [OF False h(1,2)] obtain p where
    p: "dbl_to_u64 (dbl_mul (dbl_of_u64 n) (to_double ?h)) = (if p < 2 ^ 64 then Some (word_of_int \<lfloor>p\<rfloor>) else None)"
      "\<bar>p - ?x * ?h\<bar> \<le> ?x * ?h / 2 ^ 51" "0 \<le> p" .
  have x: "0 \<le> ?x" "?x < 2 ^ 64"
  proof -
    show "0 \<le> ?x" by (rule of_nat_0_le_iff)
    have "?x < of_nat (2 ^ 64)" unfolding of_nat_less_iff using unsigned_less [of n] by simp
    then show "?x < 2 ^ 64" by simp
  qed
  have q: "?x * ?h \<le> ?x * (15 / 16)" "?x * ?h \<le> ?x * 1" using x(1) h by (intro mult_left_mono; simp)+
  have b: "p - ?x * ?h \<le> ?x * ?h / 2 ^ 51" "- (?x * ?h / 2 ^ 51) \<le> p - ?x * ?h"
    using p(2) unfolding abs_le_iff by linarith+
  have px: "p \<le> ?x" using b(1) q(1) x(1) by simp
  then have lt: "p < 2 ^ 64" using x(2) by linarith
  let ?t = "word_of_int \<lfloor>p\<rfloor> :: u64"
  have t: "(of_nat (unat ?t) :: rat) = of_int \<lfloor>p\<rfloor>" using p(3) lt by (rule of_nat_floor)
  have fl: "of_int \<lfloor>p\<rfloor> \<le> p" "p - 1 < of_int \<lfloor>p\<rfloor>" by linarith+
  have "(of_nat (unat ?t) :: rat) \<le> ?x" unfolding t using fl px by linarith
  then have "?t \<le> n" unfolding of_nat_le_iff by (simp add: word_le_nat_alt)
  moreover have "\<bar>of_nat (unat ?t) - ?h * ?x\<bar> \<le> 1 + ?x / 2 ^ 51"
  proof -
    have "?x * ?h / 2 ^ 51 \<le> ?x / 2 ^ 51" using q(2) by (simp add: divide_right_mono)
    then show ?thesis unfolding t abs_le_iff mult.commute [of ?h] using fl b by (intro conjI; linarith)
  qed
  ultimately show ?thesis using p(1) lt by (simp add: shrink_target_def dbl_sub_def)
qed

text \<open>Shrink targets. For a fraction between 1/16 and 15/16 the conversion to an integer is
  always defined, the target is at most the recorded size, and it is the exact product up to
  one and a relative error of \<open>2^-51\<close>.\<close>

theorem shrink_target_sound:
  assumes "1 / 16 \<le> f" and "f \<le> 15 / 16"
  shows "\<exists>t. shrink_target (Finite f) n = Some t \<and> t \<le> n \<and>
    \<bar>of_nat (unat t) - (1 - f) * of_nat (unat n)\<bar> \<le> 1 + of_nat (unat n) / 2 ^ 51"
  using assms by (rule shrink_target_bounds)

lemma grow_target_cases:
  assumes "1 / 16 \<le> f" and "f \<le> 1"
  shows "if (1 + f) * of_nat (unat n) * (1 + 1 / 2 ^ 51) < 2 ^ 64
     then \<exists>t. grow_target (Finite f) n = Some t \<and> n \<le> t \<and>
       \<bar>of_nat (unat t) - (1 + f) * of_nat (unat n)\<bar> \<le> 1 + of_nat (unat n) / 2 ^ 50
     else 2 ^ 64 \<le> (1 + f) * of_nat (unat n) * (1 - 1 / 2 ^ 51) \<longrightarrow> grow_target (Finite f) n = None"
proof (cases "n = 0")
  case True
  then show ?thesis using assms target_zero [of "1 + f"] by (simp add: grow_target_def)
next
  case False
  let ?x = "of_nat (unat n) :: rat" and ?h = "1 + f"
  have h: "1 / 16 \<le> ?h" "?h \<le> 2" using assms by simp_all
  from target_cases [OF False h] obtain p where
    p: "dbl_to_u64 (dbl_mul (dbl_of_u64 n) (to_double ?h)) = (if p < 2 ^ 64 then Some (word_of_int \<lfloor>p\<rfloor>) else None)"
      "\<bar>p - ?x * ?h\<bar> \<le> ?x * ?h / 2 ^ 51" "0 \<le> p" .
  have b: "p - ?x * ?h \<le> ?x * ?h / 2 ^ 51" "- (?x * ?h / 2 ^ 51) \<le> p - ?x * ?h"
    using p(2) unfolding abs_le_iff by linarith+
  have x: "0 \<le> ?x" by (rule of_nat_0_le_iff)
  have q: "?x * (17 / 16) \<le> ?x * ?h" "?x * ?h \<le> ?x * 2" using x assms by (intro mult_left_mono; simp)+
  have e: "?h * ?x * (1 + 1 / 2 ^ 51) = ?x * ?h + ?x * ?h / 2 ^ 51"
    "?h * ?x * (1 - 1 / 2 ^ 51) = ?x * ?h - ?x * ?h / 2 ^ 51"
    by (simp_all only: distrib_left right_diff_distrib mult_1_right times_divide_eq_right mult.commute [of ?h])
  show ?thesis unfolding e
  proof (rule if_split [THEN iffD2], intro conjI impI)
    assume "?x * ?h + ?x * ?h / 2 ^ 51 < 2 ^ 64"
    then have lt: "p < 2 ^ 64" using b(1) by linarith
    let ?t = "word_of_int \<lfloor>p\<rfloor> :: u64"
    have t: "(of_nat (unat ?t) :: rat) = of_int \<lfloor>p\<rfloor>" using p(3) lt by (rule of_nat_floor)
    have fl: "of_int \<lfloor>p\<rfloor> \<le> p" "p - 1 < of_int \<lfloor>p\<rfloor>" by linarith+
    have "?x \<le> p" using b(2) q(1) x by simp
    then have "?x \<le> of_int \<lfloor>p\<rfloor>" by (metis le_floor_iff of_int_le_iff of_int_of_nat_eq)
    then have "?x \<le> of_nat (unat ?t)" unfolding t .
    then have "n \<le> ?t" unfolding of_nat_le_iff by (simp add: word_le_nat_alt)
    moreover have "\<bar>of_nat (unat ?t) - ?h * ?x\<bar> \<le> 1 + ?x / 2 ^ 50"
    proof -
      have "?x * ?h / 2 ^ 51 \<le> ?x * 2 / 2 ^ 51" using q(2) by (rule divide_right_mono) simp
      then have "?x * ?h / 2 ^ 51 \<le> ?x / 2 ^ 50" by simp
      then show ?thesis unfolding t abs_le_iff mult.commute [of ?h] using fl b by (intro conjI; linarith)
    qed
    ultimately show "\<exists>t. grow_target (Finite f) n = Some t \<and> n \<le> t \<and>
        \<bar>of_nat (unat t) - ?h * ?x\<bar> \<le> 1 + ?x / 2 ^ 50"
      using p(1) lt by (simp add: grow_target_def)
  next
    assume "2 ^ 64 \<le> ?x * ?h - ?x * ?h / 2 ^ 51"
    then have "\<not> p < 2 ^ 64" using b(2) by linarith
    then show "grow_target (Finite f) n = None" using p(1) by (simp add: grow_target_def)
  qed
qed

text \<open>Grow targets. For a fraction between 1/16 and 1 the target is at least the recorded
  size and close to the exact product as long as that product leaves a margin below \<open>2^64\<close>;
  from the same margin above \<open>2^64\<close> on, the conversion of the double to \<open>uint64_t\<close> is
  undefined behaviour.\<close>

theorem grow_target_range:
  assumes "1 / 16 \<le> f" and "f \<le> 1"
  shows "if (1 + f) * of_nat (unat n) * (1 + 1 / 2 ^ 51) < 2 ^ 64
     then \<exists>t. grow_target (Finite f) n = Some t \<and> n \<le> t \<and>
       \<bar>of_nat (unat t) - (1 + f) * of_nat (unat n)\<bar> \<le> 1 + of_nat (unat n) / 2 ^ 50
     else 2 ^ 64 \<le> (1 + f) * of_nat (unat n) * (1 - 1 / 2 ^ 51) \<longrightarrow> grow_target (Finite f) n = None"
  using assms by (rule grow_target_cases)

theorem shrink_target_sound_witness:
  "\<exists>t. shrink_target (Finite (1 / 4)) 1000 = Some t \<and> t \<le> 1000 \<and>
    \<bar>of_nat (unat t) - (1 - 1 / 4) * of_nat (unat (1000 :: u64)) :: rat\<bar> \<le> 1 + of_nat (unat (1000 :: u64)) / 2 ^ 51"
  by (rule shrink_target_sound) simp_all

theorem grow_target_range_witness: "grow_target (Finite (1 / 2)) 18446744073709551615 = None"
proof -
  have n: "(of_nat (unat (18446744073709551615 :: u64)) :: rat) = 18446744073709551615" by simp
  show ?thesis using grow_target_range [of "1 / 2" 18446744073709551615] unfolding n by simp
qed

subsection \<open>Delivery\<close>

lemma write_all_complete:
  "WFail \<notin> set ws \<Longrightarrow> length bs \<le> room ws \<Longrightarrow> write_all bs ws = (bs, False)"
proof (induction ws arbitrary: bs)
  case (Cons w ws)
  then show ?case by (cases w) (auto simp: accepted_def min_def)
qed simp

lemma write_all_stuck:
  "WFail \<notin> set ws \<Longrightarrow> room ws < length bs \<Longrightarrow> write_all bs ws = (take (room ws) bs, True)"
proof (induction ws arbitrary: bs)
  case (Cons w ws)
  then show ?case by (cases w) (auto simp: accepted_def min_def take_add)
qed simp

definition writable :: "io_out list \<Rightarrow> bool" where
  "writable ws \<longleftrightarrow> WFail \<notin> set ws \<and> 150 \<le> room ws"

lemma send_writable: "writable ws \<Longrightarrow> send_to_client m ws = (frame m, False)"
  using write_all_complete [of ws "frame m"] length_frame_le [of m]
  by (simp add: send_to_client_def writable_def)

abbreviation command :: "message_type \<Rightarrow> u64 \<Rightarrow> message" where
  "command ty t \<equiv> message_default\<lparr>msg_type := ty, msg_target := t\<rparr>"

lemma broadcast_writable:
  assumes "\<And>fd c. (fd, c) \<in> set cs \<Longrightarrow> writable (ws fd) \<and> target (ci_current c) = Some (t c)"
  shows "broadcast ty target ws (cs @ ds) =
    map_option (\<lambda>(out, stuck). (map (\<lambda>(fd, c). (fd, frame (command ty (t c)))) cs @ out, stuck))
      (broadcast ty target ws ds)"
  using assms
proof (induction cs)
  case Nil
  then show ?case by (cases "broadcast ty target ws ds") auto
next
  case (Cons p cs)
  obtain fd c where p: "p = (fd, c)" by fastforce
  have "writable (ws fd)" "target (ci_current c) = Some (t c)" using Cons.prems [of fd c] p by simp_all
  moreover have ih: "broadcast ty target ws (cs @ ds) =
    map_option (\<lambda>(out, stuck). (map (\<lambda>(fd, c). (fd, frame (command ty (t c)))) cs @ out, stuck))
      (broadcast ty target ws ds)"
    by (intro Cons.IH, rule Cons.prems) simp
  ultimately show ?case
    by (cases "broadcast ty target ws ds") (auto simp: p send_writable)
qed

text \<open>Every client received exactly one whole frame with the command \<open>ty\<close> and a target that
  stands in the relation \<open>rel\<close> to the size recorded for it.\<close>

definition reached_all :: "message_type \<Rightarrow> (u64 \<Rightarrow> u64 \<Rightarrow> bool) \<Rightarrow> registry \<Rightarrow> (int \<times> u8 list) list \<Rightarrow> bool" where
  "reached_all ty rel r out \<longleftrightarrow> list_all2 (\<lambda>(fd, c) (fd', bytes). fd' = fd \<and>
     (\<exists>t. rel (ci_current c) t \<and> bytes = frame (command ty t))) (clients r) out"

lemma broadcast_reaches_all:
  assumes "\<forall>p \<in> set (clients r). writable (ws (fst p))"
    and "\<forall>p \<in> set (clients r). \<exists>t. target (ci_current (snd p)) = Some t \<and> rel (ci_current (snd p)) t"
  shows "\<exists>out. broadcast ty target ws (clients r) = Some (out, False) \<and> reached_all ty rel r out"
proof -
  define t where "t = (\<lambda>c :: client_info. the (target (ci_current c)))"
  have t: "target (ci_current c) = Some (t c) \<and> rel (ci_current c) (t c)" if "(fd, c) \<in> set (clients r)" for fd c
    using assms(2) that by (force simp: t_def)
  have "broadcast ty target ws (clients r) =
      Some (map (\<lambda>(fd, c). (fd, frame (command ty (t c)))) (clients r), False)"
    using broadcast_writable [of "clients r" ws target t ty "[]"] assms(1) t by force
  moreover have "reached_all ty rel r (map (\<lambda>(fd, c). (fd, frame (command ty (t c)))) (clients r))"
    unfolding reached_all_def list_all2_map2 list_all2_same using t by auto
  ultimately show ?thesis by blast
qed

lemma shrink_reaches_all:
  assumes "1 / 16 \<le> f" and "f \<le> 15 / 16" and "\<forall>p \<in> set (clients r). writable (ws (fst p))"
  shows "\<exists>out. broadcast_shrink (Finite f) ws r = Some (out, False) \<and> reached_all SHRINK (\<lambda>s t. t \<le> s) r out"
  unfolding broadcast_shrink_def
  using assms shrink_target_bounds [OF assms(1,2)] by (intro broadcast_reaches_all) blast+

lemma grow_reaches_all:
  assumes "1 / 16 \<le> f" and "f \<le> 1 / 2" and "\<forall>p \<in> set (clients r). writable (ws (fst p))"
    and "\<forall>p \<in> set (clients r). unat (ci_current (snd p)) < 2 ^ 63"
  shows "\<exists>out. broadcast_grow (Finite f) ws r = Some (out, False) \<and> reached_all GROW (\<lambda>s t. s \<le> t) r out"
proof -
  have "\<exists>t. grow_target (Finite f) n = Some t \<and> n \<le> t" if n: "unat n < 2 ^ 63" for n
  proof -
    have "(of_nat (unat n) :: rat) \<le> of_nat (2 ^ 63)" unfolding of_nat_le_iff using n by simp
    then have "(1 + f) * of_nat (unat n) \<le> (3 / 2) * (2 ^ 63)"
      using assms(1,2) by (intro mult_mono of_nat_0_le_iff) simp_all
    then have "(1 + f) * of_nat (unat n) * (1 + 1 / 2 ^ 51) \<le> (3 / 2) * (2 ^ 63) * (1 + 1 / 2 ^ 51)"
      by (rule mult_right_mono) simp
    then have "(1 + f) * of_nat (unat n) * (1 + 1 / 2 ^ 51) < 2 ^ 64"
      by (rule le_less_trans) simp
    then show ?thesis using grow_target_cases [of f n] assms(1,2) by auto
  qed
  then show ?thesis unfolding broadcast_grow_def
    using assms(3,4) by (intro broadcast_reaches_all) blast+
qed

text \<open>A SHRINK broadcast over sockets that accept their data sends every client exactly
  one frame, which reads back as a SHRINK whose target is at most the client's recorded size.\<close>

theorem broadcast_shrink_delivers:
  assumes "1 / 16 \<le> f" and "f \<le> 15 / 16" and "\<forall>p \<in> set (clients r). writable (ws (fst p))"
  shows "\<exists>out. broadcast_shrink (Finite f) ws r = Some (out, False) \<and>
    list_all2 (\<lambda>(fd, c) (fd', bytes). fd' = fd \<and> (\<exists>m. msg_type m = SHRINK \<and> msg_target m \<le> ci_current c \<and>
        deserialize (map char_of_byte (drop 4 bytes)) = Inr m)) (clients r) out"
proof -
  obtain out where "broadcast_shrink (Finite f) ws r = Some (out, False)"
    and r: "reached_all SHRINK (\<lambda>s t. t \<le> s) r out" using shrink_reaches_all [OF assms] by blast
  moreover have "list_all2 (\<lambda>(fd, c) (fd', bytes). fd' = fd \<and> (\<exists>m. msg_type m = SHRINK \<and>
      msg_target m \<le> ci_current c \<and> deserialize (map char_of_byte (drop 4 bytes)) = Inr m)) (clients r) out"
    using r unfolding reached_all_def by (rule list_all2_mono) (auto simp: frame_eq)
  ultimately show ?thesis by blast
qed

text \<open>C28: One client that stops reading blocks the broadcast for good. When its socket takes
  less than a frame and reports nothing worse than \<open>EAGAIN\<close>, the write loop spins with the
  mutex held: the clients after it receive nothing and \<open>broadcast\<close> does not return.\<close>

theorem broadcast_blocked_by_one:
  assumes "1 / 16 \<le> f" and "f \<le> 15 / 16"
    and "clients r = before @ (fd, c) # after"
    and "\<forall>p \<in> set before. writable (ws (fst p))" and "WFail \<notin> set (ws fd)" and "room (ws fd) < 70"
  shows "\<exists>out d. broadcast_shrink (Finite f) ws r = Some (out @ [(fd, d)], True) \<and>
    map fst out = map fst before \<and> length d = room (ws fd)"
proof -
  define t where "t = (\<lambda>c :: client_info. the (shrink_target (Finite f) (ci_current c)))"
  have t: "shrink_target (Finite f) (ci_current c) = Some (t c)" for c
    using shrink_target_bounds [OF assms(1,2), of "ci_current c"] by (auto simp: t_def)
  let ?m = "command SHRINK (t c)"
  have "1 \<le> length (nat_str n)" for n by (simp add: Suc_le_eq)
  from this [of "unat (t c)"] have "70 \<le> length (frame ?m)"
    by (simp add: length_frame payload_of_def serialize_def quoted_def message_default_def)
  then have "room (ws fd) < length (frame ?m)" using assms(6) by simp
  then have d: "send_to_client ?m (ws fd) = (take (room (ws fd)) (frame ?m), True)"
    unfolding send_to_client_def using assms(5) by (intro write_all_stuck)
  have "broadcast_shrink (Finite f) ws r =
      Some (map (\<lambda>(fd, c). (fd, frame (command SHRINK (t c)))) before @
        [(fd, take (room (ws fd)) (frame ?m))], True)"
    using broadcast_writable [of before ws "shrink_target (Finite f)" t SHRINK "(fd, c) # after"] assms(4) t d
    by (force simp: broadcast_shrink_def assms(3))
  moreover have "length (take (room (ws fd)) (frame ?m)) = room (ws fd)"
    using \<open>room (ws fd) < length (frame ?m)\<close> by simp
  ultimately show ?thesis by (force simp: case_prod_beta)
qed


lemma one_client: "clients (add_client 5 started_registry) =
    [(5, \<lparr>ci_fd = 5, ci_pid = 0, ci_current = 0, ci_min = 0\<rparr>)]"
  by (simp add: add_client_def started_registry_def ok_env_def registry_start_def registry_new_def)

lemma two_clients: "clients (add_client 6 (add_client 5 started_registry)) =
    [] @ (5, \<lparr>ci_fd = 5, ci_pid = 0, ci_current = 0, ci_min = 0\<rparr>) #
    [(6, \<lparr>ci_fd = 6, ci_pid = 0, ci_current = 0, ci_min = 0\<rparr>)]"
  by (simp add: add_client_def started_registry_def ok_env_def registry_start_def registry_new_def)

theorem broadcast_shrink_delivers_witness:
  "\<exists>out. broadcast_shrink (Finite (1 / 2)) (\<lambda>fd. [Wrote 20, WAgain, Wrote 200]) (add_client 5 started_registry) =
      Some (out, False) \<and> length out = 1"
proof -
  have "\<forall>p \<in> set (clients (add_client 5 started_registry)). writable [Wrote 20, WAgain, Wrote 200]"
    by (simp add: writable_def)
  from broadcast_shrink_delivers [OF _ _ this, of "1 / 2"] show ?thesis
    by (auto simp: one_client dest: list_all2_lengthD)
qed

theorem broadcast_blocked_by_one_witness:
  "\<exists>d. broadcast_shrink (Finite (1 / 2)) (\<lambda>fd. if fd = 5 then [Wrote 10, WAgain] else [Wrote 200])
      (add_client 6 (add_client 5 started_registry)) = Some ([(5, d)], True) \<and> length d = 10"
proof -
  let ?ws = "\<lambda>fd :: int. if fd = 5 then [Wrote 10, WAgain] else [Wrote 200]"
  show ?thesis using broadcast_blocked_by_one [OF _ _ two_clients, of "1 / 2" ?ws] by auto
qed

end
