(* ===== verification/Governor_Daemon.thy ===== *)
theory Governor_Daemon
  imports Policy_Runs Psi_Parser Client_Registry
begin

text \<open>
  \<open>src/governor/governor_daemon.cpp\<close>: the daemon owns the poller, the policy engine and the
  client registry; the poller's callback evaluates a sample and dispatches the action. The
  log line of a tier transition is kept as a record of what it prints. The callback runs in
  the poller's thread and takes the registry's mutex for each call, so one sample is one step.
\<close>

record daemon_config =
  psi_path :: string
  socket_path :: string
  poll_interval_ms :: int
  tier_configs :: "tier_config list"

definition default_config :: daemon_config where
  "default_config = \<lparr>psi_path = ''/proc/pressure/memory'', socket_path = ''/tmp/mem_governor.sock'',
     poll_interval_ms = 200, tier_configs = default_configs\<rparr>"

record daemon =
  d_poller :: psi_poller
  d_engine :: policy_engine
  d_registry :: registry

definition daemon_new :: "daemon_config \<Rightarrow> daemon" where
  "daemon_new cfg = \<lparr>d_poller = set_callback poller_new, d_engine = engine_new (tier_configs cfg),
     d_registry = registry_new\<rparr>"

definition daemon_start :: "start_env \<Rightarrow> daemon \<Rightarrow> cpp_exception option \<times> daemon" where
  "daemon_start env d = (case registry_start env (d_registry d) of
     (Some e, r) \<Rightarrow> (Some e, d\<lparr>d_registry := r\<rparr>)
   | (None, r) \<Rightarrow> (None, d\<lparr>d_registry := r, d_poller := poller_start (d_poller d)\<rparr>))"

definition daemon_stop :: "daemon \<Rightarrow> daemon" where
  "daemon_stop d = d\<lparr>d_poller := poller_stop (d_poller d), d_registry := registry_stop (d_registry d)\<rparr>"

text \<open>The destructor stops the daemon; then the members are destroyed, the last one first.\<close>

definition daemon_destroy :: "daemon \<Rightarrow> daemon" where
  "daemon_destroy d = (let d = daemon_stop d; d = d\<lparr>d_registry := registry_destroy (d_registry d)\<rparr>
     in d\<lparr>d_poller := poller_destroy (d_poller d)\<rparr>)"

subsection \<open>One sample\<close>

record transition =
  tr_old :: string
  tr_new :: string
  tr_data :: psi_data
  tr_clients :: nat
  tr_total :: u64

type_synonym sending = "(int \<times> u8 list) list \<times> bool"

definition dispatch_action :: "(int \<Rightarrow> io_out list) \<Rightarrow> policy_action \<Rightarrow> registry \<Rightarrow> sending option" where
  "dispatch_action ws act r = (case action_kind act of
     ActShrink \<Rightarrow> broadcast_shrink (action_fraction act) ws r
   | ActGrow \<Rightarrow> broadcast_grow (action_fraction act) ws r
   | ActNone \<Rightarrow> Some ([], False))"

definition on_psi_update :: "(int \<Rightarrow> io_out list) \<Rightarrow> psi_data \<Rightarrow> daemon \<Rightarrow>
    (transition option \<times> sending \<times> daemon) option" where
  "on_psi_update ws data d = do {
     let old_tier = current_tier (d_engine d);
     (action, e) \<leftarrow> evaluate (d_engine d) data;
     let new_tier = current_tier e;
     let tr = (if old_tier \<noteq> new_tier
               then Some \<lparr>tr_old = get_tier_name old_tier, tr_new = get_tier_name new_tier, tr_data = data,
                      tr_clients = get_client_count (d_registry d),
                      tr_total = get_total_cache_size (d_registry d)\<rparr>
               else None);
     out \<leftarrow> (if action_kind action \<noteq> ActNone then dispatch_action ws action (d_registry d)
            else Some ([], False));
     Some (tr, out, d\<lparr>d_engine := e\<rparr>)
   }"

text \<open>One iteration of the poller's loop with its callback: an exception, undefined behaviour
  (\<open>None\<close>), or what was logged and sent.\<close>

definition daemon_poll :: "(int \<Rightarrow> io_out list) \<Rightarrow> string \<Rightarrow> daemon \<Rightarrow>
    cpp_exception + (transition option \<times> sending \<times> daemon) option" where
  "daemon_poll ws content d = (case poll_once content (d_poller d) of
     Inl e \<Rightarrow> Inl e
   | Inr (None, p) \<Rightarrow> Inr (Some (None, ([], False), d\<lparr>d_poller := p\<rparr>))
   | Inr (Some data, p) \<Rightarrow> Inr (on_psi_update ws data (d\<lparr>d_poller := p\<rparr>)))"

subsection \<open>The default daemon\<close>

lemma default_fraction:
  assumes "i = 1 \<or> i = 2 \<or> i = 3"
  obtains f where "shrink_pct (default_configs ! nat i) = Finite f" "1 / 16 \<le> f" "f \<le> 1 / 2"
proof -
  have "to_double (1 / 10) = Finite (3602879701896397 / 36028797018963968)" by code_simp
  with assms that [of "3602879701896397 / 36028797018963968"] that [of "1 / 4"] that [of "1 / 2"]
  show ?thesis by (elim disjE) (simp_all add: default_configs_def)
qed

text \<open>The three things that one sample can do in the default daemon. Undefined behaviour can only come from
  the targets of the broadcast.\<close>

lemma sample_cases [consumes 1, case_names up down same]:
  assumes "default_engine (d_engine d)"
  obtains (up) f tr d' where "1 / 16 \<le> f" "f \<le> 1 / 2"
      "on_psi_update ws data d = map_option (\<lambda>out. (Some tr, out, d')) (broadcast_shrink (Finite f) ws (d_registry d))"
      "tier_index (current_tier (d_engine d')) = tier_index (current_tier (d_engine d)) + 1"
      "default_engine (d_engine d')" "d_registry d' = d_registry d" "d_poller d' = d_poller d"
  | (down) f tr d' where "1 / 16 \<le> f" "f \<le> 1 / 2"
      "on_psi_update ws data d = map_option (\<lambda>out. (Some tr, out, d')) (broadcast_grow (Finite f) ws (d_registry d))"
      "tier_index (current_tier (d_engine d')) = tier_index (current_tier (d_engine d)) - 1"
      "default_engine (d_engine d')" "d_registry d' = d_registry d" "d_poller d' = d_poller d"
  | (same) d' where "on_psi_update ws data d = Some (None, ([], False), d')"
      "tier_index (current_tier (d_engine d')) = tier_index (current_tier (d_engine d))"
      "default_engine (d_engine d')" "d_registry d' = d_registry d" "d_poller d' = d_poller d"
proof -
  let ?e = "d_engine d" and ?r = "d_registry d"
  let ?d = "d\<lparr>d_engine := snd (step_total ?e data)\<rparr>"
  let ?tr = "\<lambda>i. \<lparr>tr_old = get_tier_name (current_tier ?e), tr_new = get_tier_name (Tier i), tr_data = data,
    tr_clients = get_client_count ?r, tr_total = get_total_cache_size ?r\<rparr>"
  have ok: "engine_ok ?e" and cfg: "configs ?e = default_configs"
    using assms by (simp_all add: default_engine_def)
  have de: "default_engine (snd (step_total ?e data))" using assms by (rule default_engine_step)
  have tiers: "0 \<le> tier_now ?e" "tier_now ?e < 4"
    using ok cfg by (simp_all add: engine_ok_def default_configs_def)
  show ?thesis
  proof (cases rule: step_total_cases [where e = ?e and d = data])
    case promote
    then have "tier_now ?e + 1 = 1 \<or> tier_now ?e + 1 = 2 \<or> tier_now ?e + 1 = 3"
      using tiers cfg by (auto simp: can_promote_def default_configs_def)
    then obtain f where f: "shrink_pct (config_of ?e (tier_now ?e + 1)) = Finite f" "1 / 16 \<le> f" "f \<le> 1 / 2"
      unfolding cfg by (rule default_fraction)
    have "current_tier ?e \<noteq> Tier (tier_now ?e + 1)" by (cases "current_tier ?e") simp
    then have "on_psi_update ws data d =
        map_option (\<lambda>out. (Some (?tr (tier_now ?e + 1)), out, ?d)) (broadcast_shrink (Finite f) ws ?r)"
      using f promote(3)
      by (cases "broadcast_shrink (Finite f) ws ?r")
        (simp_all add: on_psi_update_def evaluate_total [OF ok] dispatch_action_def promoted_to_next_def Let_def)
    from up [OF f(2,3) this] de promote(3) show ?thesis by (simp add: promoted_to_next_def)
  next
    case demote
    then have "tier_now ?e = 1 \<or> tier_now ?e = 2 \<or> tier_now ?e = 3"
      using tiers by (auto simp: can_demote_def)
    then obtain f where f: "shrink_pct (config_of ?e (tier_now ?e)) = Finite f" "1 / 16 \<le> f" "f \<le> 1 / 2"
      unfolding cfg by (rule default_fraction)
    have "current_tier ?e \<noteq> Tier (tier_now ?e - 1)" by (cases "current_tier ?e") simp
    then have "on_psi_update ws data d =
        map_option (\<lambda>out. (Some (?tr (tier_now ?e - 1)), out, ?d)) (broadcast_grow (Finite f) ws ?r)"
      using f demote(4)
      by (cases "broadcast_grow (Finite f) ws ?r")
        (simp_all add: on_psi_update_def evaluate_total [OF ok] dispatch_action_def demoted_to_previous_def Let_def)
    from down [OF f(2,3) this] de demote(4) show ?thesis by (simp add: demoted_to_previous_def)
  next
    case wait
    with de same [of ?d] show ?thesis
      by (simp add: on_psi_update_def evaluate_total [OF ok] no_action_def Let_def)
  qed
qed



end
