(* ===== verification/LRU_Shape.thy ===== *)
theory LRU_Shape
  imports LRU_Heap
begin

text \<open>
  The shape of the list in the store: doubly linked segments (\<open>dll\<close>), how the pointer
  writes of \<open>LRU_Heap\<close> change a segment, and what each of them leaves alone. Nothing here
  mentions the cache's map or counters.
\<close>

subsection \<open>Segments\<close>

fun dll :: "('k, 'v) heap \<Rightarrow> addr option \<Rightarrow> addr list \<Rightarrow> addr option \<Rightarrow> bool" where
  "dll h p [] q = True"
| "dll h p (a # as) q =
     ((case h a of None \<Rightarrow> False | Some n \<Rightarrow> nprev n = p \<and> nnext n = first_of as q) \<and>
      dll h (Some a) as q)"

lemma dll_append [simp]:
  "dll h p (xs @ ys) q \<longleftrightarrow> dll h p xs (first_of ys q) \<and> dll h (last_of xs p) ys q"
  by (induction xs arbitrary: p) (auto split: option.splits)

lemma dll_frame [simp]: "a \<notin> set as \<Longrightarrow> dll (h(a := x)) p as q = dll h p as q"
  by (induction as arbitrary: p) auto

lemma dll_cong: "(\<And>b. b \<in> set as \<Longrightarrow> h' b = h b) \<Longrightarrow> dll h' p as q = dll h p as q"
  by (induction as arbitrary: p) auto

lemma dll_alive: "dll h p as q \<Longrightarrow> a \<in> set as \<Longrightarrow> h a \<noteq> None"
  by (induction as arbitrary: p) (auto split: option.splits)

lemma dll_write_value:
  "h a = Some n \<Longrightarrow> dll (h(a \<mapsto> n\<lparr>nvalue := v\<rparr>)) p as q = dll h p as q"
  by (induction as arbitrary: p) auto

subsection \<open>What a pointer write changes\<close>

text \<open>The key and value part of a node, which no pointer write touches.\<close>

definition payload :: "('k, 'v) heap \<Rightarrow> addr \<Rightarrow> ('k \<times> 'v) option" where
  "payload h a = map_option (\<lambda>n. (nkey n, nvalue n)) (h a)"

lemma payload_upd [simp]:
  "payload (h(a := None)) = (payload h)(a := None)"
  "payload (h(a \<mapsto> n)) = (payload h)(a \<mapsto> (nkey n, nvalue n))"
  by (auto simp: payload_def fun_eq_iff)

lemma payload_None [simp]: "payload h a = None \<longleftrightarrow> h a = None"
  by (simp add: payload_def)

lemma dom_payload: "dom (payload h) = dom h"
  by (simp add: dom_def)

lemma payload_Some: "h a = Some n \<Longrightarrow> payload h a = Some (nkey n, nvalue n)"
  by (simp add: payload_def)

text \<open>\<open>relinked S h h'\<close>: \<open>h'\<close> differs from \<open>h\<close> at most in the links of the nodes \<open>S\<close>.\<close>

definition relinked :: "addr set \<Rightarrow> ('k, 'v) heap \<Rightarrow> ('k, 'v) heap \<Rightarrow> bool" where
  "relinked S h h' \<longleftrightarrow> payload h' = payload h \<and> (\<forall>b. b \<notin> S \<longrightarrow> h' b = h b)"

lemma relinked_refl [simp]: "relinked S h h"
  by (simp add: relinked_def)

lemma relinked_trans: "relinked S h h' \<Longrightarrow> relinked T h' h'' \<Longrightarrow> relinked (S \<union> T) h h''"
  by (simp add: relinked_def)

lemma relinked_mono: "relinked S h h' \<Longrightarrow> S \<subseteq> T \<Longrightarrow> relinked T h h'"
  by (auto simp: relinked_def)

lemma relinked_payload: "relinked S h h' \<Longrightarrow> payload h' = payload h"
  by (simp add: relinked_def)

lemma relinked_dom: "relinked S h h' \<Longrightarrow> dom h' = dom h"
  by (metis dom_payload relinked_payload)

lemma relinked_outside: "relinked S h h' \<Longrightarrow> b \<notin> S \<Longrightarrow> h' b = h b"
  by (simp add: relinked_def)

lemma relinked_dll: "relinked S h h' \<Longrightarrow> S \<inter> set as = {} \<Longrightarrow> dll h' p as q = dll h p as q"
  by (rule dll_cong) (auto simp: relinked_def)

lemma write_next_relinked: "write_next h a q = Some h' \<Longrightarrow> relinked {a} h h'"
  by (cases "h a") (auto simp: write_next_def relinked_def payload_Some)

lemma write_prev_relinked: "write_prev h a q = Some h' \<Longrightarrow> relinked {a} h h'"
  by (cases "h a") (auto simp: write_prev_def relinked_def payload_Some)

subsection \<open>Redirecting the ends of a segment\<close>

lemma link_next_end:
  assumes "dll h p xs q" and "distinct xs"
  shows "\<exists>h'. link_next h (last_of xs None) q' = Some h' \<and> dll h' p xs q' \<and>
    relinked (set xs) h h'"
proof (cases xs rule: rev_cases)
  case Nil
  then show ?thesis by (simp add: link_next_def)
next
  case (snoc ys b)
  with assms obtain n where n: "h b = Some n" "nprev n = last_of ys p"
    by (auto split: option.splits)
  then have w: "write_next h b q' = Some (h(b \<mapsto> n\<lparr>nnext := q'\<rparr>))"
    by (simp add: write_next_def)
  from write_next_relinked [OF this] have "relinked (set xs) h (h(b \<mapsto> n\<lparr>nnext := q'\<rparr>))"
    by (rule relinked_mono) (simp add: snoc)
  with snoc assms n w show ?thesis
    by (simp add: link_next_def)
qed

lemma link_prev_end:
  assumes "dll h p ys q" and "distinct ys"
  shows "\<exists>h'. link_prev h (first_of ys None) p' = Some h' \<and> dll h' p' ys q \<and>
    relinked (set ys) h h'"
proof (cases ys)
  case Nil
  then show ?thesis by (simp add: link_prev_def)
next
  case (Cons b zs)
  with assms obtain n where n: "h b = Some n" "nnext n = first_of zs q"
    by (auto split: option.splits)
  then have w: "write_prev h b p' = Some (h(b \<mapsto> n\<lparr>nprev := p'\<rparr>))"
    by (simp add: write_prev_def)
  from write_prev_relinked [OF this] have "relinked (set ys) h (h(b \<mapsto> n\<lparr>nprev := p'\<rparr>))"
    by (rule relinked_mono) (simp add: Cons)
  with Cons assms n w show ?thesis
    by (simp add: link_prev_def)
qed

end
