(* ===== verification/LRU_Spec.thy ===== *)
theory LRU_Spec
  imports Prelude
begin

text \<open>
  What an LRU cache promises, with no pointers: the entries in order of use, most recent
  first, the capacity and the two counters. The operations here are the contract that
  \<open>LRU_Refine\<close> proves of the pointer code, and every statement about the policy (which
  entry is evicted, how many stay) is made here.
\<close>

record ('k, 'v) lru_view =
  capacity :: u64
  items :: "('k \<times> 'v) list"
  hits :: u64
  misses :: u64

definition drop_key :: "'k \<Rightarrow> ('k \<times> 'v) list \<Rightarrow> ('k \<times> 'v) list" where
  "drop_key k xs = filter (\<lambda>p. fst p \<noteq> k) xs"

definition spec_new :: "u64 \<Rightarrow> ('k, 'v) lru_view" where
  "spec_new n = \<lparr>capacity = n, items = [], hits = 0, misses = 0\<rparr>"

definition spec_get :: "'k \<Rightarrow> ('k, 'v) lru_view \<Rightarrow> 'v option \<times> ('k, 'v) lru_view" where
  "spec_get k s = (case map_of (items s) k of
     None \<Rightarrow> (None, s\<lparr>misses := misses s + 1\<rparr>)
   | Some v \<Rightarrow> (Some v, s\<lparr>items := (k, v) # drop_key k (items s), hits := hits s + 1\<rparr>))"

definition spec_put :: "'k \<Rightarrow> 'v \<Rightarrow> ('k, 'v) lru_view \<Rightarrow> ('k, 'v) lru_view" where
  "spec_put k v s =
     (if map_of (items s) k \<noteq> None then s\<lparr>items := (k, v) # drop_key k (items s)\<rparr>
      else if length (items s) = unat (capacity s)
      then s\<lparr>items := (k, v) # butlast (items s)\<rparr>
      else s\<lparr>items := (k, v) # items s\<rparr>)"

definition spec_evict_to :: "u64 \<Rightarrow> ('k, 'v) lru_view \<Rightarrow> ('k, 'v) lru_view" where
  "spec_evict_to n s = s\<lparr>items := take (unat n) (items s)\<rparr>"

definition spec_resize :: "u64 \<Rightarrow> ('k, 'v) lru_view \<Rightarrow> ('k, 'v) lru_view" where
  "spec_resize n s = s\<lparr>capacity := n, items := take (unat n) (items s)\<rparr>"

definition spec_reset_stats :: "('k, 'v) lru_view \<Rightarrow> ('k, 'v) lru_view" where
  "spec_reset_stats s = s\<lparr>hits := 0, misses := 0\<rparr>"

datatype ('k, 'v) cache_op =
    Get 'k
  | Put 'k 'v
  | EvictTo u64
  | Resize u64
  | ResetStats

fun spec_exec :: "('k, 'v) cache_op \<Rightarrow> ('k, 'v) lru_view \<Rightarrow> 'v option \<times> ('k, 'v) lru_view" where
  "spec_exec (Get k) s = spec_get k s"
| "spec_exec (Put k v) s = (None, spec_put k v s)"
| "spec_exec (EvictTo n) s = (None, spec_evict_to n s)"
| "spec_exec (Resize n) s = (None, spec_resize n s)"
| "spec_exec ResetStats s = (None, spec_reset_stats s)"

lemmas spec_defs = spec_new_def spec_get_def spec_put_def spec_evict_to_def spec_resize_def
  spec_reset_stats_def

subsection \<open>Entries\<close>

lemma drop_key_simps [simp]:
  "drop_key k [] = []"
  "drop_key k (p # xs) = (if fst p = k then drop_key k xs else p # drop_key k xs)"
  "drop_key k (xs @ ys) = drop_key k xs @ drop_key k ys"
  by (simp_all add: drop_key_def)

lemma drop_key_id: "k \<notin> fst ` set xs \<Longrightarrow> drop_key k xs = xs"
  unfolding drop_key_def by (rule filter_True) auto

lemma fst_drop_key: "map fst (drop_key k xs) = filter (\<lambda>j. j \<noteq> k) (map fst xs)"
  by (induction xs) auto

lemma set_drop_key: "set (drop_key k xs) = {p \<in> set xs. fst p \<noteq> k}"
  by (auto simp: drop_key_def)

lemma length_drop_key:
  "distinct (map fst xs) \<Longrightarrow> k \<in> fst ` set xs \<Longrightarrow> Suc (length (drop_key k xs)) = length xs"
  by (induction xs) (auto simp: drop_key_id image_iff)

definition distinct_keys :: "('k, 'v) lru_view \<Rightarrow> bool" where
  "distinct_keys s \<longleftrightarrow> distinct (map fst (items s))"

lemma map_of_not_None: "map_of xs k \<noteq> None \<longleftrightarrow> k \<in> fst ` set xs"
  by (simp add: map_of_eq_None_iff)

lemma distinct_butlast_fst: "distinct (map fst xs) \<Longrightarrow> distinct (map fst (butlast xs))"
  by (simp add: map_butlast distinct_butlast)

lemma spec_exec_distinct: "distinct_keys s \<Longrightarrow> distinct_keys (snd (spec_exec x s))"
proof (cases x)
  case (Put k v)
  assume "distinct_keys s"
  moreover have "k \<notin> fst ` set (butlast (items s))" if "k \<notin> fst ` set (items s)"
    using that by (auto dest: in_set_butlastD)
  ultimately show ?thesis
    using Put by (auto simp: distinct_keys_def spec_put_def fst_drop_key map_of_eq_None_iff
        distinct_butlast_fst)
qed (auto simp: distinct_keys_def spec_defs fst_drop_key take_map distinct_take
      simp flip: take_map split: option.splits)

subsection \<open>Size\<close>

lemma spec_get_length:
  assumes "distinct_keys s"
  shows "length (items (snd (spec_get k s))) = length (items s)"
proof (cases "map_of (items s) k")
  case (Some v)
  then have "k \<in> fst ` set (items s)"
    by (metis map_of_not_None option.distinct(1))
  with Some assms show ?thesis
    by (simp add: spec_get_def distinct_keys_def length_drop_key)
qed (simp add: spec_get_def)

lemma spec_put_length:
  assumes "distinct_keys s"
  shows "length (items (spec_put k v s)) =
    (if k \<in> fst ` set (items s) then length (items s)
     else if length (items s) = unat (capacity s) \<and> items s \<noteq> [] then length (items s)
     else Suc (length (items s)))"
  using assms
  by (auto simp: spec_put_def map_of_eq_None_iff distinct_keys_def length_drop_key)
    (metis One_nat_def Suc_pred length_greater_0_conv)

text \<open>The bound a capacity is meant to give. It is kept by every operation as long as the
  capacity is not zero; with capacity zero, \<open>put\<close> finds \<open>size_ == capacity_\<close> with nothing to
  evict and inserts anyway.\<close>

definition within_capacity :: "('k, 'v) lru_view \<Rightarrow> bool" where
  "within_capacity s \<longleftrightarrow> capacity s = 0 \<or> length (items s) \<le> unat (capacity s)"

lemma within_capacity_new: "within_capacity (spec_new n)"
  by (simp add: within_capacity_def spec_new_def)

lemma spec_put_capacity [simp]: "capacity (spec_put k v s) = capacity s"
  by (simp add: spec_put_def)

lemma spec_get_capacity [simp]: "capacity (snd (spec_get k s)) = capacity s"
  by (simp add: spec_get_def split: option.split)

lemma spec_put_within:
  assumes "distinct_keys s" and "within_capacity s"
  shows "within_capacity (spec_put k v s)"
proof (cases "capacity s = 0")
  case False
  then have "0 < unat (capacity s)"
    by (simp add: unat_gt_0)
  with False assms show ?thesis
    by (auto simp: within_capacity_def spec_put_length)
qed (simp add: within_capacity_def)

lemma spec_exec_within:
  assumes "distinct_keys s" and "within_capacity s"
  shows "within_capacity (snd (spec_exec x s))"
proof (cases x)
  case (Get k)
  with assms show ?thesis
    by (simp add: within_capacity_def spec_get_length)
next
  case (Put k v)
  with assms show ?thesis by (simp add: spec_put_within)
next
  case (EvictTo n)
  with assms show ?thesis
    by (auto simp: within_capacity_def spec_evict_to_def)
qed (use assms in \<open>auto simp: within_capacity_def spec_resize_def spec_reset_stats_def\<close>)

subsection \<open>The cache as its clients use it\<close>

text \<open>The entries of a cache come from a stock: keys and values of two given sets.\<close>

definition stocked :: "'k set \<Rightarrow> 'v set \<Rightarrow> ('k, 'v) lru_view \<Rightarrow> bool" where
  "stocked K V s \<longleftrightarrow> distinct_keys s \<and> set (items s) \<subseteq> K \<times> V"

lemma stocked_new: "stocked K V (spec_new n)"
  by (simp add: stocked_def distinct_keys_def spec_new_def)

lemma stocked_length: "stocked K V s \<Longrightarrow> finite K \<Longrightarrow> length (items s) \<le> card K"
proof -
  assume s: "stocked K V s" and "finite K"
  then have "card (fst ` set (items s)) \<le> card K" by (intro card_mono) (auto simp: stocked_def)
  moreover have "card (fst ` set (items s)) = length (items s)"
    using s distinct_card [of "map fst (items s)"] by (simp add: stocked_def distinct_keys_def)
  ultimately show ?thesis by simp
qed

lemma stocked_resize: "stocked K V s \<Longrightarrow> stocked K V (spec_resize n s)"
  using spec_exec_distinct [of s "Resize n"]
  by (auto simp: stocked_def spec_resize_def dest: in_set_takeD)

lemma stocked_put: "stocked K V s \<Longrightarrow> k \<in> K \<Longrightarrow> v \<in> V \<Longrightarrow> stocked K V (spec_put k v s)"
  using spec_exec_distinct [of s "Put k v"]
  by (auto simp: stocked_def spec_put_def set_drop_key dest: in_set_butlastD)

lemma stocked_get: "stocked K V s \<Longrightarrow> stocked K V (snd (spec_get k s))"
  using spec_exec_distinct [of s "Get k"]
  by (auto simp: stocked_def spec_get_def set_drop_key dest: map_of_SomeD split: option.splits)

lemma spec_put_counters [simp]:
  "hits (spec_put k v s) = hits s" "misses (spec_put k v s) = misses s"
  by (simp_all add: spec_put_def)

lemma spec_get_counters:
  "hits (snd (spec_get k s)) + misses (snd (spec_get k s)) = hits s + misses s + 1"
  by (simp add: spec_get_def split: option.splits)

text \<open>The operations a client of the cache calls, with what they promise: they do not fail, and
  act as the specification says. A put needs room for one more entry in the 64-bit counter; a
  stock of fewer than \<open>2^64\<close> keys gives it.\<close>

locale cache_store =
  fixes rep :: "'c \<Rightarrow> ('k, 'v) lru_view \<Rightarrow> bool"
    and get :: "'k \<Rightarrow> 'c \<Rightarrow> ('v option \<times> 'c) option"
    and put :: "'k \<Rightarrow> 'v \<Rightarrow> 'c \<Rightarrow> 'c option"
    and resize :: "u64 \<Rightarrow> 'c \<Rightarrow> 'c option"
  assumes get_law: "rep c s \<Longrightarrow> \<exists>c'. get k c = Some (fst (spec_get k s), c') \<and> rep c' (snd (spec_get k s))"
    and put_law: "rep c s \<Longrightarrow> length (items (spec_put k v s)) < 2 ^ 64 \<Longrightarrow>
      \<exists>c'. put k v c = Some c' \<and> rep c' (spec_put k v s)"
    and resize_law: "rep c s \<Longrightarrow> \<exists>c'. resize n c = Some c' \<and> rep c' (spec_resize n s)"
begin

lemma put_stocked:
  assumes "rep c s" and "stocked K V s" and "finite K" and "card K < 2 ^ 64" and "k \<in> K" and "v \<in> V"
  shows "\<exists>c'. put k v c = Some c' \<and> rep c' (spec_put k v s) \<and> stocked K V (spec_put k v s)"
proof -
  have st: "stocked K V (spec_put k v s)" using assms(2,5,6) by (rule stocked_put)
  then have "length (items (spec_put k v s)) < 2 ^ 64" using stocked_length [OF _ assms(3)] assms(4) by fastforce
  with put_law [OF assms(1)] st show ?thesis by blast
qed

lemma get_stocked:
  assumes "rep c s" and "stocked K V s"
  shows "\<exists>r c' s'. get k c = Some (r, c') \<and> rep c' s' \<and> stocked K V s' \<and>
    hits s' + misses s' = hits s + misses s + 1 \<and> (case r of None \<Rightarrow> True | Some v \<Rightarrow> v \<in> V)"
proof -
  have "case fst (spec_get k s) of None \<Rightarrow> True | Some v \<Rightarrow> v \<in> V"
    using assms(2) by (auto simp: spec_get_def stocked_def dest: map_of_SomeD split: option.splits)
  with get_law [OF assms(1), of k] stocked_get [OF assms(2), of k] spec_get_counters [of k s] show ?thesis by blast
qed

lemma resize_stocked:
  "rep c s \<Longrightarrow> stocked K V s \<Longrightarrow>
   \<exists>c'. resize n c = Some c' \<and> rep c' (spec_resize n s) \<and> stocked K V (spec_resize n s)"
  using resize_law stocked_resize by blast

end

end
