(* ===== verification/LRU_Refine.thy ===== *)
theory LRU_Refine
  imports LRU_Shape LRU_Spec
begin

text \<open>
  The pointer code of \<open>LRU_Heap\<close> implements \<open>LRU_Spec\<close>. The representation relation says
  that the nodes reachable from \<open>head_\<close> are exactly the live ones, in a well-formed doubly
  linked list, that \<open>map_\<close> indexes them by key, and that \<open>size_\<close> counts them. Each operation
  is shown to run without undefined behaviour from such a state, into such a state, with the
  result and the entries the specification gives.
\<close>

subsection \<open>The representation\<close>

definition rep_links :: "('k, 'v) lru \<Rightarrow> addr list \<Rightarrow> bool" where
  "rep_links c as \<longleftrightarrow> dll (lru_heap c) None as None \<and> distinct as \<and>
     lru_head c = first_of as None \<and> lru_tail c = last_of as None"

definition rep_index :: "('k, 'v) lru \<Rightarrow> addr list \<Rightarrow> bool" where
  "rep_index c as \<longleftrightarrow> dom (lru_heap c) = set as \<and>
     (\<forall>k a. lru_map c k = Some a \<longleftrightarrow> (\<exists>v. payload (lru_heap c) a = Some (k, v))) \<and>
     (\<forall>a \<in> set as. a < lru_brk c)"

definition lru_rep :: "('k, 'v) lru \<Rightarrow> addr list \<Rightarrow> bool" where
  "lru_rep c as \<longleftrightarrow> rep_links c as \<and> rep_index c as \<and> unat (lru_size c) = length as"

definition lru_items :: "('k, 'v) lru \<Rightarrow> addr list \<Rightarrow> ('k \<times> 'v) list" where
  "lru_items c as = map (\<lambda>a. the (payload (lru_heap c) a)) as"

definition lru_view_of :: "('k, 'v) lru \<Rightarrow> addr list \<Rightarrow> ('k, 'v) lru_view" where
  "lru_view_of c as = \<lparr>capacity = lru_capacity c, items = lru_items c as,
     hits = lru_hits c, misses = lru_misses c\<rparr>"

lemma view_select [simp]:
  "capacity (lru_view_of c as) = lru_capacity c"
  "items (lru_view_of c as) = lru_items c as"
  "hits (lru_view_of c as) = lru_hits c"
  "misses (lru_view_of c as) = lru_misses c"
  by (simp_all add: lru_view_of_def)

lemma length_lru_items [simp]: "length (lru_items c as) = length as"
  by (simp add: lru_items_def)

lemma rep_alive: "lru_rep c as \<Longrightarrow> a \<in> set as \<Longrightarrow> \<exists>k v. payload (lru_heap c) a = Some (k, v)"
proof -
  assume "lru_rep c as" "a \<in> set as"
  then obtain n where "lru_heap c a = Some n"
    by (metis domD lru_rep_def rep_index_def)
  then show ?thesis by (auto simp: payload_def)
qed

lemma rep_lookup:
  assumes "lru_rep c as" and "lru_map c k = Some a"
  obtains v where "payload (lru_heap c) a = Some (k, v)" and "a \<in> set as"
proof -
  from assms obtain v where v: "payload (lru_heap c) a = Some (k, v)"
    by (auto simp: lru_rep_def rep_index_def)
  then have "a \<in> dom (lru_heap c)"
    by (metis dom_payload domI)
  with v assms that show ?thesis
    by (auto simp: lru_rep_def rep_index_def)
qed

lemma rep_keys_distinct: "lru_rep c as \<Longrightarrow> distinct (map fst (lru_items c as))"
proof -
  assume r: "lru_rep c as"
  have "inj_on (\<lambda>a. fst (the (payload (lru_heap c) a))) (set as)"
  proof (rule inj_onI)
    fix a b
    assume a: "a \<in> set as" and b: "b \<in> set as"
      and eq: "fst (the (payload (lru_heap c) a)) = fst (the (payload (lru_heap c) b))"
    obtain k v w where "payload (lru_heap c) a = Some (k, v)" "payload (lru_heap c) b = Some (k, w)"
      using rep_alive [OF r a] rep_alive [OF r b] eq by auto
    with r have "lru_map c k = Some a" "lru_map c k = Some b"
      by (auto simp: lru_rep_def rep_index_def)
    then show "a = b" by simp
  qed
  with r show ?thesis
    by (simp add: lru_items_def distinct_map comp_def lru_rep_def rep_links_def)
qed

lemma rep_view_distinct: "lru_rep c as \<Longrightarrow> distinct_keys (lru_view_of c as)"
  by (simp add: distinct_keys_def lru_view_of_def rep_keys_distinct)

lemma rep_map_of:
  assumes "lru_rep c as"
  shows "map_of (lru_items c as) k =
    (case lru_map c k of None \<Rightarrow> None | Some a \<Rightarrow> map_option snd (payload (lru_heap c) a))"
proof (cases "lru_map c k")
  case None
  have "k \<notin> fst ` set (lru_items c as)"
  proof
    assume "k \<in> fst ` set (lru_items c as)"
    then obtain a where a: "a \<in> set as" "k = fst (the (payload (lru_heap c) a))"
      by (auto simp: lru_items_def)
    with rep_alive [OF assms a(1)] obtain v where "payload (lru_heap c) a = Some (k, v)"
      by auto
    with assms have "lru_map c k = Some a"
      unfolding lru_rep_def rep_index_def by blast
    with None show False by simp
  qed
  with None show ?thesis by (simp add: map_of_eq_None_iff)
next
  case (Some a)
  from assms Some obtain v where v: "payload (lru_heap c) a = Some (k, v)" "a \<in> set as"
    by (rule rep_lookup)
  then have "(k, v) \<in> set (lru_items c as)"
    by (force simp: lru_items_def)
  with assms v Some show ?thesis
    by (simp add: rep_keys_distinct)
qed

lemma rep_new: "lru_rep (lru_new n) []" "lru_view_of (lru_new n) [] = spec_new n"
  by (simp_all add: lru_rep_def rep_links_def rep_index_def lru_new_def lru_view_of_def
      lru_items_def spec_new_def payload_def)

subsection \<open>Pointer surgery\<close>

lemma add_to_front_links:
  assumes "rep_links c as" and "a \<notin> set as" and "lru_heap c a = Some n"
  shows "\<exists>h. add_to_front a c =
      Some (c\<lparr>lru_heap := h, lru_head := Some a, lru_tail := last_of (a # as) None\<rparr>) \<and>
    dll h None (a # as) None \<and> relinked (insert a (set as)) (lru_heap c) h"
proof -
  let ?h = "lru_heap c" and ?n = "n\<lparr>nnext := lru_head c, nprev := None\<rparr>"
  let ?h2 = "?h(a \<mapsto> ?n)"
  have r2: "relinked {a} ?h ?h2"
    using assms(3) by (auto simp: relinked_def payload_Some)
  from assms have d2: "dll ?h2 None as None" and "distinct as"
    by (simp_all add: rep_links_def)
  from link_prev_end [OF this, of "Some a"] obtain h3
    where h3: "link_prev ?h2 (first_of as None) (Some a) = Some h3" "dll h3 (Some a) as None"
      "relinked (set as) ?h2 h3" by blast
  have "h3 a = Some ?n"
    using relinked_outside [OF h3(3) assms(2)] by simp
  moreover have "relinked (insert a (set as)) ?h h3"
    using relinked_trans [OF r2 h3(3)] by simp
  ultimately show ?thesis
    using assms h3
    by (intro exI [of _ h3]) (auto simp: add_to_front_def write_next_def write_prev_def
        rep_links_def last_of_def split: if_splits)
qed

lemma unlink_links:
  assumes "rep_links c (xs @ a # ys)"
  shows "\<exists>h. unlink a c = Some (c\<lparr>lru_heap := h, lru_tail := last_of (xs @ ys) None\<rparr>) \<and>
    dll h None (xs @ ys) None \<and> relinked (set (xs @ ys)) (lru_heap c) h"
proof -
  let ?h = "lru_heap c"
  from assms obtain n where n: "?h a = Some n" "nprev n = last_of xs None" "nnext n = first_of ys None"
    and d: "dll ?h None xs (Some a)" "dll ?h (Some a) ys None"
    and ds: "distinct xs" "distinct ys" "set xs \<inter> set ys = {}" "a \<notin> set xs" "a \<notin> set ys"
    by (auto simp: rep_links_def split: option.splits)
  from link_next_end [OF d(1) ds(1), of "first_of ys None"] obtain h1
    where h1: "link_next ?h (last_of xs None) (first_of ys None) = Some h1"
      "dll h1 None xs (first_of ys None)" "relinked (set xs) ?h h1" by blast
  have h1a: "h1 a = Some n" and "dll h1 (Some a) ys None"
    using relinked_outside [OF h1(3) ds(4)] relinked_dll [OF h1(3) ds(3)] n d by simp_all
  from link_prev_end [OF this(2) ds(2), of "last_of xs None"] obtain h2
    where h2: "link_prev h1 (first_of ys None) (last_of xs None) = Some h2"
      "dll h2 (last_of xs None) ys None" "relinked (set ys) h1 h2" by blast
  have "dll h2 None xs (first_of ys None)" and h2a: "h2 a = Some n"
    using relinked_dll [OF h2(3), of xs] relinked_outside [OF h2(3) ds(5)] ds h1 h1a
    by (simp_all add: Int_commute)
  with h2 have "dll h2 None (xs @ ys) None" by simp
  moreover have "relinked (set (xs @ ys)) ?h h2"
    using relinked_trans [OF h1(3) h2(3)] by simp
  moreover have "(if lru_tail c = Some a then last_of xs None else lru_tail c) = last_of (xs @ ys) None"
    using assms ds by (cases ys rule: rev_cases) (auto simp: rep_links_def)
  ultimately show ?thesis
    using n h1 h1a h2 h2a by (auto simp: unlink_def intro!: exI [of _ h2])
qed

lemma move_to_front_links:
  assumes "rep_links c (xs @ a # ys)"
  shows "\<exists>h. move_to_front a c =
      Some (c\<lparr>lru_heap := h, lru_head := Some a, lru_tail := last_of (a # xs @ ys) None\<rparr>) \<and>
    dll h None (a # xs @ ys) None \<and> relinked (set (xs @ a # ys)) (lru_heap c) h"
proof (cases xs)
  case Nil
  with assms show ?thesis
    by (auto simp: move_to_front_def rep_links_def intro!: exI [of _ "lru_heap c"])
next
  case (Cons b zs)
  then have "lru_head c \<noteq> Some a"
    using assms by (auto simp: rep_links_def)
  moreover from unlink_links [OF assms] obtain h1
    where h1: "unlink a c = Some (c\<lparr>lru_heap := h1, lru_tail := last_of (xs @ ys) None\<rparr>)"
      "dll h1 None (xs @ ys) None" "relinked (set (xs @ ys)) (lru_heap c) h1" by blast
  let ?c1 = "c\<lparr>lru_heap := h1, lru_tail := last_of (xs @ ys) None\<rparr>"
  have l1: "rep_links ?c1 (xs @ ys)" and a: "a \<notin> set (xs @ ys)"
    using assms h1 Cons by (auto simp: rep_links_def)
  have "lru_heap c a \<noteq> None"
    using assms by (auto simp: rep_links_def dest: dll_alive split: option.splits)
  then obtain n where "lru_heap ?c1 a = Some n"
    using relinked_outside [OF h1(3) a] by auto
  from add_to_front_links [OF l1 a this] obtain h2
    where h2: "add_to_front a ?c1 =
        Some (?c1\<lparr>lru_heap := h2, lru_head := Some a, lru_tail := last_of (a # xs @ ys) None\<rparr>)"
      "dll h2 None (a # xs @ ys) None" "relinked (insert a (set (xs @ ys))) h1 h2" by auto
  have "relinked (set (xs @ a # ys)) (lru_heap c) h2"
    using relinked_trans [OF h1(3) h2(3)] by (rule relinked_mono) auto
  ultimately show ?thesis
    using h1 h2 by (intro exI [of _ h2]) (simp add: move_to_front_def)
qed

subsection \<open>Each operation from a represented state\<close>

lemma rep_ignores_stats [simp]:
  "lru_rep (c\<lparr>lru_hits := x\<rparr>) as = lru_rep c as"
  "lru_rep (c\<lparr>lru_misses := x\<rparr>) as = lru_rep c as"
  "lru_rep (c\<lparr>lru_capacity := n\<rparr>) as = lru_rep c as"
  "lru_items (c\<lparr>lru_hits := x\<rparr>) as = lru_items c as"
  "lru_items (c\<lparr>lru_misses := x\<rparr>) as = lru_items c as"
  "lru_items (c\<lparr>lru_capacity := n\<rparr>) as = lru_items c as"
  by (simp_all add: lru_rep_def rep_links_def rep_index_def lru_items_def)

lemma rep_map_None: "lru_rep c as \<Longrightarrow> lru_map c k = None \<longleftrightarrow> k \<notin> fst ` set (lru_items c as)"
proof -
  assume r: "lru_rep c as"
  have "map_of (lru_items c as) k = None \<longleftrightarrow> lru_map c k = None"
  proof (cases "lru_map c k")
    case None
    with r show ?thesis by (simp add: rep_map_of)
  next
    case (Some a)
    with r obtain v where "payload (lru_heap c) a = Some (k, v)" by (rule rep_lookup)
    with r Some show ?thesis by (simp add: rep_map_of)
  qed
  then show ?thesis by (simp add: map_of_eq_None_iff)
qed

lemma move_to_front_rep:
  assumes "lru_rep c (xs @ a # ys)"
  shows "\<exists>h c'. move_to_front a c = Some c' \<and> lru_rep c' (a # xs @ ys) \<and>
    c' = c\<lparr>lru_heap := h, lru_head := Some a, lru_tail := last_of (a # xs @ ys) None\<rparr> \<and>
    payload h = payload (lru_heap c)"
proof -
  from assms have l: "rep_links c (xs @ a # ys)" by (simp add: lru_rep_def)
  from move_to_front_links [OF this] obtain h
    where h: "move_to_front a c =
        Some (c\<lparr>lru_heap := h, lru_head := Some a, lru_tail := last_of (a # xs @ ys) None\<rparr>)"
      "dll h None (a # xs @ ys) None" "relinked (set (xs @ a # ys)) (lru_heap c) h" by blast
  from h(3) have p: "payload h = payload (lru_heap c)" and d: "dom h = dom (lru_heap c)"
    by (rule relinked_payload, rule relinked_dom)
  show ?thesis
    using assms l h p d
    by (intro exI [of _ h]) (auto simp: lru_rep_def rep_links_def rep_index_def)
qed

lemma drop_key_items:
  assumes "lru_rep c (xs @ a # ys)" and "payload (lru_heap c) a = Some (k, v)"
  shows "drop_key k (lru_items c (xs @ a # ys)) = lru_items c xs @ lru_items c ys"
proof -
  have "distinct (map fst (lru_items c xs @ (k, v) # lru_items c ys))"
    using rep_keys_distinct [OF assms(1)] assms(2) by (simp add: lru_items_def)
  then have "k \<notin> fst ` set (lru_items c xs)" "k \<notin> fst ` set (lru_items c ys)"
    by auto
  then show ?thesis
    using assms(2) by (simp add: lru_items_def drop_key_id)
qed

definition lru_implements :: "('k, 'v) lru \<Rightarrow> ('k, 'v) lru_view \<Rightarrow> bool" where
  "lru_implements c s \<longleftrightarrow> (\<exists>as. lru_rep c as \<and> lru_view_of c as = s)"

lemma implements_new: "lru_implements (lru_new n) (spec_new n)"
  unfolding lru_implements_def using rep_new by blast

lemma get_refines:
  assumes "lru_implements c s"
  shows "\<exists>c'. lru_get k c = Some (fst (spec_get k s), c') \<and> lru_implements c' (snd (spec_get k s))"
proof -
  from assms obtain as where r: "lru_rep c as" and s: "s = lru_view_of c as"
    by (auto simp: lru_implements_def)
  show ?thesis
  proof (cases "lru_map c k")
    case None
    with r s show ?thesis
      by (auto simp: lru_get_def spec_get_def rep_map_of lru_view_of_def lru_implements_def)
  next
    case (Some a)
    with r obtain v where v: "payload (lru_heap c) a = Some (k, v)" and a: "a \<in> set as"
      by (rule rep_lookup)
    from a obtain xs ys where as: "as = xs @ a # ys" by (auto simp: in_set_conv_decomp)
    let ?c = "c\<lparr>lru_hits := lru_hits c + 1\<rparr>"
    have "lru_rep ?c (xs @ a # ys)" using r as by simp
    from move_to_front_rep [OF this] obtain h c'
      where m: "move_to_front a ?c = Some c'" "lru_rep c' (a # xs @ ys)"
        "c' = ?c\<lparr>lru_heap := h, lru_head := Some a, lru_tail := last_of (a # xs @ ys) None\<rparr>"
        "payload h = payload (lru_heap ?c)" by blast
    then have "payload h a = Some (k, v)" using v by simp
    then obtain n where n: "h a = Some n" "nvalue n = v"
      by (auto simp: payload_def)
    have i: "map_of (lru_items c as) k = Some v"
      using r Some v by (simp add: rep_map_of)
    have "lru_view_of c' (a # xs @ ys) = snd (spec_get k s)"
      using m v i s as r drop_key_items [of c xs a ys k v]
      by (simp add: lru_view_of_def spec_get_def lru_items_def)
    then show ?thesis
      using m n i s Some by (auto simp: lru_get_def spec_get_def lru_view_of_def lru_implements_def)
  qed
qed

text \<open>Erasing the last node and its key keeps the index.\<close>

lemma erase_index:
  assumes "rep_index c (xs @ [a])" and "a \<notin> set xs" and pn: "payload (lru_heap c) a = Some (k, v)"
    and p: "payload h = payload (lru_heap c)" and "dom h = dom (lru_heap c)"
  shows "rep_index (c\<lparr>lru_map := (lru_map c)(k := None), lru_tail := t, lru_head := f,
      lru_heap := h(a := None), lru_size := z\<rparr>) xs" (is "rep_index ?c' xs")
proof -
  have ix: "dom (lru_heap c) = set (xs @ [a])" "\<forall>b \<in> set (xs @ [a]). b < lru_brk c"
    "\<And>j b. lru_map c j = Some b \<longleftrightarrow> (\<exists>w. payload (lru_heap c) b = Some (j, w))"
    using assms(1) unfolding rep_index_def by blast+
  have uniq: "b = a" if "payload (lru_heap c) b = Some (k, w)" for b w
    using ix(3) [of k b] ix(3) [of k a] that pn by force
  have "lru_map ?c' j = Some b \<longleftrightarrow> (\<exists>w. payload (lru_heap ?c') b = Some (j, w))" for j b
  proof (cases "j = k")
    case True
    then have "payload (lru_heap ?c') b \<noteq> Some (j, w)" for w using uniq p by (cases "b = a") auto
    with True show ?thesis by simp
  next
    case False
    have "payload (lru_heap ?c') b = Some (j, w) \<longleftrightarrow> payload (lru_heap c) b = Some (j, w)" for w
      using False pn p by (cases "b = a") auto
    with False ix(3) show ?thesis by simp
  qed
  moreover have "dom (lru_heap ?c') = set xs" and "\<forall>b \<in> set xs. b < lru_brk ?c'"
    using ix(1,2) assms(2,5) by auto
  ultimately show ?thesis unfolding rep_index_def by blast
qed

lemma evict_refines:
  assumes "lru_rep c as"
  shows "\<exists>c'. evict_lru c = Some c' \<and> lru_rep c' (butlast as) \<and> lru_brk c' = lru_brk c \<and>
    lru_view_of c' (butlast as) = (lru_view_of c as)\<lparr>items := butlast (lru_items c as)\<rparr>"
proof (cases as rule: rev_cases)
  case Nil
  with assms show ?thesis
    by (auto simp: evict_lru_def lru_rep_def rep_links_def lru_view_of_def lru_items_def)
next
  case (snoc xs a)
  let ?h = "lru_heap c"
  from assms snoc obtain n where n: "?h a = Some n" "nprev n = last_of xs None"
    and d: "dll ?h None xs (Some a)" and ds: "distinct xs" "a \<notin> set xs" and t: "lru_tail c = Some a"
    by (auto simp: lru_rep_def rep_links_def split: option.splits)
  from link_next_end [OF d ds(1), of None] obtain h1
    where h1: "link_next ?h (last_of xs None) None = Some h1" "dll h1 None xs None"
      "relinked (set xs) ?h h1" by blast
  have h1a: "h1 a = Some n" using relinked_outside [OF h1(3) ds(2)] n by simp
  let ?c' = "c\<lparr>lru_map := (lru_map c)(nkey n := None), lru_tail := last_of xs None,
      lru_head := (if last_of xs None = None then None else lru_head c),
      lru_heap := h1(a := None), lru_size := lru_size c - 1\<rparr>"
  have e: "evict_lru c = Some ?c'"
    using n t h1(1) h1a by (simp add: evict_lru_def Let_def link_next_def)
  have p: "payload h1 = payload ?h" and dm: "dom h1 = dom ?h"
    using h1(3) by (rule relinked_payload, rule relinked_dom)
  have pn: "payload ?h a = Some (nkey n, nvalue n)" using n by (simp add: payload_def)
  have "rep_index c (xs @ [a])" using assms snoc by (simp add: lru_rep_def)
  then have "rep_index ?c' xs" using ds(2) pn p dm by (rule erase_index)
  moreover have "rep_links ?c' xs"
    using assms snoc ds h1(2) by (cases xs) (auto simp: lru_rep_def rep_links_def last_of_def)
  moreover have "unat (lru_size c - 1) = length xs"
    using assms snoc unat_pred_u64 [of "lru_size c"] by (simp add: lru_rep_def)
  ultimately have "lru_rep ?c' xs" by (simp add: lru_rep_def)
  moreover have "lru_items ?c' xs = lru_items c xs"
    using p ds by (auto simp: lru_items_def)
  ultimately show ?thesis
    using e snoc by (auto simp: lru_view_of_def lru_items_def)
qed

lemma write_value_rep:
  assumes "lru_rep c as" and "payload (lru_heap c) a = Some (k, w)"
  shows "\<exists>c'. write_value a v c = Some c' \<and> lru_rep c' as \<and>
    payload (lru_heap c') = (payload (lru_heap c))(a \<mapsto> (k, v)) \<and>
    lru_capacity c' = lru_capacity c \<and> lru_hits c' = lru_hits c \<and> lru_misses c' = lru_misses c"
proof -
  from assms obtain n where n: "lru_heap c a = Some n" "nkey n = k"
    by (auto simp: payload_def)
  let ?h = "(lru_heap c)(a \<mapsto> n\<lparr>nvalue := v\<rparr>)" and ?c' = "c\<lparr>lru_heap := (lru_heap c)(a \<mapsto> n\<lparr>nvalue := v\<rparr>)\<rparr>"
  have "(\<exists>v. payload ?h b = Some (j, v)) \<longleftrightarrow> (\<exists>v. payload (lru_heap c) b = Some (j, v))" for j b
    using assms(2) n by (cases "b = a") auto
  then have "rep_index ?c' as"
    using assms n unfolding lru_rep_def rep_index_def by auto
  moreover have "rep_links ?c' as"
    using assms n by (simp add: lru_rep_def rep_links_def dll_write_value)
  ultimately show ?thesis
    using assms n by (auto simp: write_value_def lru_rep_def)
qed

lemma insert_rep:
  assumes r: "lru_rep c as" and k: "lru_map c k = None" and len: "length as + 1 < 2 ^ 64"
    and new: "new_node k v c = (a, c2)"
  shows "\<exists>c3. add_to_front a (c2\<lparr>lru_map := (lru_map c2)(k \<mapsto> a)\<rparr>) = Some c3 \<and>
    lru_rep (c3\<lparr>lru_size := lru_size c3 + 1\<rparr>) (a # as) \<and>
    lru_view_of (c3\<lparr>lru_size := lru_size c3 + 1\<rparr>) (a # as) =
      (lru_view_of c as)\<lparr>items := (k, v) # lru_items c as\<rparr>"
proof -
  let ?h = "lru_heap c" and ?n = "\<lparr>nkey = k, nvalue = v, nprev = None, nnext = None\<rparr>"
  let ?c2 = "c2\<lparr>lru_map := (lru_map c2)(k \<mapsto> a)\<rparr>"
  have a: "a = lru_brk c" and c2: "c2 = c\<lparr>lru_heap := ?h(a \<mapsto> ?n), lru_brk := Suc a\<rparr>"
    using new by (auto simp: new_node_def)
  have fresh: "a \<notin> set as" and dom: "dom ?h = set as" and brk: "\<forall>b \<in> set as. b < a"
    and ix: "\<And>j b. lru_map c j = Some b \<longleftrightarrow> (\<exists>w. payload ?h b = Some (j, w))"
    using r a unfolding lru_rep_def rep_index_def by blast+
  have "rep_links ?c2 as" using r fresh c2 by (simp add: lru_rep_def rep_links_def)
  moreover have "lru_heap ?c2 a = Some ?n" using c2 by simp
  ultimately obtain h where h: "add_to_front a ?c2 =
      Some (?c2\<lparr>lru_heap := h, lru_head := Some a, lru_tail := last_of (a # as) None\<rparr>)"
    "dll h None (a # as) None" "relinked (insert a (set as)) (lru_heap ?c2) h"
    using add_to_front_links [OF _ fresh] by blast
  let ?c3 = "?c2\<lparr>lru_heap := h, lru_head := Some a, lru_tail := last_of (a # as) None\<rparr>"
  let ?c4 = "?c3\<lparr>lru_size := lru_size ?c3 + 1\<rparr>"
  have p: "payload h = (payload ?h)(a \<mapsto> (k, v))" and d: "dom h = insert a (set as)"
    using relinked_payload [OF h(3)] relinked_dom [OF h(3)] c2 dom by auto
  have nokey: "payload ?h b \<noteq> Some (k, w)" for b w
    using ix k by (metis option.distinct(1))
  have noa: "payload ?h a = None" using fresh dom by (auto simp: domIff)
  have "lru_map ?c4 j = Some b \<longleftrightarrow> (\<exists>w. payload h b = Some (j, w))" for j b
    using ix [of j b] nokey noa p c2 by (cases "j = k"; cases "b = a") auto
  moreover have "dom (lru_heap ?c4) = set (a # as)" and "\<forall>b \<in> set (a # as). b < lru_brk ?c4"
    using d brk c2 by auto
  ultimately have "rep_index ?c4 (a # as)" by (simp add: rep_index_def)
  moreover have "unat (lru_size ?c4) = length (a # as)"
    using r len c2 unat_Suc_u64 [of "lru_size c"] by (simp add: lru_rep_def)
  moreover have "rep_links ?c4 (a # as)"
    using h(2) r fresh c2 by (simp add: rep_links_def lru_rep_def)
  moreover have "lru_items ?c4 (a # as) = (k, v) # lru_items c as"
    using p fresh by (auto simp: lru_items_def)
  ultimately show ?thesis
    using h(1) c2 by (auto simp: lru_rep_def lru_view_of_def)
qed

lemma size_is_capacity:
  "lru_rep c as \<Longrightarrow> lru_size c = lru_capacity c \<longleftrightarrow> length (lru_items c as) = unat (lru_capacity c)"
  unfolding lru_rep_def lru_items_def by (simp add: word_unat_eq_iff)

lemma put_existing:
  assumes r: "lru_rep c as" and k: "lru_map c k = Some a"
  shows "\<exists>c'. lru_put k v c = Some c' \<and> lru_implements c' (spec_put k v (lru_view_of c as))"
proof -
  from r k obtain w where w: "payload (lru_heap c) a = Some (k, w)" and a: "a \<in> set as"
    by (rule rep_lookup)
  from a obtain xs ys where as: "as = xs @ a # ys" by (auto simp: in_set_conv_decomp)
  from write_value_rep [OF r w, of v] obtain c1 where c1: "write_value a v c = Some c1" "lru_rep c1 as"
    "payload (lru_heap c1) = (payload (lru_heap c))(a \<mapsto> (k, v))"
    "lru_capacity c1 = lru_capacity c" "lru_hits c1 = lru_hits c" "lru_misses c1 = lru_misses c"
    by blast
  from move_to_front_rep [OF c1(2) [unfolded as]] obtain h c2
    where c2: "move_to_front a c1 = Some c2" "lru_rep c2 (a # xs @ ys)"
      "c2 = c1\<lparr>lru_heap := h, lru_head := Some a, lru_tail := last_of (a # xs @ ys) None\<rparr>"
      "payload h = payload (lru_heap c1)" by blast
  have "a \<notin> set xs" "a \<notin> set ys"
    using r as by (auto simp: lru_rep_def rep_links_def)
  then have "lru_items c2 (a # xs @ ys) = (k, v) # drop_key k (lru_items c as)"
    using drop_key_items [OF r [unfolded as] w] c1 c2 as by (auto simp: lru_items_def)
  moreover have "map_of (lru_items c as) k = Some w"
    using r k w by (simp add: rep_map_of)
  ultimately have "lru_view_of c2 (a # xs @ ys) = spec_put k v (lru_view_of c as)"
    using c1 c2 by (simp add: lru_view_of_def spec_put_def)
  then show ?thesis
    using k c1 c2 by (auto simp: lru_put_def lru_implements_def)
qed

lemma put_new:
  assumes r: "lru_rep c as" and k: "lru_map c k = None"
    and room: "length (items (spec_put k v (lru_view_of c as))) < 2 ^ 64"
  shows "\<exists>c'. lru_put k v c = Some c' \<and> lru_implements c' (spec_put k v (lru_view_of c as))"
proof -
  from r k have nk: "k \<notin> fst ` set (lru_items c as)" by (simp add: rep_map_None)
  let ?s = "if length (lru_items c as) = unat (lru_capacity c)
    then (lru_view_of c as)\<lparr>items := butlast (lru_items c as)\<rparr> else lru_view_of c as"
  from evict_refines [OF r] obtain e where e: "evict_lru c = Some e" "lru_rep e (butlast as)"
    "lru_view_of e (butlast as) = (lru_view_of c as)\<lparr>items := butlast (lru_items c as)\<rparr>" by blast
  obtain c1 as1 where c1: "(if lru_size c = lru_capacity c then evict_lru c else Some c) = Some c1"
    "lru_rep c1 as1" "lru_view_of c1 as1 = ?s"
  proof (cases "lru_size c = lru_capacity c")
    case True
    with e size_is_capacity [OF r] show ?thesis by (intro that [of e "butlast as"]) simp_all
  next
    case False
    with r size_is_capacity [OF r] show ?thesis by (intro that [of c as]) simp_all
  qed
  have "map_of (lru_items c as) k = None"
    using nk by (simp add: map_of_eq_None_iff)
  then have sp: "spec_put k v (lru_view_of c as) = ?s\<lparr>items := (k, v) # items ?s\<rparr>"
    by (simp add: spec_put_def lru_view_of_def)
  have it: "lru_items c1 as1 = items ?s"
    using arg_cong [OF c1(3), of items] by simp
  then have "k \<notin> fst ` set (lru_items c1 as1)"
    using nk by (auto simp: lru_view_of_def dest: in_set_butlastD)
  with c1(2) have k1: "lru_map c1 k = None" by (simp add: rep_map_None)
  have "length as1 + 1 < 2 ^ 64"
    using room arg_cong [OF it, of length] unfolding sp by simp
  moreover obtain a c2 where n: "new_node k v c1 = (a, c2)" by (cases "new_node k v c1")
  ultimately obtain c3 where c3:
    "add_to_front a (c2\<lparr>lru_map := (lru_map c2)(k \<mapsto> a)\<rparr>) = Some c3"
    "lru_rep (c3\<lparr>lru_size := lru_size c3 + 1\<rparr>) (a # as1)"
    "lru_view_of (c3\<lparr>lru_size := lru_size c3 + 1\<rparr>) (a # as1) =
      (lru_view_of c1 as1)\<lparr>items := (k, v) # lru_items c1 as1\<rparr>"
    using insert_rep [OF c1(2) k1 _ n] by blast
  have "lru_put k v c = Some (c3\<lparr>lru_size := lru_size c3 + 1\<rparr>)"
    using k c1(1) n c3(1) by (simp add: lru_put_def Let_def)
  moreover have "lru_view_of (c3\<lparr>lru_size := lru_size c3 + 1\<rparr>) (a # as1) =
      spec_put k v (lru_view_of c as)"
    unfolding sp c3(3) it c1(3) ..
  ultimately show ?thesis
    using c3(2) unfolding lru_implements_def by blast
qed

lemma put_refines:
  assumes "lru_implements c s" and "length (items (spec_put k v s)) < 2 ^ 64"
  shows "\<exists>c'. lru_put k v c = Some c' \<and> lru_implements c' (spec_put k v s)"
proof -
  from assms(1) obtain as where r: "lru_rep c as" and s: "s = lru_view_of c as"
    by (auto simp: lru_implements_def)
  show ?thesis
    using put_existing [OF r] put_new [OF r] assms(2) s by (cases "lru_map c k") auto
qed

lemma evict_to_rep:
  "lru_rep c as \<Longrightarrow> \<exists>c'. lru_evict_to n c = Some c' \<and> lru_rep c' (take (unat n) as) \<and>
     lru_view_of c' (take (unat n) as) =
       (lru_view_of c as)\<lparr>items := take (unat n) (lru_items c as)\<rparr>"
proof (induction "length as" arbitrary: c as)
  case 0
  then have "lru_size c = 0" by (simp add: lru_rep_def unat_eq_0)
  with 0 show ?case
    by (simp add: lru_evict_to.simps [of n c] lru_view_of_def lru_items_def)
next
  case (Suc m)
  have sz: "unat (lru_size c) = length as" using Suc.prems by (simp add: lru_rep_def)
  show ?case
  proof (cases "unat n < length as")
    case True
    with sz have go: "n < lru_size c \<and> 0 < lru_size c"
      unfolding word_less_nat_alt by (cases as) simp_all
    from evict_refines [OF Suc.prems] obtain e where e: "evict_lru c = Some e" "lru_rep e (butlast as)"
      "lru_view_of e (butlast as) = (lru_view_of c as)\<lparr>items := butlast (lru_items c as)\<rparr>" by blast
    have len: "m = length (butlast as)" using Suc.hyps(2) by simp
    have it: "lru_items e (butlast as) = butlast (lru_items c as)"
      using arg_cong [OF e(3), of items] by simp
    have "take (unat n) (butlast zs) = take (unat n) zs" if "unat n < length zs" for zs :: "'z list"
      using that by (simp add: take_butlast)
    then have tk: "take (unat n) (butlast as) = take (unat n) as"
      "take (unat n) (butlast (lru_items c as)) = take (unat n) (lru_items c as)"
      using True by (simp_all add: lru_items_def take_butlast)
    from Suc.hyps(1) [OF len e(2)] obtain c' where "lru_evict_to n e = Some c'"
      "lru_rep c' (take (unat n) as)"
      "lru_view_of c' (take (unat n) as) = (lru_view_of c as)\<lparr>items := take (unat n) (lru_items c as)\<rparr>"
      using e(3) it tk by auto
    then show ?thesis
      using go e(1) by (simp add: lru_evict_to.simps [of n c])
  next
    case False
    with sz have "\<not> n < lru_size c" by (simp add: word_less_nat_alt)
    with False Suc.prems show ?thesis
      by (simp add: lru_evict_to.simps [of n c] lru_view_of_def lru_items_def)
  qed
qed

lemma evict_to_refines:
  "lru_implements c s \<Longrightarrow> \<exists>c'. lru_evict_to n c = Some c' \<and> lru_implements c' (spec_evict_to n s)"
  using evict_to_rep [of c _ n]
  by (fastforce simp: lru_implements_def spec_evict_to_def lru_view_of_def)

end
