(* ===== verification/LRU_Cache.thy ===== *)
theory LRU_Cache
  imports LRU_Refine
begin

text \<open>
  The class \<open>LRUCache\<close> as its clients see it: every public operation as one input, the
  simulation of \<open>LRU_Spec\<close> by the pointer code lifted to whole runs (an interpretation of
  the locale \<open>simulation\<close>), and the properties of the cache.
\<close>

fun lru_exec :: "('k, 'v) cache_op \<Rightarrow> ('k, 'v) lru \<Rightarrow> ('v option \<times> ('k, 'v) lru) option" where
  "lru_exec (Get k) c = lru_get k c"
| "lru_exec (Put k v) c = map_option (Pair None) (lru_put k v c)"
| "lru_exec (EvictTo n) c = map_option (Pair None) (lru_evict_to n c)"
| "lru_exec (Resize n) c = map_option (Pair None) (lru_resize n c)"
| "lru_exec ResetStats c = Some (None, lru_reset_stats c)"

abbreviation countable_entries :: "('k, 'v) lru_view \<Rightarrow> bool" where
  "countable_entries s \<equiv> length (items s) < 2 ^ 64"

lemma resize_refines:
  assumes "lru_implements c s"
  shows "\<exists>c'. lru_resize n c = Some c' \<and> lru_implements c' (spec_resize n s)"
proof -
  from assms obtain as where "lru_rep c as" and s: "s = lru_view_of c as"
    by (auto simp: lru_implements_def)
  then have "lru_rep (c\<lparr>lru_capacity := n\<rparr>) as" by simp
  from evict_to_rep [OF this, of n] s show ?thesis
    by (fastforce simp: lru_resize_def lru_implements_def spec_resize_def lru_view_of_def)
qed

lemma reset_refines: "lru_implements c s \<Longrightarrow> lru_implements (lru_reset_stats c) (spec_reset_stats s)"
  by (fastforce simp: lru_implements_def lru_reset_stats_def spec_reset_stats_def lru_view_of_def)

lemma exec_refines:
  assumes "lru_implements c s" and "countable_entries (snd (spec_exec x s))"
  shows "\<exists>c'. lru_exec x c = Some (fst (spec_exec x s), c') \<and>
    lru_implements c' (snd (spec_exec x s))"
proof (cases x)
  case (Get k)
  with get_refines [OF assms(1), of k] show ?thesis by simp
next
  case (Put k v)
  with put_refines [of c s k v] assms show ?thesis by auto
next
  case (EvictTo n)
  with evict_to_refines [OF assms(1), of n] show ?thesis by auto
next
  case (Resize n)
  with resize_refines [OF assms(1), of n] show ?thesis by auto
next
  case ResetStats
  with reset_refines [OF assms(1)] show ?thesis by simp
qed

interpretation lru: simulation lru_exec spec_exec lru_implements countable_entries
  by unfold_locales (rule exec_refines)

text \<open>The pointer code keeps the contract its clients rely on.\<close>

interpretation lru_store: cache_store lru_implements lru_get lru_put lru_resize
  by unfold_locales (fact get_refines put_refines resize_refines)+

subsection \<open>Facts about specified runs\<close>

definition spec_state :: "u64 \<Rightarrow> ('k, 'v) cache_op list \<Rightarrow> ('k, 'v) lru_view" where
  "spec_state n xs = snd (run_spec spec_exec xs (spec_new n))"

lemma length_drop_key_le: "length (drop_key k xs) \<le> length xs"
  by (simp add: drop_key_def)

lemma spec_exec_length: "length (items (snd (spec_exec x s))) \<le> Suc (length (items s))"
  by (cases x) (auto simp: spec_defs length_drop_key_le le_SucI split: option.splits)

lemma spec_run_countable:
  "length (items s) + length xs < 2 ^ 64 \<Longrightarrow> stays countable_entries spec_exec xs s"
proof (induction xs arbitrary: s)
  case Nil
  then show ?case by simp
next
  case (Cons x xs)
  have "length (items (snd (spec_exec x s))) + length xs < 2 ^ 64"
    using Cons.prems spec_exec_length [of x s] by simp
  with Cons.IH show ?case by simp
qed

lemma run_spec_snoc:
  "snd (run_spec step (xs @ ys) s) = snd (run_spec step ys (snd (run_spec step xs s)))"
  by (induction xs arbitrary: s) (simp_all add: case_prod_beta Let_def)

lemma run_spec_Cons [simp]:
  "snd (run_spec step (x # xs) s) = snd (run_spec step xs (snd (step x s)))"
  by (simp add: case_prod_beta Let_def)

lemma spec_run_ok:
  "distinct_keys s \<Longrightarrow> within_capacity s \<Longrightarrow>
   distinct_keys (snd (run_spec spec_exec xs s)) \<and> within_capacity (snd (run_spec spec_exec xs s))"
  by (induction xs arbitrary: s) (simp_all del: run_spec.simps(2) add: spec_exec_distinct spec_exec_within)

lemma spec_state_ok: "distinct_keys (spec_state n xs)" "within_capacity (spec_state n xs)"
  using spec_run_ok [of "spec_new n" xs]
  by (simp_all add: spec_state_def distinct_keys_def spec_new_def within_capacity_def)

lemma lru_run:
  assumes "length xs < 2 ^ 64"
  shows "\<exists>c. run_steps lru_exec xs (lru_new n) = Some (fst (run_spec spec_exec xs (spec_new n)), c) \<and>
    lru_implements c (spec_state n xs)"
  using lru.run_sim [OF implements_new spec_run_countable, of n xs] assms
  by (simp add: spec_state_def spec_new_def)

lemma implements_size: "lru_implements c s \<Longrightarrow> unat (lru_size c) = length (items s)"
  by (auto simp: lru_implements_def lru_rep_def)

lemma implements_capacity: "lru_implements c s \<Longrightarrow> lru_capacity c = capacity s"
  by (auto simp: lru_implements_def)

fun keeps_positive :: "('k, 'v) cache_op \<Rightarrow> bool" where
  "keeps_positive (Resize n) = (0 < n)"
| "keeps_positive _ = True"

lemma spec_exec_positive:
  "keeps_positive x \<Longrightarrow> 0 < capacity s \<Longrightarrow> 0 < capacity (snd (spec_exec x s))"
  by (cases x) (auto simp: spec_evict_to_def spec_resize_def spec_reset_stats_def)

lemma spec_run_positive:
  "list_all keeps_positive xs \<Longrightarrow> 0 < capacity s \<Longrightarrow> 0 < capacity (snd (run_spec spec_exec xs s))"
  by (induction xs arbitrary: s) (simp_all del: run_spec.simps(2) word_neq_0_conv add: spec_exec_positive)

lemma spec_run_countable_positive:
  "list_all keeps_positive xs \<Longrightarrow> 0 < capacity s \<Longrightarrow> distinct_keys s \<Longrightarrow> within_capacity s \<Longrightarrow>
   stays countable_entries spec_exec xs s"
proof (induction xs arbitrary: s)
  case Nil
  then show ?case by simp
next
  case (Cons x xs)
  let ?s = "snd (spec_exec x s)"
  have p: "0 < capacity ?s" and d: "distinct_keys ?s" and w: "within_capacity ?s"
    using Cons.prems by (simp_all add: spec_exec_positive spec_exec_distinct spec_exec_within
        del: word_neq_0_conv)
  have "length (items ?s) \<le> unat (capacity ?s)"
    using p w by (auto simp: within_capacity_def)
  then have "length (items ?s) < 18446744073709551616"
    using unat_lt_u64 by (rule le_less_trans)
  then have "countable_entries ?s" by simp
  with Cons.IH [OF _ p d w] Cons.prems show ?case by simp
qed

lemma lru_run_positive:
  assumes "list_all keeps_positive xs" and "0 < n"
  shows "\<exists>c. run_steps lru_exec xs (lru_new n) = Some (fst (run_spec spec_exec xs (spec_new n)), c) \<and>
    lru_implements c (spec_state n xs)"
proof -
  have "stays countable_entries spec_exec xs (spec_new n)"
    by (rule spec_run_countable_positive [OF assms(1)])
      (use assms(2) in \<open>simp_all add: spec_new_def distinct_keys_def within_capacity_def\<close>)
  from lru.run_sim [OF implements_new this] show ?thesis
    by (simp add: spec_state_def)
qed

subsection \<open>Sequences of insertions\<close>

definition puts :: "('k \<times> 'v) list \<Rightarrow> ('k, 'v) cache_op list" where
  "puts kvs = map (\<lambda>(k, v). Put k v) kvs"

lemma puts_simps [simp]:
  "puts [] = []"
  "puts ((k, v) # kvs) = Put k v # puts kvs"
  "puts (xs @ ys) = puts xs @ puts ys"
  "length (puts xs) = length xs"
  by (simp_all add: puts_def)

text \<open>With capacity zero nothing is ever evicted once one entry is in.\<close>

lemma zero_capacity_puts:
  "capacity s = 0 \<Longrightarrow> distinct (map fst kvs) \<Longrightarrow> fst ` set kvs \<inter> fst ` set (items s) = {} \<Longrightarrow>
   let t = snd (run_spec spec_exec (puts kvs) s)
   in capacity t = 0 \<and> items t = rev kvs @ items s"
proof (induction kvs arbitrary: s)
  case Nil
  then show ?case by simp
next
  case (Cons kv kvs)
  obtain k v where kv: "kv = (k, v)" by (cases kv)
  have new: "map_of (items s) k = None"
    using Cons.prems kv by (auto simp: map_of_eq_None_iff)
  let ?s = "spec_put k v s"
  have it: "items ?s = (k, v) # items s"
    using new Cons.prems by (auto simp: spec_put_def)
  have "capacity ?s = 0" "distinct (map fst kvs)" "fst ` set kvs \<inter> fst ` set (items ?s) = {}"
    using Cons.prems kv it by auto
  from Cons.IH [OF this] it kv show ?case
    by (simp del: run_spec.simps(2) add: Let_def)
qed

text \<open>The keys in order of their last insertion, latest first.\<close>

definition recency :: "'k list \<Rightarrow> 'k list" where
  "recency ks = rev (remdups ks)"

lemma remdups_snoc: "remdups (xs @ [x]) = filter (\<lambda>y. y \<noteq> x) (remdups xs) @ [x]"
  by (induction xs) auto

lemma recency_snoc: "recency (ks @ [k]) = k # filter (\<lambda>j. j \<noteq> k) (recency ks)"
  by (simp add: recency_def remdups_snoc rev_filter)

lemma filter_neq_id: "k \<notin> set xs \<Longrightarrow> filter (\<lambda>j. j \<noteq> k) xs = xs"
  by (rule filter_True) auto

lemma length_filter_neq: "distinct xs \<Longrightarrow> length xs \<le> Suc (length (filter (\<lambda>j. j \<noteq> k) xs))"
  by (induction xs) (auto simp: filter_neq_id)

lemma take_filter_take:
  assumes "distinct xs"
  shows "take m (filter (\<lambda>j. j \<noteq> k) (take (Suc m) xs)) = take m (filter (\<lambda>j. j \<noteq> k) xs)"
proof (cases "Suc m \<le> length xs")
  case True
  have "filter (\<lambda>j. j \<noteq> k) xs =
      filter (\<lambda>j. j \<noteq> k) (take (Suc m) xs) @ filter (\<lambda>j. j \<noteq> k) (drop (Suc m) xs)"
    by (metis append_take_drop_id filter_append)
  moreover have "m \<le> length (filter (\<lambda>j. j \<noteq> k) (take (Suc m) xs))"
    using length_filter_neq [OF distinct_take [OF assms], of "Suc m" k] True by simp
  ultimately show ?thesis by simp
qed simp

lemma keys_put:
  assumes "distinct_keys s" and "within_capacity s" and "0 < capacity s"
  shows "map fst (items (spec_put k v s)) =
    take (unat (capacity s)) (k # filter (\<lambda>j. j \<noteq> k) (map fst (items s)))"
proof -
  from assms have le: "length (items s) \<le> unat (capacity s)" and pos: "0 < unat (capacity s)"
    by (auto simp: within_capacity_def unat_gt_0)
  show ?thesis
  proof (cases "k \<in> fst ` set (items s)")
    case True
    then have "map_of (items s) k \<noteq> None" by (simp add: map_of_eq_None_iff)
    moreover have "length (k # map fst (drop_key k (items s))) \<le> unat (capacity s)"
      using length_drop_key [of "items s" k] True assms(1) le by (simp add: distinct_keys_def)
    ultimately show ?thesis
      by (simp add: spec_put_def fst_drop_key flip: fst_drop_key)
  next
    case False
    then have f: "filter (\<lambda>j. j \<noteq> k) (map fst (items s)) = map fst (items s)"
      and m: "map_of (items s) k = None"
      by (auto simp: filter_id_conv map_of_eq_None_iff)
    show ?thesis
    proof (cases "length (items s) = unat (capacity s)")
      case True
      with pos obtain l where "length (items s) = Suc l" "unat (capacity s) = Suc l"
        by (cases "unat (capacity s)") auto
      with f m show ?thesis
        by (simp add: spec_put_def butlast_conv_take take_map)
    next
      case False
      with le have "length (k # map fst (items s)) \<le> unat (capacity s)" by simp
      with False f m show ?thesis by (simp add: spec_put_def)
    qed
  qed
qed

lemma keys_puts:
  assumes "0 < n"
  shows "map fst (items (spec_state n (puts kvs))) = take (unat n) (recency (map fst kvs)) \<and>
    capacity (spec_state n (puts kvs)) = n"
proof (induction kvs rule: rev_induct)
  case Nil
  show ?case by (simp add: spec_state_def spec_new_def recency_def)
next
  case (snoc kv kvs)
  obtain k v where kv: "kv = (k, v)" by (cases kv)
  let ?s = "spec_state n (puts kvs)" and ?R = "recency (map fst kvs)"
  have s: "spec_state n (puts (kvs @ [kv])) = spec_put k v ?s"
    by (simp add: spec_state_def run_spec_snoc kv)
  obtain m where m: "unat n = Suc m"
    using assms by (cases "unat n") (auto simp: unat_eq_0)
  have "distinct ?R" by (simp add: recency_def)
  from take_filter_take [OF this, of m k] keys_put [OF spec_state_ok, of n "puts kvs" k v]
  have "map fst (items (spec_put k v ?s)) = take (unat n) (recency (map fst (kvs @ [kv])))"
    using assms snoc m by (simp add: recency_snoc kv)
  with s snoc show ?case by simp
qed

subsection \<open>Reading the list from its head\<close>

fun walk_keys :: "nat \<Rightarrow> ('k, 'v) heap \<Rightarrow> addr option \<Rightarrow> 'k list" where
  "walk_keys 0 h p = []"
| "walk_keys (Suc n) h p = (case p of None \<Rightarrow> [] | Some a \<Rightarrow>
     (case h a of None \<Rightarrow> [] | Some x \<Rightarrow> nkey x # walk_keys n h (nnext x)))"

definition lru_keys :: "('k, 'v) lru \<Rightarrow> 'k list" where
  "lru_keys c = walk_keys (unat (lru_size c)) (lru_heap c) (lru_head c)"

lemma walk_keys_dll:
  "dll h p as None \<Longrightarrow> walk_keys (length as) h (first_of as None) =
     map (\<lambda>a. fst (the (payload h a))) as"
  by (induction as arbitrary: p) (auto simp: payload_def split: option.splits)

lemma implements_keys: "lru_implements c s \<Longrightarrow> lru_keys c = map fst (items s)"
proof -
  assume "lru_implements c s"
  then obtain as where r: "lru_rep c as" and s: "s = lru_view_of c as"
    by (auto simp: lru_implements_def)
  then have "lru_keys c = map (\<lambda>a. fst (the (payload (lru_heap c) a))) as"
    using walk_keys_dll [of "lru_heap c" None as]
    by (simp add: lru_keys_def lru_rep_def rep_links_def)
  with s show ?thesis by (simp add: lru_items_def comp_def)
qed

lemma free_list_all:
  "dll h p as None \<Longrightarrow> distinct as \<Longrightarrow>
   free_list h (first_of as None) = Some (\<lambda>a. if a \<in> set as then None else h a)"
proof (induction as arbitrary: h p)
  case Nil
  then show ?case by (simp add: free_list.simps)
next
  case (Cons a as)
  from Cons.prems obtain n where n: "h a = Some n" "nnext n = first_of as None"
    and d: "dll h (Some a) as None" by (auto split: option.splits)
  have "free_list (h(a := None)) (first_of as None) =
      Some (\<lambda>b. if b \<in> set as then None else (h(a := None)) b)"
    using Cons.IH [of "h(a := None)" "Some a"] Cons.prems d by (simp del: fun_upd_apply)
  with n show ?case
    by (simp add: free_list.simps [of h "Some a"]) (auto simp: fun_eq_iff)
qed

lemma implements_destroy: "lru_implements c s \<Longrightarrow> lru_destroy c = Some Map.empty"
proof -
  assume "lru_implements c s"
  then obtain as where r: "lru_rep c as" by (auto simp: lru_implements_def)
  then have "a \<notin> set as \<Longrightarrow> lru_heap c a = None" for a
    by (auto simp: lru_rep_def rep_index_def)
  with r free_list_all [of "lru_heap c" None as] show ?thesis
    by (auto simp: lru_destroy_def lru_rep_def rep_links_def fun_eq_iff)
qed

subsection \<open>Properties\<close>

text \<open>
  C1: Fewer than \<open>2^64\<close> operations on a new cache of any capacity never dereference or delete
  a dead node, return what the specification returns, and end in a state whose list, index
  and size represent the specified entries.
\<close>

theorem lru_run_refines_spec:
  assumes "length xs < 2 ^ 64"
  shows "\<exists>c. run_steps lru_exec xs (lru_new n) =
      Some (fst (run_spec spec_exec xs (spec_new n)), c) \<and>
    lru_implements c (snd (run_spec spec_exec xs (spec_new n)))"
  using lru_run [OF assms] by (simp add: spec_state_def)

theorem lru_run_refines_spec_witness:
  "\<exists>c. run_steps lru_exec [Put ''a'' (1 :: nat), Put ''b'' 2, Get ''a'', Put ''c'' 3, Get ''b''] (lru_new 2) =
      Some ([None, None, Some 1, None, None], c) \<and> lru_keys c = [''c'', ''a'']"
proof -
  let ?xs = "[Put ''a'' (1 :: nat), Put ''b'' 2, Get ''a'', Put ''c'' 3, Get ''b'']"
  have "length ?xs < 2 ^ 64" by simp
  from lru_run_refines_spec [OF this, of 2] show ?thesis
    by (auto simp: spec_defs Let_def dest!: implements_keys)
qed

text \<open>
  C13: As long as the constructor and every \<open>resize\<close> are given a positive capacity, any run
  (of any length) keeps \<open>size_ <= capacity_\<close>, so \<open>size_++\<close> never wraps around.
\<close>

theorem lru_size_bounded:
  assumes "0 < n" and "list_all keeps_positive xs"
  shows "\<exists>out c. run_steps lru_exec xs (lru_new n) = Some (out, c) \<and>
    0 < lru_capacity c \<and> lru_size c \<le> lru_capacity c"
proof -
  from lru_run_positive [OF assms(2,1)] obtain out c
    where run: "run_steps lru_exec xs (lru_new n) = Some (out, c)"
      and i: "lru_implements c (spec_state n xs)" by blast
  have "0 < capacity (spec_state n xs)"
    using spec_run_positive [OF assms(2), of "spec_new n"] assms(1)
    by (simp add: spec_state_def spec_new_def del: word_neq_0_conv)
  with i run spec_state_ok(2) [of n xs] show ?thesis
    by (auto simp: implements_size implements_capacity within_capacity_def word_le_nat_alt)
qed

theorem lru_size_bounded_witness:
  "\<exists>out c. run_steps lru_exec [Put (1 :: nat) ''x'', Put 2 ''y'', Resize 1, Put 3 ''z''] (lru_new 2) =
      Some (out, c) \<and> 0 < lru_capacity c \<and> lru_size c \<le> lru_capacity c"
  by (rule lru_size_bounded) simp_all

text \<open>
  After any sequence of insertions the list, read from \<open>head_\<close>, holds exactly the
  \<open>capacity_\<close> most recently inserted distinct keys, the latest first.
\<close>

theorem lru_keeps_most_recent:
  assumes "0 < n"
  shows "\<exists>out c. run_steps lru_exec (puts kvs) (lru_new n) = Some (out, c) \<and>
    lru_keys c = take (unat n) (recency (map fst kvs))"
proof -
  have "list_all keeps_positive (puts kvs)"
    by (induction kvs) auto
  from lru_run_positive [OF this assms] obtain out c
    where "run_steps lru_exec (puts kvs) (lru_new n) = Some (out, c)"
      "lru_implements c (spec_state n (puts kvs))" by blast
  with keys_puts [OF assms, of kvs] show ?thesis
    by (auto simp: implements_keys)
qed

theorem lru_keeps_most_recent_witness:
  "\<exists>out c. run_steps lru_exec (puts [(1 :: nat, ''a''), (2, ''b''), (1, ''c''), (3, ''d'')]) (lru_new 2) =
      Some (out, c) \<and> lru_keys c = [3, 1]"
  using lru_keeps_most_recent [of 2 "[(1 :: nat, ''a''), (2, ''b''), (1, ''c''), (3, ''d'')]"]
  by (simp add: recency_def)

text \<open>
  C20: Once the capacity is zero it no longer bounds anything: after \<open>resize(0)\<close>, inserting
  distinct keys keeps them all, so the cache grows without limit while reporting a capacity
  of zero.
\<close>

theorem lru_zero_capacity_unbounded:
  assumes "distinct (map fst kvs)" and "length xs + 1 + length kvs < 2 ^ 64"
  shows "\<exists>out c. run_steps lru_exec (xs @ Resize 0 # puts kvs) (lru_new n) = Some (out, c) \<and>
    lru_capacity c = 0 \<and> unat (lru_size c) = length kvs"
proof -
  let ?ops = "xs @ Resize 0 # puts kvs" and ?s = "spec_resize 0 (spec_state n xs)"
  have "length ?ops < 2 ^ 64" using assms(2) by simp
  from lru_run [OF this, of n] obtain out c where run: "run_steps lru_exec ?ops (lru_new n) = Some (out, c)"
    and i: "lru_implements c (spec_state n ?ops)" by blast
  have st: "spec_state n ?ops = snd (run_spec spec_exec (puts kvs) ?s)"
    by (simp add: spec_state_def run_spec_snoc del: run_spec.simps(2))
  have "capacity ?s = 0" "items ?s = []" by (simp_all add: spec_resize_def)
  with zero_capacity_puts [of ?s kvs] assms(1) have "capacity (spec_state n ?ops) = 0"
    and "items (spec_state n ?ops) = rev kvs"
    unfolding st by (simp_all add: Let_def)
  with i run show ?thesis by (auto simp: implements_size implements_capacity)
qed

theorem lru_zero_capacity_unbounded_witness:
  "\<exists>out c. run_steps lru_exec ([Put (9 :: nat) ()] @ Resize 0 # puts [(1, ()), (2, ()), (3, ())]) (lru_new 5) =
      Some (out, c) \<and> lru_capacity c = 0 \<and> unat (lru_size c) = 3"
  using lru_zero_capacity_unbounded [of "[(1 :: nat, ()), (2, ()), (3, ())]" "[Put 9 ()]" 5]
  by (simp del: run_steps.simps add: numeral_3_eq_3)

definition evicted_by :: "'k \<Rightarrow> 'k \<Rightarrow> ('k, 'v) lru_view \<Rightarrow> bool" where
  "evicted_by k j s \<longleftrightarrow> map_of (items s) k = None \<and> length (items s) = unat (capacity s) \<and>
     items s \<noteq> [] \<and> fst (last (items s)) = j"

lemma map_of_drop_key: "map_of (drop_key k xs) j = (if j = k then None else map_of xs j)"
  by (induction xs) auto

lemma map_of_butlast:
  assumes "distinct (map fst xs)" and "xs \<noteq> []"
  shows "map_of (butlast xs) j = (if j = fst (last xs) then None else map_of xs j)"
proof -
  obtain ys y where xs: "xs = ys @ [y]" using assms(2) by (metis append_butlast_last_id)
  with assms(1) have "fst y \<notin> fst ` set ys" by auto
  then have "map_of ys (fst y) = None" by (simp add: map_of_eq_None_iff)
  then show ?thesis by (cases y) (auto simp: xs map_add_def split: option.splits)
qed

lemma spec_get_result: "fst (spec_get j s) = map_of (items s) j"
  by (simp add: spec_get_def split: option.split)

lemma spec_put_lookup:
  assumes "distinct_keys s"
  shows "map_of (items (spec_put k v s)) j =
    (if j = k then Some v else if evicted_by k j s then None else map_of (items s) j)"
proof (cases "map_of (items s) k")
  case (Some w)
  then show ?thesis by (simp add: spec_put_def evicted_by_def map_of_drop_key)
next
  case None
  with assms show ?thesis
    by (cases "items s = []") (simp_all add: spec_put_def evicted_by_def distinct_keys_def
        map_of_butlast)
qed

lemma run_spec_outputs: "fst (run_spec step (xs @ ys) s) =
    fst (run_spec step xs s) @ fst (run_spec step ys (snd (run_spec step xs s)))"
  by (induction xs arbitrary: s) (simp_all add: case_prod_beta Let_def)

text \<open>
  Map behaviour. After any run, \<open>put(k, v)\<close> followed by \<open>get(j)\<close> yields \<open>v\<close> for \<open>j = k\<close>;
  for another key it yields what \<open>get(j)\<close> would have yielded before the \<open>put\<close>, unless the
  \<open>put\<close> inserted a new key into a full cache and \<open>j\<close> was the least recently used one.
\<close>

theorem lru_lookup_after_put:
  assumes "length xs + 2 < 2 ^ 64"
  shows "\<exists>out out' c c'. run_steps lru_exec (xs @ [Put k v, Get j]) (lru_new n) = Some (out, c) \<and>
    run_steps lru_exec (xs @ [Get j]) (lru_new n) = Some (out', c') \<and>
    last out = (if j = k then Some v
      else if evicted_by k j (snd (run_spec spec_exec xs (spec_new n))) then None else last out')"
proof -
  have l: "length (xs @ [Put k v, Get j]) < 2 ^ 64" "length (xs @ [Get j]) < 2 ^ 64"
    using assms by simp_all
  let ?s = "snd (run_spec spec_exec xs (spec_new n))"
  have put: "last (fst (run_spec spec_exec (xs @ [Put k v, Get j]) (spec_new n))) =
      map_of (items (spec_put k v ?s)) j"
    by (simp add: run_spec_outputs case_prod_beta Let_def spec_get_result)
  have get: "last (fst (run_spec spec_exec (xs @ [Get j]) (spec_new n))) = map_of (items ?s) j"
    by (simp add: run_spec_outputs case_prod_beta Let_def spec_get_result)
  have "distinct_keys ?s" using spec_state_ok(1) [of n xs] by (simp add: spec_state_def)
  from spec_put_lookup [OF this, of k v j] show ?thesis
    using lru_run [OF l(1), of n] lru_run [OF l(2), of n] unfolding put [symmetric] get [symmetric]
    by blast
qed

theorem lru_lookup_after_put_witness:
  "\<exists>out out' c c'. run_steps lru_exec ([Put ''a'' (1 :: nat), Put ''b'' 2] @ [Put ''c'' 3, Get ''a'']) (lru_new 2) =
      Some (out, c) \<and>
    run_steps lru_exec ([Put ''a'' (1 :: nat), Put ''b'' 2] @ [Get ''a'']) (lru_new 2) = Some (out', c') \<and>
    last out = None"
  using lru_lookup_after_put [of "[Put ''a'' (1 :: nat), Put ''b'' 2]" "''c''" 3 "''a''" 2]
  by (simp add: spec_defs evicted_by_def Let_def)

text \<open>
  C14: After any run the destructor deletes every node exactly once and leaves no live node
  behind: no double free and no leak.
\<close>

theorem lru_destroy_frees_all:
  assumes "length xs < 2 ^ 64"
  shows "\<exists>out c. run_steps lru_exec xs (lru_new n) = Some (out, c) \<and> lru_destroy c = Some Map.empty"
  using lru_run [OF assms, of n] implements_destroy by blast

theorem lru_destroy_frees_all_witness:
  "\<exists>out c. run_steps lru_exec [Put (1 :: nat) ''x'', Put 2 ''y'', Get 1, EvictTo 1] (lru_new 4) = Some (out, c) \<and>
    lru_destroy c = Some Map.empty"
  by (rule lru_destroy_frees_all) simp

text \<open>
  The eviction loops return. After any run, \<open>evict_to\<close> and \<open>resize\<close> come to an end for every
  target: the loop leaves exactly the most recently used entries that the target allows, as
  \<open>size_\<close> and the list shrink together.
\<close>

theorem lru_loops_return:
  assumes "length xs < 2 ^ 64"
  shows "\<exists>out c e d. run_steps lru_exec xs (lru_new n) = Some (out, c) \<and>
    lru_evict_to m c = Some e \<and> lru_keys e = take (unat m) (lru_keys c) \<and>
    lru_resize m c = Some d \<and> lru_keys d = take (unat m) (lru_keys c) \<and>
    lru_capacity e = lru_capacity c \<and> lru_capacity d = m \<and>
    unat (lru_size e) = min (unat m) (unat (lru_size c)) \<and> lru_size d = lru_size e"
proof -
  obtain c where c: "run_steps lru_exec xs (lru_new n) = Some (fst (run_spec spec_exec xs (spec_new n)), c)"
    and i: "lru_implements c (spec_state n xs)" using lru_run [OF assms] by blast
  obtain e where e: "lru_evict_to m c = Some e" "lru_implements e (spec_evict_to m (spec_state n xs))"
    using evict_to_refines [OF i] by blast
  obtain d where d: "lru_resize m c = Some d" "lru_implements d (spec_resize m (spec_state n xs))"
    using resize_refines [OF i] by blast
  have "unat (lru_size d) = unat (lru_size e)"
    using implements_size [OF e(2)] implements_size [OF d(2)] by (simp add: spec_resize_def spec_evict_to_def)
  then have "lru_size d = lru_size e" by (simp add: word_unat_eq_iff)
  with c e d i show ?thesis
    by (auto simp: implements_keys implements_size implements_capacity spec_resize_def spec_evict_to_def
        take_map min.commute)
qed

theorem lru_loops_return_witness:
  "\<exists>out c e d. run_steps lru_exec [Put (1 :: nat) ''x'', Put 2 ''y'', Put 3 ''z'', Get 1] (lru_new 4) = Some (out, c) \<and>
    lru_evict_to 2 c = Some e \<and> lru_keys e = take (unat (2 :: u64)) (lru_keys c) \<and> lru_resize 2 c = Some d \<and> lru_capacity d = 2"
  using lru_loops_return [of "[Put (1 :: nat) ''x'', Put 2 ''y'', Put 3 ''z'', Get 1]" 4 2] by fastforce

end
