(* ===== verification/Governor_Client.thy ===== *)
theory Governor_Client
  imports Sockets
begin

text \<open>
  \<open>src/client/governor_client.cpp\<close>: the client side of a connection to the daemon. Beside the
  members of the class the state keeps the descriptors that are open, and a log of the bytes
  written to each of them. Results of system calls are inputs.
\<close>

record governor_client =
  sock_fd :: int
  connected :: bool
  listening :: bool
  shrink_callback :: bool
  grow_callback :: bool
  open_fds :: "int list"
  sent :: "(int \<times> u8 list) list"

definition client_new :: governor_client where
  "client_new = \<lparr>sock_fd = - 1, connected = False, listening = False, shrink_callback = False,
     grow_callback = False, open_fds = [], sent = []\<rparr>"

subsection \<open>Connection\<close>

text \<open>An attempt to connect: \<open>socket\<close> fails, the daemon refuses, or the connection stands; the
  input that will arrive on it comes with it.\<close>

datatype attempt = NoSocket | Refused int | Established int "io_in list"

definition client_connect :: "attempt \<Rightarrow> governor_client \<Rightarrow> bool \<times> governor_client" where
  "client_connect a g =
     (if connected g then (True, g)
      else case a of
        NoSocket \<Rightarrow> (False, g\<lparr>sock_fd := - 1\<rparr>)
      | Refused fd \<Rightarrow> (False, g\<lparr>sock_fd := - 1\<rparr>)
      | Established fd s \<Rightarrow> (True, g\<lparr>sock_fd := fd, open_fds := List.insert fd (open_fds g), connected := True\<rparr>))"

definition client_disconnect :: "governor_client \<Rightarrow> governor_client" where
  "client_disconnect g =
     (if sock_fd g \<noteq> - 1
      then g\<lparr>open_fds := removeAll (sock_fd g) (open_fds g), sock_fd := - 1, connected := False\<rparr>
      else g\<lparr>connected := False\<rparr>)"

subsection \<open>Sending\<close>

text \<open>The write loop on a blocking socket: no result that is not positive is retried. When the
  results are used up the call is blocked.\<close>

datatype send_result = SendOk | SendFailed | SendBlocked

fun write_frame :: "u8 list \<Rightarrow> io_out list \<Rightarrow> u8 list \<times> send_result" where
  "write_frame bs [] = ([], if bs = [] then SendOk else SendBlocked)"
| "write_frame bs (w # ws) =
     (if bs = [] then ([], SendOk)
      else case w of
        Wrote k \<Rightarrow>
          (let n = accepted k bs
           in if n = 0 then ([], SendFailed)
              else let (d, x) = write_frame (drop n bs) ws in (take n bs @ d, x))
      | WAgain \<Rightarrow> ([], SendFailed)
      | WFail \<Rightarrow> ([], SendFailed))"

definition send_message :: "message \<Rightarrow> io_out list \<Rightarrow> governor_client \<Rightarrow> send_result \<times> governor_client" where
  "send_message msg ws g =
     (if \<not> connected g then (SendFailed, g)
      else let (d, x) = write_frame (frame msg) ws;
               g' = g\<lparr>sent := sent g @ [(sock_fd g, d)]\<rparr>
           in (x, if x = SendFailed then g'\<lparr>connected := False\<rparr> else g'))"

definition register_cache :: "i32 \<Rightarrow> u64 \<Rightarrow> io_out list \<Rightarrow> governor_client \<Rightarrow> send_result \<times> governor_client" where
  "register_cache pid cur ws g =
     send_message (message_default\<lparr>msg_type := REGISTER, msg_pid := pid, msg_current := cur\<rparr>) ws g"

definition report_size :: "i32 \<Rightarrow> u64 \<Rightarrow> io_out list \<Rightarrow> governor_client \<Rightarrow> send_result \<times> governor_client" where
  "report_size pid cur ws g =
     send_message (message_default\<lparr>msg_type := REPORT_SIZE, msg_pid := pid, msg_current := cur\<rparr>) ws g"

subsection \<open>Dispatch\<close>

definition on_shrink :: "governor_client \<Rightarrow> governor_client" where
  "on_shrink g = g\<lparr>shrink_callback := True\<rparr>"

definition on_grow :: "governor_client \<Rightarrow> governor_client" where
  "on_grow g = g\<lparr>grow_callback := True\<rparr>"

datatype callback = OnShrink u64 | OnGrow u64

text \<open>The callback that a message makes the client call, if any.\<close>

definition process_message :: "message \<Rightarrow> governor_client \<Rightarrow> callback option" where
  "process_message msg g =
     (if msg_type msg = SHRINK \<and> shrink_callback g then Some (OnShrink (msg_target msg))
      else if msg_type msg = GROW \<and> grow_callback g then Some (OnGrow (msg_target msg))
      else None)"

subsection \<open>The listener thread\<close>

definition start_listening :: "governor_client \<Rightarrow> governor_client" where
  "start_listening g = (if listening g then g else g\<lparr>listening := True\<rparr>)"

definition stop_listening :: "governor_client \<Rightarrow> governor_client" where
  "stop_listening g =
     (if \<not> listening g then g
      else g\<lparr>listening := False, sock_fd := - 1, connected := False,
             open_fds := (if sock_fd g \<noteq> - 1 then removeAll (sock_fd g) (open_fds g) else open_fds g)\<rparr>)"

text \<open>The destructor.\<close>

definition client_destroy :: "governor_client \<Rightarrow> governor_client" where
  "client_destroy g = client_disconnect (stop_listening g)"

text \<open>The thread's own state: the client, the application behind the callbacks, the backoff and
  what is still to arrive on the connection.\<close>

record 'a listener =
  client :: governor_client
  app :: 'a
  backoff :: int
  input :: "io_in list"

text \<open>A callback acts on the application and may itself send through the client, so it may
  block in a write; it may also run into undefined behaviour.\<close>

datatype 's performed = Done 's | Blocks | Breaks

type_synonym 'a handler = "callback \<Rightarrow> 'a \<times> governor_client \<Rightarrow> ('a \<times> governor_client) performed"

datatype 'a listened =
    Listened "callback option" "'a listener"
  | Waiting "'a listener"
  | Threw cpp_exception "'a listener"
  | StuckInCallback
  | Undefined

definition drop_connection :: "'a listener \<Rightarrow> 'a listener" where
  "drop_connection l = l\<lparr>client := (client l)\<lparr>connected := False\<rparr>\<rparr>"

text \<open>The second half of an iteration: read one frame and dispatch it.\<close>

definition deliver :: "'a handler \<Rightarrow> u8 list \<Rightarrow> 'a listener \<Rightarrow> 'a listened" where
  "deliver h p l =
     (case deserialize (map char_of_byte p) of
        Inl e \<Rightarrow> Threw e l
      | Inr msg \<Rightarrow>
          (case process_message msg (client l) of
             None \<Rightarrow> Listened None l
           | Some cb \<Rightarrow> (case h cb (app l, client l) of
               Breaks \<Rightarrow> Undefined
             | Blocks \<Rightarrow> StuckInCallback
             | Done (a, g) \<Rightarrow> Listened (Some cb) (l\<lparr>app := a, client := g\<rparr>))))"

definition listen_once :: "'a handler \<Rightarrow> 'a listener \<Rightarrow> 'a listened" where
  "listen_once h l =
     (if input l = [] then Waiting l
      else case sys_read 4 (input l) of
        (Bytes hdr, s) \<Rightarrow>
          (let l = l\<lparr>input := s\<rparr>
           in if length hdr \<noteq> 4 then Listened None (drop_connection l)
              else if be32_value hdr = 0 \<or> 65536 < be32_value hdr then Listened None (drop_connection l)
              else (case read_blocking (be32_value hdr) [] s of
                  (Starved, s') \<Rightarrow> Waiting (l\<lparr>input := s'\<rparr>)
                | (Gone, s') \<Rightarrow> Listened None (drop_connection (l\<lparr>input := s'\<rparr>))
                | (Payload p, s') \<Rightarrow> deliver h p (l\<lparr>input := s'\<rparr>)))
      | (_, s) \<Rightarrow> Listened None (drop_connection (l\<lparr>input := s\<rparr>)))"

text \<open>The first half: reconnect, or sleep and double the backoff.\<close>

definition arriving :: "attempt \<Rightarrow> io_in list" where
  "arriving a = (case a of Established fd s \<Rightarrow> s | _ \<Rightarrow> [])"

datatype listener_event = Slept int | Called callback

datatype listener_end = Stopped | NoMoreAttempts | StillReading | Died cpp_exception | StillInCallback | UndefinedBehaviour

datatype 'a reconnected =
    OutOfAttempts
  | BackOff int "attempt list" "'a listener"
  | Ready "attempt list" "'a listener"

definition reconnect :: "attempt list \<Rightarrow> 'a listener \<Rightarrow> 'a reconnected" where
  "reconnect ats l =
     (if connected (client l) then Ready ats l
      else case ats of
        [] \<Rightarrow> OutOfAttempts
      | a # ats' \<Rightarrow>
          (let (ok, g) = client_connect a (client l)
           in if ok then Ready ats' (l\<lparr>client := g, backoff := 1, input := arriving a\<rparr>)
              else BackOff (backoff l) ats' (l\<lparr>client := g, backoff := min 30 (backoff l * 2)\<rparr>)))"

lemma drop_connection_input [simp]: "input (drop_connection l) = input l"
  by (simp add: drop_connection_def)

lemma deliver_input: "deliver h p l = Listened cb l' \<Longrightarrow> input l' = input l"
  by (auto simp: deliver_def split: sum.splits option.splits performed.splits)

lemma listen_once_size:
  assumes "listen_once h l = Listened cb l'"
  shows "in_size (input l') < in_size (input l)"
proof -
  obtain e s where e: "sys_read 4 (input l) = (e, s)" by fastforce
  have ne: "input l \<noteq> []" using assms by (auto simp: listen_once_def)
  have lt: "in_size s < in_size (input l)" using sys_read_size [of 4 "input l"] ne e by simp
  show ?thesis
  proof (cases e)
    case (Bytes hdr)
    obtain x s' where x: "read_blocking (be32_value hdr) [] s = (x, s')" by fastforce
    then have "in_size s' \<le> in_size s" using read_blocking_size [of "be32_value hdr" "[]" s] by simp
    with assms ne e lt x Bytes show ?thesis
      by (auto simp: listen_once_def Let_def split: if_splits payload_read.splits dest!: deliver_input)
  qed (use assms ne e lt in \<open>auto simp: listen_once_def\<close>)
qed

text \<open>What is left of the inputs: it drops with every iteration that goes on.\<close>

definition inputs_left :: "attempt list \<Rightarrow> 'a listener \<Rightarrow> nat" where
  "inputs_left ats l = sum_list (map (\<lambda>a. Suc (in_size (arriving a))) ats) + in_size (input l)"

lemma reconnect_left:
  "reconnect ats l = Ready ats' l' \<Longrightarrow> inputs_left ats' l' \<le> inputs_left ats l"
  "reconnect ats l = BackOff n ats' l' \<Longrightarrow> inputs_left ats' l' < inputs_left ats l"
  by (auto simp: reconnect_def inputs_left_def Let_def split: if_splits list.splits prod.splits)

function listener_loop :: "'a handler \<Rightarrow> attempt list \<Rightarrow> 'a listener \<Rightarrow>
    listener_event list \<times> 'a listener \<times> listener_end" where
  "listener_loop h ats l =
     (if \<not> listening (client l) then ([], l, Stopped)
      else case reconnect ats l of
        OutOfAttempts \<Rightarrow> ([], l, NoMoreAttempts)
      | BackOff n ats' l' \<Rightarrow>
          (let (es, r) = listener_loop h ats' l' in (Slept n # es, r))
      | Ready ats' l' \<Rightarrow>
          (case listen_once h l' of
             Listened cb l'' \<Rightarrow>
               (let (es, r) = listener_loop h ats' l''
                in (case cb of None \<Rightarrow> es | Some c \<Rightarrow> Called c # es, r))
           | Waiting l'' \<Rightarrow> ([], l'', StillReading)
           | Threw e l'' \<Rightarrow> ([], l'', Died e)
           | StuckInCallback \<Rightarrow> ([], l', StillInCallback)
           | Undefined \<Rightarrow> ([], l', UndefinedBehaviour)))"
  by pat_completeness auto
termination
proof (relation "measure (\<lambda>(h, ats, l). inputs_left ats l)", goal_cases)
  case 1
  show ?case by simp
next
  case (2 h ats l n ats' l')
  then show ?case using reconnect_left(2) by simp
next
  case (3 h ats l ats' l' cb l'')
  then have "inputs_left ats' l' \<le> inputs_left ats l" using reconnect_left(1) by simp
  moreover have "inputs_left ats' l'' < inputs_left ats' l'"
    using 3 listen_once_size [of h l' cb l''] by (simp add: inputs_left_def)
  ultimately show ?case by simp
qed

declare listener_loop.simps [simp del]

subsection \<open>Frames\<close>

lemma listen_once_header:
  assumes "input l \<noteq> []" and "sys_read 4 (input l) = (Bytes hdr, s)" and "length hdr = 4"
    and "0 < be32_value hdr" and "be32_value hdr \<le> 65536"
    and "read_blocking (be32_value hdr) [] s = (Payload p, s')"
  shows "listen_once h l = deliver h p (l\<lparr>input := s'\<rparr>)"
  using assms by (simp add: listen_once_def Let_def)

lemma listen_once_frame:
  assumes "carries (m # ms) cs" and "no_empty cs" and "input l = map Bytes cs"
  obtains cs' where "carries ms cs'" "no_empty cs'"
    "listen_once h l = deliver h (map byte_of (payload_of m)) (l\<lparr>input := map Bytes cs'\<rparr>)"
proof -
  let ?n = "length (payload_of m)"
  from assms(1,2) obtain hdr cs1 where
    1: "sys_read 4 (map Bytes cs) = (Bytes hdr, map Bytes cs1)"
      "length hdr = 4" "be32_value hdr = ?n" "no_empty cs1"
      "take ?n (concat cs1) = map byte_of (payload_of m)" "?n \<le> length (concat cs1)"
      "carries ms (drop_bytes ?n cs1)" "no_empty (drop_bytes ?n cs1)"
    by (rule carries_Cons [where s = "[]"]) simp
  have "read_blocking ?n [] (map Bytes cs1) =
      (Payload (map byte_of (payload_of m)), map Bytes (drop_bytes ?n cs1))"
    using blocking.rd_stream [of cs1 "[]" ?n "[]"] 1 by simp
  moreover have "cs \<noteq> []" using assms(1) by auto
  ultimately have "listen_once h l = deliver h (map byte_of (payload_of m)) (l\<lparr>input := map Bytes (drop_bytes ?n cs1)\<rparr>)"
    using 1 assms(3) payload_bounds [of m] by (intro listen_once_header [of l hdr "map Bytes cs1"]) simp_all
  with 1 that show ?thesis by blast
qed

text \<open>A handler that always succeeds and keeps the connection, the flag and the callbacks.\<close>

definition keeps_up :: "'a handler \<Rightarrow> bool" where
  "keeps_up h \<longleftrightarrow> (\<forall>cb a g. connected g \<longrightarrow> (\<exists>a' g'. h cb (a, g) = Done (a', g') \<and> connected g' \<and>
     listening g' = listening g \<and> shrink_callback g' = shrink_callback g \<and> grow_callback g' = grow_callback g))"

definition callbacks_of :: "governor_client \<Rightarrow> message list \<Rightarrow> callback list" where
  "callbacks_of g ms = List.map_filter (\<lambda>m. process_message m g) ms"

lemma callbacks_of_cong:
  "shrink_callback g = shrink_callback g' \<Longrightarrow> grow_callback g = grow_callback g' \<Longrightarrow>
   callbacks_of g ms = callbacks_of g' ms"
proof -
  assume "shrink_callback g = shrink_callback g'" "grow_callback g = grow_callback g'"
  then have "(\<lambda>m. process_message m g) = (\<lambda>m. process_message m g')"
    by (auto simp: process_message_def)
  then show ?thesis by (simp add: callbacks_of_def)
qed


subsection \<open>Reconnecting\<close>

text \<open>C31: The backoff. As long as every attempt fails, the listener sleeps 1, 2, 4, ... seconds
  between attempts, never more than 30, and gives up only when it is stopped.\<close>

theorem client_backoff:
  assumes "listening (client l)" and "\<not> connected (client l)" and "backoff l = 1"
    and "\<forall>a \<in> set ats. \<exists>fd. a = NoSocket \<or> a = Refused fd"
  shows "\<exists>l'. listener_loop h ats l = (map (\<lambda>i. Slept (min 30 (2 ^ i))) [0..<length ats], l', NoMoreAttempts)"
proof -
  have "\<exists>l'. listener_loop h ats l =
      (map (\<lambda>i. Slept (min 30 (2 ^ (k + i)))) [0..<length ats], l', NoMoreAttempts)"
    if "backoff l = min 30 (2 ^ k)" "listening (client l)" "\<not> connected (client l)"
      "\<forall>a \<in> set ats. \<exists>fd. a = NoSocket \<or> a = Refused fd" for k
    using that
  proof (induction ats arbitrary: l k)
    case Nil
    then show ?case by (subst listener_loop.simps) (simp add: reconnect_def)
  next
    case (Cons a ats)
    let ?l = "l\<lparr>client := (client l)\<lparr>sock_fd := - 1\<rparr>, backoff := min 30 (backoff l * 2)\<rparr>"
    have "reconnect (a # ats) l = BackOff (backoff l) ats ?l"
      using Cons.prems by (auto simp: reconnect_def client_connect_def)
    then have loop: "listener_loop h (a # ats) l = (let (es, r) = listener_loop h ats ?l in (Slept (backoff l) # es, r))"
      using Cons.prems(2) by (subst listener_loop.simps) simp
    have "backoff ?l = min 30 (2 ^ Suc k)" using Cons.prems(1) by (auto simp: min_def)
    then obtain l' where "listener_loop h ats ?l =
        (map (\<lambda>i. Slept (min 30 (2 ^ (Suc k + i)))) [0..<length ats], l', NoMoreAttempts)"
      using Cons.IH [of ?l "Suc k"] Cons.prems by auto
    then show ?case using Cons.prems(1)
      by (simp add: loop map_upt_Suc del: upt_Suc)
  qed
  from this [of 0] assms show ?thesis by simp
qed

text \<open>C32: A reconnection neither closes the old descriptor nor registers. When the daemon
  closes the connection again and again and each reconnection succeeds, every descriptor ever
  used stays open, and nothing is written on any of the new connections.\<close>

theorem client_reconnect_leaks:
  assumes "listening (client l)" and "connected (client l)" and "input l = [Eof]"
  shows "\<exists>l'. listener_loop h (map (\<lambda>fd. Established fd [Eof]) fds) l = ([], l', NoMoreAttempts) \<and>
    set (open_fds (client l')) = set (open_fds (client l)) \<union> set fds \<and> sent (client l') = sent (client l)"
  using assms
proof (induction fds arbitrary: l)
  case Nil
  let ?l = "drop_connection (l\<lparr>input := []\<rparr>)"
  have "listener_loop h [] l = ([], ?l, NoMoreAttempts)"
  proof -
    have "listener_loop h [] ?l = ([], ?l, NoMoreAttempts)"
      using Nil.prems by (subst listener_loop.simps) (simp add: reconnect_def drop_connection_def)
    moreover have "listen_once h l = Listened None ?l" using Nil.prems by (simp add: listen_once_def)
    ultimately show ?thesis using Nil.prems by (subst listener_loop.simps) (simp add: reconnect_def)
  qed
  then show ?case by (simp add: drop_connection_def)
next
  case (Cons fd fds)
  let ?l = "drop_connection (l\<lparr>input := []\<rparr>)"
  let ?g = "(client ?l)\<lparr>sock_fd := fd, open_fds := List.insert fd (open_fds (client l)), connected := True\<rparr>"
  let ?l1 = "?l\<lparr>client := ?g, backoff := 1, input := [Eof]\<rparr>"
  have "listen_once h l = Listened None ?l" using Cons.prems by (simp add: listen_once_def)
  then have 1: "listener_loop h ats l = listener_loop h ats ?l" for ats
    using Cons.prems by (subst listener_loop.simps) (simp add: reconnect_def)
  let ?ats = "map (\<lambda>fd. Established fd [Eof]) fds"
  have "reconnect (Established fd [Eof] # ?ats) ?l = Ready ?ats ?l1"
    by (simp add: reconnect_def client_connect_def arriving_def drop_connection_def)
  then have "listener_loop h (Established fd [Eof] # ?ats) ?l = listener_loop h ?ats ?l1"
    using Cons.prems
    by (subst (1 2) listener_loop.simps) (simp add: reconnect_def drop_connection_def)
  moreover obtain l' where "listener_loop h ?ats ?l1 = ([], l', NoMoreAttempts)"
    "set (open_fds (client l')) = set (open_fds (client ?l1)) \<union> set fds" "sent (client l') = sent (client ?l1)"
    using Cons.IH [of ?l1] Cons.prems(1) by (auto simp: drop_connection_def)
  ultimately show ?case by (auto simp: 1 drop_connection_def)
qed

subsection \<open>Bad input\<close>

text \<open>A length field of zero or above 65536 drops the connection without a callback; the
  bytes behind it are not looked at.\<close>

theorem client_rejects_bad_length:
  assumes "listening (client l)" and "connected (client l)" and "length hdr = 4"
    and "be32_value hdr = 0 \<or> 65536 < be32_value hdr" and "input l = Bytes hdr # s"
  shows "listener_loop h [] l = ([], drop_connection (l\<lparr>input := s\<rparr>), NoMoreAttempts)"
proof -
  let ?l = "drop_connection (l\<lparr>input := s\<rparr>)"
  have "hdr \<noteq> []" using assms(3) by auto
  then have "listen_once h l = Listened None ?l" using assms by (auto simp: listen_once_def)
  moreover have "listener_loop h [] ?l = ([], ?l, NoMoreAttempts)"
    using assms by (subst listener_loop.simps) (simp add: reconnect_def drop_connection_def)
  ultimately show ?thesis using assms by (subst listener_loop.simps) (simp add: reconnect_def)
qed

text \<open>C36: A payload of admissible length that the parser rejects is not caught: the exception
  leaves the listener thread, unlike on the daemon's side.\<close>

theorem client_dies_on_malformed:
  assumes "listening (client l)" and "connected (client l)" and "length hdr = 4"
    and "deserialize (map char_of_byte p) = Inl e" and "be32_value hdr = length p"
    and "p \<noteq> []" and "length p \<le> 65536" and "input l = Bytes hdr # Bytes p # s"
  shows "listener_loop h ats l = ([], l\<lparr>input := s\<rparr>, Died e)"
proof -
  have "hdr \<noteq> []" using assms(3) by auto
  moreover have "read_blocking (length p) [] (Bytes p # s) = (Payload p, s)"
    using blocking.rd_stream [of "[p]" "[]" "length p" s] assms(6) by simp
  ultimately have "listen_once h l = deliver h p (l\<lparr>input := s\<rparr>)"
    using assms by (intro listen_once_header [of l hdr "Bytes p # s"]) (simp_all add: Suc_le_eq)
  then show ?thesis using assms(1,2,4)
    by (subst listener_loop.simps) (simp add: reconnect_def deliver_def)
qed

subsection \<open>Witnesses\<close>

text \<open>A handler that records the callbacks, and a connected listener.\<close>

definition recorder :: "callback list handler" where
  "recorder cb = (\<lambda>(cbs, g). Done (cbs @ [cb], g))"

definition sample_listener :: "io_in list \<Rightarrow> callback list listener" where
  "sample_listener s = \<lparr>client = start_listening (snd (client_connect (Established 7 s) (on_grow (on_shrink client_new)))),
     app = [], backoff = 1, input = s\<rparr>"

lemma sample_listener_simps [simp]:
  "listening (client (sample_listener s))" "connected (client (sample_listener s))"
  "input (sample_listener s) = s" "open_fds (client (sample_listener s)) = [7]"
  "sent (client (sample_listener s)) = []" "backoff (sample_listener s) = 1"
  "shrink_callback (client (sample_listener s))" "grow_callback (client (sample_listener s))"
  by (simp_all add: sample_listener_def start_listening_def client_connect_def on_grow_def on_shrink_def client_new_def)

lemma recorder_keeps_up: "keeps_up recorder"
  by (simp add: keeps_up_def recorder_def)

definition sample_commands :: "message list" where
  "sample_commands = [message_default\<lparr>msg_type := SHRINK, msg_target := 10\<rparr>,
     message_default\<lparr>msg_type := ACK\<rparr>, message_default\<lparr>msg_type := GROW, msg_target := 99\<rparr>]"


theorem client_backoff_witness:
  "\<exists>l'. listener_loop recorder [NoSocket, Refused 7, NoSocket]
       (drop_connection (sample_listener [])) = (map Slept [1, 2, 4], l', NoMoreAttempts)"
proof -
  let ?l = "drop_connection (sample_listener [])"
  have "listening (client ?l)" "\<not> connected (client ?l)" "backoff ?l = 1"
    by (simp_all add: drop_connection_def)
  from client_backoff [OF this, of "[NoSocket, Refused 7, NoSocket]" recorder]
  show ?thesis by (simp add: upt_rec)
qed

theorem client_reconnect_leaks_witness:
  "\<exists>l'. listener_loop recorder (map (\<lambda>fd. Established fd [Eof]) [8, 9]) (sample_listener [Eof]) =
     ([], l', NoMoreAttempts) \<and> set (open_fds (client l')) = {7, 8, 9} \<and> sent (client l') = []"
  using client_reconnect_leaks [of "sample_listener [Eof]" recorder "[8, 9]"] by auto

theorem client_rejects_bad_length_witness:
  "listener_loop recorder [] (sample_listener [Bytes [0, 1, 0, 1], Eof]) =
     ([], drop_connection ((sample_listener [Bytes [0, 1, 0, 1], Eof])\<lparr>input := [Eof]\<rparr>), NoMoreAttempts)"
  by (rule client_rejects_bad_length [of _ "[0, 1, 0, 1]"]) (simp_all add: be32_value_def)

text \<open>The payload \<open>"pid":x\<close> followed by a comma.\<close>

definition bad_payload :: string where
  "bad_payload = quoted ''pid'' @ '':x,''"

lemma bad_payload_throws: "deserialize (map char_of_byte (map byte_of bad_payload)) = Inl InvalidArgument"
proof -
  have "deserialize bad_payload = Inl InvalidArgument" by code_simp
  then show ?thesis by simp
qed

theorem client_dies_on_malformed_witness:
  "listener_loop recorder [] (sample_listener [Bytes [0, 0, 0, 8], Bytes (map byte_of bad_payload)]) =
     ([], (sample_listener [Bytes [0, 0, 0, 8], Bytes (map byte_of bad_payload)])\<lparr>input := []\<rparr>, Died InvalidArgument)"
  by (rule client_dies_on_malformed [OF _ _ _ bad_payload_throws, of _ "[0, 0, 0, 8]"])
    (simp_all add: be32_value_def bad_payload_def quoted_def)

subsection \<open>Complete writes\<close>

text \<open>A socket whose writes all take something, and together a frame.\<close>

definition takes_frames :: "io_out list \<Rightarrow> bool" where
  "takes_frames ws \<longleftrightarrow> list_all (\<lambda>w. \<exists>k > 0. w = Wrote k) ws \<and> 150 \<le> room ws"

lemma write_frame_complete:
  "list_all (\<lambda>w. \<exists>k > 0. w = Wrote k) ws \<Longrightarrow> length bs \<le> room ws \<Longrightarrow> write_frame bs ws = (bs, SendOk)"
proof (induction ws arbitrary: bs)
  case (Cons w ws)
  then show ?case by (auto simp: accepted_def min_def)
qed simp

lemma send_message_complete:
  assumes "connected g" and "takes_frames ws"
  shows "send_message m ws g = (SendOk, g\<lparr>sent := sent g @ [(sock_fd g, frame m)]\<rparr>)"
  using assms write_frame_complete [of ws "frame m"] length_frame_le [of m]
  by (simp add: send_message_def takes_frames_def)

text \<open>The loop cuts what it was given into a part it wrote and a part it did not.\<close>

lemma write_frame_split:
  "write_frame bs ws = (d, x) \<Longrightarrow> \<exists>r. bs = d @ r \<and> (x = SendOk \<longrightarrow> r = []) \<and> (x \<noteq> SendOk \<longrightarrow> r \<noteq> [])"
proof (induction bs ws arbitrary: d rule: write_frame.induct)
  case (2 bs w ws)
  show ?case
  proof (cases "bs \<noteq> [] \<and> (\<exists>k. w = Wrote k \<and> accepted k bs \<noteq> 0)")
    case True
    then obtain k d' where k: "bs \<noteq> []" "w = Wrote k" "accepted k bs \<noteq> 0"
      and d: "write_frame (drop (accepted k bs) bs) ws = (d', x)" "d = take (accepted k bs) bs @ d'"
      using 2(2) by (auto simp: Let_def split: prod.splits)
    from 2(1) [OF k(1,2) refl k(3) d(1)] obtain r where
      r: "drop (accepted k bs) bs = d' @ r" "x = SendOk \<longrightarrow> r = []" "x \<noteq> SendOk \<longrightarrow> r \<noteq> []" by blast
    have "bs = d @ r" unfolding d(2) append_assoc r(1) [symmetric] by simp
    with r show ?thesis by blast
  next
    case False
    with 2(2) show ?thesis by (auto simp: Let_def split: io_out.splits if_splits)
  qed
qed (auto split: if_splits)

text \<open>A send either reports success after writing the whole frame, or reports failure,
  having written a proper prefix of it and marked the connection as lost; a partial frame is
  never followed by another on the same connection.\<close>

theorem send_message_outcome:
  assumes "connected g" and "send_message m ws g = (x, g')" and "x \<noteq> SendBlocked"
  shows "\<exists>d. sent g' = sent g @ [(sock_fd g, d)] \<and>
    (if x = SendOk then d = frame m \<and> connected g'
     else x = SendFailed \<and> length d < length (frame m) \<and> d = take (length d) (frame m) \<and>
       \<not> connected g' \<and> (\<forall>m' ws'. send_message m' ws' g' = (SendFailed, g')))"
proof -
  obtain d where d: "write_frame (frame m) ws = (d, x)"
    "g' = (if x = SendFailed then g\<lparr>sent := sent g @ [(sock_fd g, d)], connected := False\<rparr>
           else g\<lparr>sent := sent g @ [(sock_fd g, d)]\<rparr>)"
    using assms(1,2) by (cases "write_frame (frame m) ws") (auto simp: send_message_def Let_def)
  obtain r where r: "frame m = d @ r" "x = SendOk \<longrightarrow> r = []" "x \<noteq> SendOk \<longrightarrow> r \<noteq> []"
    using write_frame_split [OF d(1)] by blast
  have x: "x = SendOk \<or> x = SendFailed" using assms(3) by (cases x) simp_all
  then show ?thesis
  proof
    assume "x = SendOk"
    with d(2) r assms(1) show ?thesis by (intro exI [of _ d]) simp
  next
    assume f: "x = SendFailed"
    with r have "r \<noteq> []" by simp
    with f d(2) r(1) show ?thesis by (intro exI [of _ d]) (simp add: send_message_def)
  qed
qed

theorem send_message_outcome_witness:
  "fst (send_message message_default [Wrote 5, WFail] (client (sample_listener []))) = SendFailed \<and>
   \<not> connected (snd (send_message message_default [Wrote 5, WFail] (client (sample_listener []))))"
proof -
  let ?g = "client (sample_listener [])" and ?f = "frame message_default"
  have len: "4 < length ?f" by (simp add: length_frame)
  then have w: "write_frame ?f [Wrote 5, WFail] = (take 5 ?f, SendFailed)" if "5 < length ?f"
    using that by (auto simp: accepted_def Let_def)
  have "5 < length ?f" by (simp add: length_frame payload_of_def serialize_def message_default_def quoted_def)
  then have s: "send_message message_default [Wrote 5, WFail] ?g =
      (SendFailed, ?g\<lparr>sent := sent ?g @ [(sock_fd ?g, take 5 ?f)], connected := False\<rparr>)"
    using w by (simp add: send_message_def)
  from send_message_outcome [OF _ s] show ?thesis unfolding s by auto
qed

end
