(* ===== verification/Governed_Cache.thy ===== *)
theory Governed_Cache
  imports LRU_Cache Governor_Client
begin

text \<open>
  \<open>src/client/governed_cache.cpp\<close>: the cache an application uses, an LRU cache of strings
  whose capacity follows the commands of the daemon. The mutex makes every operation atomic,
  so each is one function on the cache and the client. The process id and the results of the
  writes are inputs.
\<close>

record governed_cache =
  gc_cache :: "(string, string) lru"
  entry_bytes :: u64

definition gcache_new :: "u64 \<Rightarrow> u64 \<Rightarrow> governed_cache \<times> governor_client" where
  "gcache_new max_capacity estimated_entry_bytes =
     (\<lparr>gc_cache = lru_new max_capacity, entry_bytes = estimated_entry_bytes\<rparr>,
      on_grow (on_shrink client_new))"

definition gcache_start :: "i32 \<Rightarrow> attempt \<Rightarrow> io_out list \<Rightarrow> governed_cache \<times> governor_client \<Rightarrow>
    (governed_cache \<times> governor_client) performed" where
  "gcache_start pid a ws = (\<lambda>(c, g).
     (let (ok, g1) = client_connect a g
      in if ok
         then (let (x, g2) = register_cache pid (lru_size (gc_cache c) * entry_bytes c) ws g1
               in if x = SendBlocked then Blocks else Done (c, start_listening g2))
         else Done (c, g1)))"

definition gcache_stop :: "governed_cache \<times> governor_client \<Rightarrow> governed_cache \<times> governor_client" where
  "gcache_stop = (\<lambda>(c, g). (c, client_disconnect (stop_listening g)))"

text \<open>The destructor stops the cache; then the client and the LRU cache are destroyed, which gives the nodes
  that are left.\<close>

definition gcache_destroy :: "governed_cache \<times> governor_client \<Rightarrow> ((string, string) heap \<times> governor_client) option" where
  "gcache_destroy cg = (let (c, g) = gcache_stop cg
     in map_option (\<lambda>h. (h, client_destroy g)) (lru_destroy (gc_cache c)))"

definition gcache_get :: "string \<Rightarrow> governed_cache \<Rightarrow> (string option \<times> governed_cache) option" where
  "gcache_get k c = map_option (\<lambda>(v, l). (v, c\<lparr>gc_cache := l\<rparr>)) (lru_get k (gc_cache c))"

definition gcache_put :: "string \<Rightarrow> string \<Rightarrow> governed_cache \<Rightarrow> governed_cache option" where
  "gcache_put k v c = map_option (\<lambda>l. c\<lparr>gc_cache := l\<rparr>) (lru_put k v (gc_cache c))"

subsection \<open>Statistics\<close>

text \<open>\<open>LRUCache::hit_rate\<close>; the sum is taken in 64 bits.\<close>

definition hit_rate :: "('k, 'v) lru \<Rightarrow> double" where
  "hit_rate l =
     (if lru_hits l + lru_misses l = 0 then Finite 0
      else dbl_div (dbl_of_u64 (lru_hits l)) (dbl_of_u64 (lru_hits l + lru_misses l)))"

record cache_stats =
  st_size :: u64
  st_capacity :: u64
  st_hit_rate :: double
  st_hits :: u64
  st_misses :: u64

definition get_stats :: "governed_cache \<Rightarrow> cache_stats" where
  "get_stats c = \<lparr>st_size = lru_size (gc_cache c), st_capacity = lru_capacity (gc_cache c),
     st_hit_rate = hit_rate (gc_cache c), st_hits = lru_hits (gc_cache c), st_misses = lru_misses (gc_cache c)\<rparr>"

subsection \<open>Commands\<close>

text \<open>Division by zero is undefined. The result of \<open>report_size\<close> is ignored by the code.\<close>

definition resize_and_report :: "i32 \<Rightarrow> io_out list \<Rightarrow> u64 \<Rightarrow> governed_cache \<times> governor_client \<Rightarrow>
    (governed_cache \<times> governor_client) performed" where
  "resize_and_report pid ws n = (\<lambda>(c, g).
     (case lru_resize n (gc_cache c) of
        None \<Rightarrow> Breaks
      | Some l \<Rightarrow>
          (let (x, g') = report_size pid (lru_size l * entry_bytes c) ws g
           in if x = SendBlocked then Blocks else Done (c\<lparr>gc_cache := l\<rparr>, g'))))"

definition handle_shrink :: "i32 \<Rightarrow> io_out list \<Rightarrow> u64 \<Rightarrow> governed_cache \<times> governor_client \<Rightarrow>
    (governed_cache \<times> governor_client) performed" where
  "handle_shrink pid ws target_bytes = (\<lambda>(c, g).
     (if entry_bytes c = 0 then Breaks
      else let target_capacity = target_bytes div entry_bytes c
           in if target_capacity < lru_capacity (gc_cache c)
              then resize_and_report pid ws target_capacity (c, g)
              else Done (c, g)))"

definition handle_grow :: "i32 \<Rightarrow> io_out list \<Rightarrow> u64 \<Rightarrow> governed_cache \<times> governor_client \<Rightarrow>
    (governed_cache \<times> governor_client) performed" where
  "handle_grow pid ws target_bytes = (\<lambda>(c, g).
     (if entry_bytes c = 0 then Breaks
      else let target_capacity = target_bytes div entry_bytes c
           in if lru_capacity (gc_cache c) < target_capacity
              then resize_and_report pid ws target_capacity (c, g)
              else Done (c, g)))"

text \<open>The two lambdas the constructor installs.\<close>

definition gcache_handler :: "i32 \<Rightarrow> io_out list \<Rightarrow> governed_cache handler" where
  "gcache_handler pid ws cb cg = (case cb of
     OnShrink t \<Rightarrow> handle_shrink pid ws t cg
   | OnGrow t \<Rightarrow> handle_grow pid ws t cg)"

subsection \<open>The effect of a command\<close>

abbreviation report :: "i32 \<Rightarrow> u64 \<Rightarrow> message" where
  "report pid cur \<equiv> message_default\<lparr>msg_type := REPORT_SIZE, msg_pid := pid, msg_current := cur\<rparr>"

lemma resize_and_report_effect:
  assumes "lru_implements (gc_cache c) v" and "connected g" and "takes_frames ws"
  shows "\<exists>l. resize_and_report pid ws n (c, g) =
      Done (c\<lparr>gc_cache := l\<rparr>,
        g\<lparr>sent := sent g @ [(sock_fd g, frame (report pid (lru_size l * entry_bytes c)))]\<rparr>) \<and>
    lru_implements l (spec_resize n v)"
proof -
  from lru_store.resize_law [OF assms(1), of n] obtain l
    where "lru_resize n (gc_cache c) = Some l" "lru_implements l (spec_resize n v)" by blast
  then show ?thesis using send_message_complete [OF assms(2,3)]
    by (intro exI [of _ l]) (simp add: resize_and_report_def report_size_def)
qed

lemma unat_div_le: "unat (t div e) * unat e \<le> unat (t :: u64)"
  by (simp add: unat_div_distrib)

lemma start_new_cache:
  assumes "takes_frames ws"
  shows "\<exists>g. gcache_start pid (Established fd s) ws (gcache_new n e) =
      Done (\<lparr>gc_cache = lru_new n, entry_bytes = e\<rparr>, g) \<and>
    sent g = [(fd, frame (message_default\<lparr>msg_type := REGISTER, msg_pid := pid, msg_current := 0\<rparr>))] \<and>
    connected g \<and> listening g \<and> shrink_callback g"
proof -
  let ?g0 = "on_grow (on_shrink client_new)"
  let ?g1 = "?g0\<lparr>sock_fd := fd, open_fds := List.insert fd (open_fds ?g0), connected := True\<rparr>"
  have "client_connect (Established fd s) ?g0 = (True, ?g1)"
    by (simp add: client_connect_def on_grow_def on_shrink_def client_new_def)
  moreover have "connected ?g1" by simp
  ultimately show ?thesis using send_message_complete [OF _ assms, of ?g1]
    by (simp add: gcache_start_def gcache_new_def register_cache_def lru_new_def start_listening_def
        on_grow_def on_shrink_def client_new_def)
qed

text \<open>C10: A SHRINK is honoured. With a nonzero entry size and a working connection, a target
  below the current capacity makes the cache keep exactly its most recently used entries, as
  many as fit the target at the estimated entry size, so that the size it then reports (a
  product that does not wrap) is at most the target; a target that asks for no less than the
  current capacity changes and sends nothing.\<close>

theorem handle_shrink_honours_target:
  fixes t :: u64
  assumes "lru_implements (gc_cache c) v" and "entry_bytes c \<noteq> 0" and "connected g" and "takes_frames ws"
  defines "n \<equiv> t div entry_bytes c"
  shows "if n < capacity v
    then \<exists>l. handle_shrink pid ws t (c, g) =
        Done (c\<lparr>gc_cache := l\<rparr>,
          g\<lparr>sent := sent g @ [(sock_fd g, frame (report pid (lru_size l * entry_bytes c)))]\<rparr>) \<and>
      lru_implements l (v\<lparr>capacity := n, items := take (unat n) (items v)\<rparr>) \<and>
      unat (lru_size l * entry_bytes c) = unat (lru_size l) * unat (entry_bytes c) \<and>
      unat (lru_size l * entry_bytes c) \<le> unat t
    else handle_shrink pid ws t (c, g) = Done (c, g)"
proof (cases "n < capacity v")
  case True
  from resize_and_report_effect [OF assms(1,3,4), of pid n] obtain l
    where l: "resize_and_report pid ws n (c, g) = Done (c\<lparr>gc_cache := l\<rparr>,
        g\<lparr>sent := sent g @ [(sock_fd g, frame (report pid (lru_size l * entry_bytes c)))]\<rparr>)"
      and i: "lru_implements l (spec_resize n v)" by blast
  have "unat (lru_size l) \<le> unat n" using implements_size [OF i] by (simp add: spec_resize_def)
  then have "unat (lru_size l) * unat (entry_bytes c) \<le> unat n * unat (entry_bytes c)" by simp
  also have "\<dots> \<le> unat t" unfolding n_def by (rule unat_div_le)
  finally have le: "unat (lru_size l) * unat (entry_bytes c) \<le> unat t" .
  have "unat (lru_size l) * unat (entry_bytes c) < 2 ^ 64"
    using le_less_trans [OF le unat_lt_u64] by simp
  then have "unat (lru_size l * entry_bytes c) = unat (lru_size l) * unat (entry_bytes c)"
    by (simp add: unat_word_ariths)
  then show ?thesis
    using True l i le assms(2) implements_capacity [OF assms(1)]
    by (simp add: handle_shrink_def spec_resize_def flip: n_def) (intro exI [of _ l]; simp)
next
  case False
  then show ?thesis using assms(2) implements_capacity [OF assms(1)]
    by (simp add: handle_shrink_def flip: n_def)
qed

text \<open>A GROW above the current capacity raises the capacity to the target at the entry
  size and, when the cache is within its capacity, keeps every entry; the size it reports is
  unchanged. Any other GROW changes and sends nothing.\<close>

theorem handle_grow_keeps_entries:
  fixes t :: u64
  assumes "lru_implements (gc_cache c) v" and "entry_bytes c \<noteq> 0" and "connected g" and "takes_frames ws"
    and "length (items v) \<le> unat (capacity v)"
  defines "n \<equiv> t div entry_bytes c"
  shows "if capacity v < n
    then \<exists>l. handle_grow pid ws t (c, g) =
        Done (c\<lparr>gc_cache := l\<rparr>,
          g\<lparr>sent := sent g @ [(sock_fd g, frame (report pid (lru_size (gc_cache c) * entry_bytes c)))]\<rparr>) \<and>
      lru_implements l (v\<lparr>capacity := n\<rparr>) \<and> lru_size l = lru_size (gc_cache c)
    else handle_grow pid ws t (c, g) = Done (c, g)"
proof (cases "capacity v < n")
  case True
  from resize_and_report_effect [OF assms(1,3,4), of pid n] obtain l
    where l: "resize_and_report pid ws n (c, g) = Done (c\<lparr>gc_cache := l\<rparr>,
        g\<lparr>sent := sent g @ [(sock_fd g, frame (report pid (lru_size l * entry_bytes c)))]\<rparr>)"
      and i: "lru_implements l (spec_resize n v)" by blast
  have "unat (capacity v) < unat n" using True by (simp add: word_less_nat_alt)
  then have s: "spec_resize n v = v\<lparr>capacity := n\<rparr>" using assms(5) by (simp add: spec_resize_def)
  then have "unat (lru_size l) = unat (lru_size (gc_cache c))"
    using implements_size [OF i] implements_size [OF assms(1)] by simp
  then have "lru_size l = lru_size (gc_cache c)" by (simp add: word_unat_eq_iff)
  then show ?thesis
    using True l i assms(2) implements_capacity [OF assms(1)]
    by (auto simp: handle_grow_def s simp flip: n_def)
next
  case False
  then show ?thesis using assms(2) implements_capacity [OF assms(1)]
    by (simp add: handle_grow_def flip: n_def)
qed

lemma client_destroy_effect:
  "\<not> listening (client_destroy g)" "\<not> connected (client_destroy g)" "sock_fd (client_destroy g) = - 1"
  "open_fds (client_destroy g) = (if sock_fd g = - 1 then open_fds g else removeAll (sock_fd g) (open_fds g))"
  by (simp_all add: client_destroy_def client_disconnect_def stop_listening_def)

lemma client_destroy_twice: "client_destroy (client_destroy g) = client_destroy g"
  by (simp add: client_destroy_def client_disconnect_def stop_listening_def)

lemma gcache_stop_destroy: "gcache_stop (c, g) = (c, client_destroy g)"
  by (simp add: gcache_stop_def client_destroy_def)

text \<open>The destructor, with or without a call of \<open>stop\<close> before it, frees every node and closes the connection.\<close>

theorem gcache_destroy_releases:
  assumes "lru_implements (gc_cache c) v"
  shows "\<exists>g'. gcache_destroy (c, g) = Some (Map.empty, g') \<and> gcache_destroy (gcache_stop (c, g)) = Some (Map.empty, g') \<and>
    \<not> listening g' \<and> \<not> connected g' \<and> sock_fd g' = - 1 \<and>
    set (open_fds g') = (if sock_fd g = - 1 then set (open_fds g) else set (open_fds g) - {sock_fd g})"
  using implements_destroy [OF assms]
  by (auto simp: gcache_destroy_def gcache_stop_destroy client_destroy_twice client_destroy_effect)

text \<open>The hit rate is a number between 0 and 1 as long as the 64-bit sum of the counters
  does not wrap, and 0 before the first lookup.\<close>

theorem hit_rate_unit_interval:
  assumes "unat (lru_hits l) + unat (lru_misses l) < 2 ^ 64"
  shows "\<exists>q. hit_rate l = Finite q \<and> 0 \<le> q \<and> q \<le> 1 \<and> (lru_hits l = 0 \<longrightarrow> q = 0)"
proof (cases "lru_hits l + lru_misses l = 0")
  case True
  then show ?thesis by (simp add: hit_rate_def)
next
  case False
  let ?h = "of_nat (unat (lru_hits l)) :: rat" and ?s = "of_nat (unat (lru_hits l + lru_misses l)) :: rat"
  have sum: "unat (lru_hits l + lru_misses l) = unat (lru_hits l) + unat (lru_misses l)"
    using assms by (simp add: unat_word_ariths)
  have big: "of_nat (unat n) \<le> (2 :: rat) ^ 70" for n :: u64
  proof -
    have "(of_nat (unat n) :: rat) \<le> of_nat (2 ^ 64)" unfolding of_nat_le_iff using less_imp_le [OF unat_lt_u64 [of n]] by simp
    then show ?thesis by (rule order_trans) simp
  qed
  have hs: "0 \<le> ?h" "?h \<le> ?s" "1 \<le> ?s"
  proof -
    show "0 \<le> ?h" by (rule of_nat_0_le_iff)
    show "?h \<le> ?s" unfolding of_nat_le_iff sum by simp
    have "1 \<le> unat (lru_hits l + lru_misses l)" using False by (simp add: Suc_le_eq unat_gt_0)
    then show "1 \<le> ?s" by (metis of_nat_1 of_nat_le_iff)
  qed
  have d: "dbl_of_u64 n = Finite (rnd (of_nat (unat n)))" for n
    unfolding dbl_of_u64_def by (rule to_double_small [OF of_nat_0_le_iff big])
  have r: "0 \<le> rnd ?h" "rnd ?h \<le> rnd ?s" "1 \<le> rnd ?s"
    using hs rnd_mono [of ?h ?s] rnd_mono [of 1 ?s] rnd_of_int [of 1] rnd_nonneg [of ?h] by simp_all
  let ?q = "rnd ?h / rnd ?s"
  have q: "0 \<le> ?q" "?q \<le> 1" using r by simp_all
  then have "rnd ?q \<le> rnd 1" by (rule rnd_mono)
  then have r1: "rnd ?q \<le> 1" "0 \<le> rnd ?q" using rnd_of_int [of 1] rnd_nonneg [OF q(1)] by simp_all
  have "to_double ?q = Finite (rnd ?q)" using q by (intro to_double_small) simp_all
  then have "hit_rate l = Finite (rnd ?q)" using False r by (simp add: hit_rate_def d)
  moreover have "rnd ?q = 0" if "lru_hits l = 0" using that by simp
  ultimately show ?thesis using r1 by blast
qed

subsection \<open>Witnesses\<close>

text \<open>A cache of capacity 4 with entries of 256 bytes that holds two of them, on a connection.\<close>

definition sample_client :: governor_client where
  "sample_client = client (sample_listener [])"

lemma sample_client_simps [simp]: "connected sample_client" "sent sample_client = []" "sock_fd sample_client = 7"
  by (simp_all add: sample_client_def)
    (simp add: sample_listener_def start_listening_def client_connect_def on_grow_def on_shrink_def client_new_def)

definition sample_view :: "(string, string) lru_view" where
  "sample_view = snd (run_spec spec_exec [Put ''a'' ''1'', Put ''b'' ''2''] (spec_new 4))"

lemma sample_view_eq: "sample_view = \<lparr>capacity = 4, items = [(''b'', ''2''), (''a'', ''1'')], hits = 0, misses = 0\<rparr>"
  by (simp add: sample_view_def spec_defs)

lemma sample_cache: "\<exists>l. lru_implements l sample_view"
proof -
  have "stays countable_entries spec_exec [Put ''a'' ''1'', Put ''b'' ''2''] (spec_new 4)"
    by (simp add: spec_defs)
  from lru.run_sim [OF implements_new this] show ?thesis unfolding sample_view_def by blast
qed

lemma one_write: "takes_frames [Wrote 200]"
  by (simp add: takes_frames_def)

text \<open>A target of 300 bytes leaves room for one entry, the one used last.\<close>

theorem handle_shrink_honours_target_witness:
  "\<exists>c l. handle_shrink 1 [Wrote 200] 300 (c, sample_client) =
      Done (c\<lparr>gc_cache := l\<rparr>, sample_client\<lparr>sent := [(7, frame (report 1 256))]\<rparr>) \<and>
    lru_implements l \<lparr>capacity = 1, items = [(''b'', ''2'')], hits = 0, misses = 0\<rparr>"
proof -
  obtain l0 where l0: "lru_implements l0 sample_view" using sample_cache by blast
  let ?c = "\<lparr>gc_cache = l0, entry_bytes = 256\<rparr>"
  have i: "lru_implements (gc_cache ?c) sample_view" "entry_bytes ?c \<noteq> 0" using l0 by simp_all
  have n: "(300 :: u64) div entry_bytes ?c = 1" by simp
  from handle_shrink_honours_target [OF i _ one_write, of sample_client 300 1] obtain l where
    l: "handle_shrink 1 [Wrote 200] 300 (?c, sample_client) = Done (?c\<lparr>gc_cache := l\<rparr>,
        sample_client\<lparr>sent := [(7, frame (report 1 (lru_size l * 256)))]\<rparr>)"
      "lru_implements l \<lparr>capacity = 1, items = [(''b'', ''2'')], hits = 0, misses = 0\<rparr>"
    unfolding n by (auto simp: sample_view_eq)
  have "unat (lru_size l) = 1" using implements_size [OF l(2)] by simp
  then have "lru_size l = 1" by (simp add: word_unat_eq_iff)
  with l show ?thesis by (intro exI [of _ ?c] exI [of _ l]) simp
qed

theorem handle_grow_keeps_entries_witness:
  "\<exists>c l. handle_grow 1 [Wrote 200] 2560 (c, sample_client) =
      Done (c\<lparr>gc_cache := l\<rparr>, sample_client\<lparr>sent := [(7, frame (report 1 512))]\<rparr>) \<and>
    lru_implements l (sample_view\<lparr>capacity := 10\<rparr>)"
proof -
  obtain l0 where l0: "lru_implements l0 sample_view" using sample_cache by blast
  let ?c = "\<lparr>gc_cache = l0, entry_bytes = 256\<rparr>"
  have i: "lru_implements (gc_cache ?c) sample_view" "entry_bytes ?c \<noteq> 0"
    "length (items sample_view) \<le> unat (capacity sample_view)"
    using l0 by (simp_all add: sample_view_eq)
  have n: "(2560 :: u64) div entry_bytes ?c = 10" by simp
  have "unat (lru_size l0) = 2" using implements_size [OF l0] by (simp add: sample_view_eq)
  then have s: "lru_size l0 = 2" by (simp add: word_unat_eq_iff)
  from handle_grow_keeps_entries [OF i(1,2) _ one_write i(3), of sample_client 2560 1] s obtain l where
    "handle_grow 1 [Wrote 200] 2560 (?c, sample_client) = Done (?c\<lparr>gc_cache := l\<rparr>,
        sample_client\<lparr>sent := [(7, frame (report 1 512))]\<rparr>)" "lru_implements l (sample_view\<lparr>capacity := 10\<rparr>)"
    unfolding n by (auto simp: sample_view_eq)
  then show ?thesis by (intro exI [of _ ?c] exI [of _ l]) simp
qed

theorem gcache_destroy_releases_witness:
  "\<exists>c g'. gcache_destroy (c, sample_client) = Some (Map.empty, g') \<and> sock_fd g' = - 1 \<and> 7 \<notin> set (open_fds g')"
proof -
  obtain l where "lru_implements l sample_view" using sample_cache by blast
  then have "lru_implements (gc_cache \<lparr>gc_cache = l, entry_bytes = 256\<rparr>) sample_view" by simp
  from gcache_destroy_releases [OF this, of sample_client] show ?thesis
    by (intro exI [of _ "\<lparr>gc_cache = l, entry_bytes = 256\<rparr>"]) auto
qed

definition sample_counters :: "(nat, nat) lru" where
  "sample_counters = (lru_new 4)\<lparr>lru_hits := 3, lru_misses := 1\<rparr>"

theorem hit_rate_unit_interval_witness:
  "\<exists>q. hit_rate sample_counters = Finite q \<and> 0 \<le> q \<and> q \<le> 1"
  using hit_rate_unit_interval [of sample_counters] by (auto simp: sample_counters_def)

end
