(* ===== verification/End_To_End.thy ===== *)
theory End_To_End
  imports Governor_Daemon Governed_Cache
begin

text \<open>
  Properties that need both sides of the socket: what the daemon computes from what a cache
  reports, and what the cache then does with the command.
\<close>

subsection \<open>The first SHRINK\<close>

lemma shrink_target_zero:
  "1 / 16 \<le> f \<Longrightarrow> f \<le> 15 / 16 \<Longrightarrow> shrink_target (Finite f) 0 = Some 0"
  using shrink_target_bounds [of f 0] by auto

lemma broadcast_one:
  assumes "clients r = [(fd, c)]" and "writable ws" and "shrink_target (Finite f) (ci_current c) = Some t"
  shows "broadcast_shrink (Finite f) (\<lambda>_. ws) r = Some ([(fd, frame (command SHRINK t))], False)"
  using assms by (simp add: broadcast_shrink_def send_writable)

lemma shrink_to_zero:
  assumes "lru_implements l v" and "capacity v \<noteq> 0" and "e \<noteq> 0" and "takes_frames ws"
    and "connected g" and "listening g" and "shrink_callback g"
  shows "\<exists>l'. listener_loop (gcache_handler pid ws) []
      \<lparr>client = g, app = \<lparr>gc_cache = l, entry_bytes = e\<rparr>, backoff = 1, input = [Bytes (frame (command SHRINK 0))]\<rparr> =
      ([Called (OnShrink 0)], l', StillReading) \<and>
    lru_capacity (gc_cache (app l')) = 0 \<and> lru_size (gc_cache (app l')) = 0"
proof -
  let ?c = "\<lparr>gc_cache = l, entry_bytes = e\<rparr>"
  let ?L = "\<lparr>client = g, app = ?c, backoff = 1, input = [Bytes (frame (command SHRINK 0))]\<rparr>"
  from resize_and_report_effect [of ?c v g ws pid 0] assms obtain l1 where
    l1: "resize_and_report pid ws 0 (?c, g) = Done (?c\<lparr>gc_cache := l1\<rparr>,
        g\<lparr>sent := sent g @ [(sock_fd g, frame (report pid (lru_size l1 * e)))]\<rparr>)"
      and i: "lru_implements l1 (spec_resize 0 v)" by auto
  have z: "lru_capacity l1 = 0" "lru_size l1 = 0"
    using implements_capacity [OF i] implements_size [OF i]
    by (simp_all add: spec_resize_def unat_eq_0)
  let ?g = "g\<lparr>sent := sent g @ [(sock_fd g, frame (report pid (lru_size l1 * e)))]\<rparr>"
  have "0 < lru_capacity l" using assms(2) implements_capacity [OF assms(1)] by (simp add: word_neq_0_conv)
  then have h: "gcache_handler pid ws (OnShrink 0) (?c, g) = Done (?c\<lparr>gc_cache := l1\<rparr>, ?g)"
    using assms(3) l1 by (simp add: gcache_handler_def handle_shrink_def)
  obtain cs where cs: "carries [] cs"
    "listen_once (gcache_handler pid ws) ?L =
      deliver (gcache_handler pid ws) (map byte_of (payload_of (command SHRINK 0))) (?L\<lparr>input := map Bytes cs\<rparr>)"
    using listen_once_frame [of "command SHRINK 0" "[]" "[frame (command SHRINK 0)]" ?L]
      carries_one_each [of "[command SHRINK 0]"] no_empty_frames [of "[command SHRINK 0]"] by auto
  let ?L1 = "?L\<lparr>input := [], app := ?c\<lparr>gc_cache := l1\<rparr>, client := ?g\<rparr>"
  have "listen_once (gcache_handler pid ws) ?L = Listened (Some (OnShrink 0)) ?L1"
    using cs assms(7) h by (simp add: deliver_def process_message_def)
  moreover have "listener_loop (gcache_handler pid ws) [] ?L1 = ([], ?L1, StillReading)"
    using assms(5,6) by (subst listener_loop.simps) (simp add: reconnect_def listen_once_def)
  ultimately have "listener_loop (gcache_handler pid ws) [] ?L = ([Called (OnShrink 0)], ?L1, StillReading)"
    using assms(5,6) by (subst listener_loop.simps) (simp add: reconnect_def)
  then show ?thesis using z by (intro exI [of _ ?L1]) simp
qed

text \<open>The first SHRINK empties every cache. A cache registers when it is created and
  empty, and nothing reports its growth, so the daemon records size zero for it; whatever gets
  and puts the application makes before the first SHRINK of any admissible fraction, that
  SHRINK carries the target 0, and the cache answers it by setting its capacity to zero and
  evicting every entry.\<close>

theorem first_shrink_empties_cache:
  assumes "0 < n" and "e \<noteq> 0" and "list_all keeps_positive ops"
    and "1 / 16 \<le> f" and "f \<le> 15 / 16" and "clients r = [(cfd, ci)]"
    and "takes_frames ws" and "writable ws'"
  shows "\<exists>c g bytes r' out l outs l'.
    gcache_start pid (Established fd s) ws (gcache_new n e) = Done (c, g) \<and> sent g = [(fd, bytes)] \<and>
    handle_client_message cfd [Bytes bytes] r = (Returned r', []) \<and>
    broadcast_shrink (Finite f) (\<lambda>_. ws') r' = Some ([(cfd, out)], False) \<and>
    run_steps lru_exec ops (gc_cache c) = Some (outs, l) \<and>
    listener_loop (gcache_handler pid ws) []
      \<lparr>client = g, app = c\<lparr>gc_cache := l\<rparr>, backoff = 1, input = [Bytes out]\<rparr> =
      ([Called (OnShrink 0)], l', StillReading) \<and>
    lru_capacity (gc_cache (app l')) = 0 \<and> lru_size (gc_cache (app l')) = 0"
proof -
  let ?m = "message_default\<lparr>msg_type := REGISTER, msg_pid := pid, msg_current := 0\<rparr>"
  obtain g where g: "gcache_start pid (Established fd s) ws (gcache_new n e) =
        Done (\<lparr>gc_cache = lru_new n, entry_bytes = e\<rparr>, g)"
      "sent g = [(fd, frame ?m)]" "connected g" "listening g" "shrink_callback g"
    using start_new_cache [OF assms(7)] by blast
  let ?r = "apply_message cfd ?m r"
  have r: "handle_client_message cfd [Bytes (frame ?m)] r = (Returned ?r, [])"
    using reassemble [OF carries_one_each no_empty_frames, of cfd "[?m]" r] by simp
  have cl: "clients ?r = [(cfd, ci\<lparr>ci_pid := pid, ci_current := 0\<rparr>)]"
    using assms(6) by (simp add: apply_message_def)
  have out: "broadcast_shrink (Finite f) (\<lambda>_. ws') ?r = Some ([(cfd, frame (command SHRINK 0))], False)"
  proof (rule broadcast_one [OF cl assms(8)])
    have "ci_current (ci\<lparr>ci_pid := pid, ci_current := 0\<rparr>) = 0" by simp
    then show "shrink_target (Finite f) (ci_current (ci\<lparr>ci_pid := pid, ci_current := 0\<rparr>)) = Some 0"
      using shrink_target_zero [OF assms(4,5)] by argo
  qed
  obtain outs l where l: "run_steps lru_exec ops (lru_new n) = Some (outs, l)"
    and i: "lru_implements l (spec_state n ops)" using lru_run_positive [OF assms(3,1)] by blast
  have "0 < capacity (spec_state n ops)"
    using spec_run_positive [OF assms(3), of "spec_new n"] assms(1)
    by (simp add: spec_state_def spec_new_def del: word_neq_0_conv)
  then have "capacity (spec_state n ops) \<noteq> 0" by simp
  from shrink_to_zero [OF i this assms(2,7) g(3-5)] g(1,2) r out l show ?thesis
    by fastforce
qed

text \<open>A cache that has reported size zero never gets its capacity back: every GROW the
  daemon can send it carries the target 0, which the cache ignores.\<close>

theorem grow_cannot_revive:
  assumes "1 / 16 \<le> f" and "f \<le> 1" and "entry_bytes c \<noteq> 0"
  shows "\<exists>t. grow_target (Finite f) 0 = Some t \<and> handle_grow pid ws t (c, g) = Done (c, g)"
proof -
  have "grow_target (Finite f) 0 = Some 0"
    using target_zero [of "1 + f"] assms(1,2) by (simp add: grow_target_def)
  then show ?thesis using assms(3) by (simp add: handle_grow_def)
qed

text \<open>GROW does not undo SHRINK. For any recorded size from 64 bytes to \<open>2^62\<close>, a SHRINK by
  one half followed, after the cache has reported the target as its size, by a GROW by one half
  asks for less than the size at the start (about three quarters of it).\<close>

theorem grow_does_not_undo_shrink:
  assumes "64 \<le> unat n" and "unat n < 2 ^ 62"
  shows "\<exists>t t'. shrink_target (Finite (1 / 2)) n = Some t \<and> grow_target (Finite (1 / 2)) t = Some t' \<and>
    t' < n \<and> of_nat (unat t') \<le> (7 / 8) * (of_nat (unat n) :: rat)"
proof -
  let ?n = "of_nat (unat n) :: rat"
  obtain t where t: "shrink_target (Finite (1 / 2)) n = Some t" "t \<le> n"
    "\<bar>of_nat (unat t) - (1 - 1 / 2) * ?n\<bar> \<le> 1 + ?n / 2 ^ 51"
    using shrink_target_bounds [of "1 / 2" n] by auto
  let ?t = "of_nat (unat t) :: rat"
  have n: "64 \<le> ?n" "?n < 2 ^ 62"
  proof -
    have "of_nat 64 \<le> ?n" unfolding of_nat_le_iff by (rule assms(1))
    then show "64 \<le> ?n" by simp
    have "?n < of_nat (2 ^ 62)" unfolding of_nat_less_iff by (rule assms(2))
    then show "?n < 2 ^ 62" by simp
  qed
  have t1: "?t \<le> ?n / 2 + 1 + ?n / 2 ^ 51" using t(3) unfolding abs_le_iff by simp
  then have "?t < 2 ^ 62" using n by simp
  then have "(1 + 1 / 2) * ?t * (1 + 1 / 2 ^ 51) < 2 ^ 64" by simp
  then obtain t' where t': "grow_target (Finite (1 / 2)) t = Some t'"
    "\<bar>of_nat (unat t') - (1 + 1 / 2) * ?t\<bar> \<le> 1 + ?t / 2 ^ 50"
    using grow_target_cases [of "1 / 2" t] by auto
  let ?u = "of_nat (unat t') :: rat"
  have "?u \<le> (3 / 2) * ?t + 1 + ?t / 2 ^ 50" using t'(2) unfolding abs_le_iff by simp
  then have u: "?u \<le> (7 / 8) * ?n" using t1 n by simp
  then have "?u < ?n" using n by linarith
  then have "t' < n" unfolding of_nat_less_iff by (simp add: word_less_nat_alt)
  with t(1) t'(1) u show ?thesis by blast
qed

subsection \<open>Witnesses\<close>

theorem first_shrink_empties_cache_witness:
  "\<exists>c g bytes r' out l outs l'.
    gcache_start 42 (Established 9 []) [Wrote 200] (gcache_new 4 256) = Done (c, g) \<and> sent g = [(9, bytes)] \<and>
    handle_client_message 5 [Bytes bytes] (add_client 5 started_registry) = (Returned r', []) \<and>
    broadcast_shrink (Finite (1 / 4)) (\<lambda>_. [Wrote 200]) r' = Some ([(5, out)], False) \<and>
    run_steps lru_exec [Put ''a'' ''1'', Put ''b'' ''2'', Get ''a''] (gc_cache c) = Some (outs, l) \<and>
    listener_loop (gcache_handler 42 [Wrote 200]) []
      \<lparr>client = g, app = c\<lparr>gc_cache := l\<rparr>, backoff = 1, input = [Bytes out]\<rparr> =
      ([Called (OnShrink 0)], l', StillReading) \<and>
    lru_capacity (gc_cache (app l')) = 0 \<and> lru_size (gc_cache (app l')) = 0"
  by (rule first_shrink_empties_cache [OF _ _ _ _ _ one_client one_write])
    (simp_all add: writable_def)

theorem grow_cannot_revive_witness:
  "\<exists>t. grow_target (Finite (1 / 2)) 0 = Some t \<and>
    handle_grow 42 [] t (fst (gcache_new 0 256), sample_client) = Done (fst (gcache_new 0 256), sample_client)"
  by (rule grow_cannot_revive) (simp_all add: gcache_new_def)

theorem grow_does_not_undo_shrink_witness:
  "\<exists>t t'. shrink_target (Finite (1 / 2)) 1000 = Some t \<and> grow_target (Finite (1 / 2)) t = Some t' \<and> t' < 1000"
  using grow_does_not_undo_shrink [of 1000] by auto

end
