(* ===== verification/System.thy ===== *)
theory System
  imports End_To_End
begin

text \<open>
  One daemon and any number of caches. The state is the daemon, the applications that are connected,
  each with its cache, its client and the bytes on the way in the two directions of its
  connection, and a step is one thing that one thread of one process does: an application joins,
  uses its cache, obeys a command or leaves; the registry's loop hears a client; the poller's callback
  handles a sample. Every order of these steps is a run, so every interleaving is.

  Each step is the function that models the code, on the state it acts on. Sockets deliver what was
  written, in the pieces it was written in, which no reader depends on (theories Client_Registry and
  Governor_Client). The member is keyed by the daemon's descriptor; \<open>m_first\<close> remembers the capacity
  it joined with, for the statements only.
\<close>

record member =
  m_cache :: governed_cache
  m_client :: governor_client
  m_down :: "u8 list list"
  m_up :: "u8 list list"
  m_first :: u64

record system =
  sys_daemon :: daemon
  members :: "int \<rightharpoonup> member"

definition sys_registry :: "system \<Rightarrow> registry" where
  "sys_registry s = d_registry (sys_daemon s)"

definition with_registry :: "registry \<Rightarrow> system \<Rightarrow> system" where
  "with_registry r s = s\<lparr>sys_daemon := (sys_daemon s)\<lparr>d_registry := r\<rparr>\<rparr>"

definition put_member :: "int \<Rightarrow> member option \<Rightarrow> system \<Rightarrow> system" where
  "put_member fd m s = s\<lparr>members := (members s)(fd := m)\<rparr>"

text \<open>What a broadcast wrote goes to the connections it was written to.\<close>

definition sent_to :: "int \<Rightarrow> (int \<times> u8 list) list \<Rightarrow> u8 list list" where
  "sent_to fd out = map snd (filter (\<lambda>p. fst p = fd) out)"

definition deliver_all :: "(int \<times> u8 list) list \<Rightarrow> (int \<rightharpoonup> member) \<Rightarrow> (int \<rightharpoonup> member)" where
  "deliver_all out ms = (\<lambda>fd. map_option (\<lambda>m. m\<lparr>m_down := m_down m @ sent_to fd out\<rparr>) (ms fd))"

text \<open>What the client has written since an earlier state of it.\<close>

definition new_frames :: "governor_client \<Rightarrow> governor_client \<Rightarrow> u8 list list" where
  "new_frames g g' = map snd (drop (length (sent g)) (sent g'))"

definition member_listener :: "member \<Rightarrow> governed_cache listener" where
  "member_listener m = \<lparr>client = m_client m, app = m_cache m, backoff = 1, input = map Bytes (m_down m)\<rparr>"

text \<open>A member after one turn of its listener.\<close>

definition after_command :: "governed_cache listener \<Rightarrow> u8 list list \<Rightarrow> member \<Rightarrow> member" where
  "after_command l cs m = m\<lparr>m_cache := app l, m_client := client l, m_down := cs,
      m_up := m_up m @ new_frames (m_client m) (client l)\<rparr>"

inductive system_step :: "system \<Rightarrow> system \<Rightarrow> bool" where
  joins: "members s fd = None \<Longrightarrow> takes_frames ws \<Longrightarrow> e \<noteq> 0 \<Longrightarrow>
    gcache_start pid (Established cfd []) ws (gcache_new cap e) = Done (c, g) \<Longrightarrow>
    handle_new_connection [Accepted fd True, AcceptAgain] (sys_registry s) = Returned r \<Longrightarrow>
    system_step s (put_member fd
      (Some \<lparr>m_cache = c, m_client = g, m_down = [], m_up = map snd (sent g), m_first = cap\<rparr>) (with_registry r s))"
| hears: "members s fd = Some m \<Longrightarrow>
    handle_client_message fd (map Bytes (m_up m)) (sys_registry s) = (Returned r, []) \<Longrightarrow>
    system_step s (put_member fd (Some (m\<lparr>m_up := []\<rparr>)) (with_registry r s))"
| samples: "on_psi_update ws data (sys_daemon s) = Some (tr, (out, False), d) \<Longrightarrow>
    \<forall>p \<in> set (clients (sys_registry s)). writable (ws (fst p)) \<Longrightarrow>
    system_step s (s\<lparr>sys_daemon := d, members := deliver_all out (members s)\<rparr>)"
| obeys: "members s fd = Some m \<Longrightarrow> takes_frames ws \<Longrightarrow>
    listen_once (gcache_handler pid ws) (member_listener m) = Listened cb l \<Longrightarrow> input l = map Bytes cs \<Longrightarrow>
    system_step s (put_member fd (Some (after_command l cs m)) s)"
| reads: "members s fd = Some m \<Longrightarrow> gcache_get k (m_cache m) = Some (v, c) \<Longrightarrow>
    system_step s (put_member fd (Some (m\<lparr>m_cache := c\<rparr>)) s)"
| writes: "members s fd = Some m \<Longrightarrow> unat (lru_size (gc_cache (m_cache m))) + 1 < 2 ^ 64 \<Longrightarrow>
    gcache_put k v (m_cache m) = Some c \<Longrightarrow>
    system_step s (put_member fd (Some (m\<lparr>m_cache := c\<rparr>)) s)"
| leaves: "members s fd = Some m \<Longrightarrow>
    handle_client_message fd [Eof] (sys_registry s) = (Returned r, []) \<Longrightarrow>
    system_step s (put_member fd None (with_registry r s))"

text \<open>The runs of the default daemon, from a start that succeeds.\<close>

inductive reachable_system :: "start_env \<Rightarrow> system \<Rightarrow> bool" for env where
  starts: "daemon_start env (daemon_new default_config) = (None, d) \<Longrightarrow>
    reachable_system env \<lparr>sys_daemon = d, members = Map.empty\<rparr>"
| moves: "reachable_system env s \<Longrightarrow> system_step s t \<Longrightarrow> reachable_system env t"

lemma system_select [simp]:
  "sys_registry (with_registry r s) = r" "sys_registry (put_member fd m s) = sys_registry s"
  "members (with_registry r s) = members s" "members (put_member fd m s) = (members s)(fd := m)"
  "d_engine (sys_daemon (with_registry r s)) = d_engine (sys_daemon s)"
  "sys_daemon (put_member fd m s) = sys_daemon s"
  by (simp_all add: sys_registry_def with_registry_def put_member_def)

subsection \<open>What stays zero\<close>

text \<open>A stream of frames whose numbers are zero, in one direction and in the other.\<close>

definition streams :: "(message \<Rightarrow> bool) \<Rightarrow> u8 list list \<Rightarrow> bool" where
  "streams P cs \<longleftrightarrow> (\<exists>ms. carries ms cs \<and> no_empty cs \<and> list_all P ms)"

abbreviation zero_target :: "message \<Rightarrow> bool" where "zero_target msg \<equiv> msg_target msg = 0"

abbreviation zero_size :: "message \<Rightarrow> bool" where "zero_size msg \<equiv> msg_current msg = 0"

abbreviation zero_registry :: "registry \<Rightarrow> bool" where
  "zero_registry \<equiv> sizes_are (\<lambda>n. n = 0)"

definition zero_member :: "member \<Rightarrow> bool" where
  "zero_member m \<longleftrightarrow> entry_bytes (m_cache m) \<noteq> 0 \<and>
     (\<exists>v. lru_implements (gc_cache (m_cache m)) v) \<and> shrink_callback (m_client m) \<and>
     lru_capacity (gc_cache (m_cache m)) \<in> {m_first m, 0} \<and>
     streams zero_target (m_down m) \<and> streams zero_size (m_up m)"

definition zero_system :: "system \<Rightarrow> bool" where
  "zero_system s \<longleftrightarrow> default_engine (d_engine (sys_daemon s)) \<and> zero_registry (sys_registry s) \<and>
     (\<forall>fd m. members s fd = Some m \<longrightarrow> zero_member m)"

lemma streams_Nil [simp]: "streams P []"
  unfolding streams_def by (intro exI [of _ "[]"]) simp

lemma streams_append: "streams P cs \<Longrightarrow> list_all P ms \<Longrightarrow> streams P (cs @ map frame ms)"
  unfolding streams_def using carries_append no_empty_frames by (metis list_all_append)

lemma streams_frames: "list_all P ms \<Longrightarrow> streams P (map frame ms)"
  using streams_append [of P "[]" ms] by simp

lemma hears_zero:
  assumes "streams zero_size cs" and "handle_client_message fd (map Bytes cs) r = (Returned r', [])" and "zero_registry r"
  shows "zero_registry r'"
proof -
  obtain ms where ms: "carries ms cs" "no_empty cs" "list_all zero_size ms" using assms(1) by (auto simp: streams_def)
  then have "r' = fold (apply_message fd) ms r" using reassemble [OF ms(1,2), of fd r] assms(2) by simp
  with applies_sizes [OF ms(3) assms(3)] show ?thesis by simp
qed

subsection \<open>A command of zero bytes\<close>

text \<open>The frames a call wrote: what it appended to the log of the client, whose callbacks stay.\<close>

definition wrote :: "(message \<Rightarrow> bool) \<Rightarrow> governor_client \<Rightarrow> governor_client \<Rightarrow> bool" where
  "wrote P g g' \<longleftrightarrow> shrink_callback g' = shrink_callback g \<and> (\<exists>ms. list_all P ms \<and> sent g' = sent g @ map (\<lambda>m. (sock_fd g, frame m)) ms)"

lemma wrote_refl [simp]: "wrote P g g"
  unfolding wrote_def by (intro conjI exI [of _ "[]"]) simp_all

lemma wrote_frames: "wrote P g g' \<Longrightarrow> \<exists>ms. list_all P ms \<and> new_frames g g' = map frame ms"
  by (auto simp: wrote_def new_frames_def comp_def)

lemma send_wrote:
  assumes "takes_frames ws" and "P x"
  shows "\<exists>r g'. send_message x ws g = (r, g') \<and> r \<noteq> SendBlocked \<and> wrote P g g'"
proof (cases "connected g")
  case True
  have "wrote P g (g\<lparr>sent := sent g @ [(sock_fd g, frame x)]\<rparr>)"
    unfolding wrote_def using assms(2) by (intro conjI exI [of _ "[x]"]) simp_all
  with send_message_complete [OF True assms(1), of x] show ?thesis by blast
qed (simp add: send_message_def)

lemma shrink_to_nothing:
  assumes "lru_implements (gc_cache c) v" and "takes_frames ws"
  shows "\<exists>l g'. resize_and_report pid ws 0 (c, g) = Done (c\<lparr>gc_cache := l\<rparr>, g') \<and>
    (\<exists>v'. lru_implements l v') \<and> lru_capacity l = 0 \<and> wrote zero_size g g'"
proof -
  from lru_store.resize_law [OF assms(1), of 0] obtain l where
    l: "lru_resize 0 (gc_cache c) = Some l" "lru_implements l (spec_resize 0 v)" by blast
  have z: "lru_size l = 0" "lru_capacity l = 0"
    using implements_size [OF l(2)] implements_capacity [OF l(2)] by (simp_all add: spec_resize_def unat_eq_0)
  obtain r g' where "report_size pid 0 ws g = (r, g')" "r \<noteq> SendBlocked" "wrote zero_size g g'"
    using send_wrote [OF assms(2), of zero_size "report pid 0" g] by (auto simp: report_size_def)
  with l z show ?thesis by (intro exI [of _ l] exI [of _ g']) (auto simp: resize_and_report_def)
qed

lemma zero_command:
  assumes "lru_implements (gc_cache c) v" and "entry_bytes c \<noteq> 0" and "takes_frames ws"
    and "cb \<in> {OnShrink 0, OnGrow 0}"
  shows "\<exists>l g'. gcache_handler pid ws cb (c, g) = Done (c\<lparr>gc_cache := l\<rparr>, g') \<and>
    (\<exists>v'. lru_implements l v') \<and> lru_capacity l \<in> {lru_capacity (gc_cache c), 0} \<and>
    (cb = OnShrink 0 \<longrightarrow> lru_capacity l = 0) \<and> wrote zero_size g g'"
proof (cases "cb = OnShrink 0 \<and> 0 < lru_capacity (gc_cache c)")
  case True
  with shrink_to_nothing [OF assms(1,3), of pid g] assms(2) show ?thesis
    by (auto simp: gcache_handler_def handle_shrink_def)
next
  case False
  with assms(2,4) have "gcache_handler pid ws cb (c, g) = Done (c\<lparr>gc_cache := gc_cache c\<rparr>, g)"
    by (auto simp: gcache_handler_def handle_shrink_def handle_grow_def)
  with assms(1) False show ?thesis
    by (intro exI [of _ "gc_cache c"] exI [of _ g]) (auto simp: word_gt_0)
qed

lemma process_zero: "zero_target x \<Longrightarrow> process_message x g = Some cb \<Longrightarrow> cb \<in> {OnShrink 0, OnGrow 0}"
  by (auto simp: process_message_def split: if_splits)

lemma bytes_inject [simp]: "map Bytes cs = map Bytes cs' \<longleftrightarrow> cs = cs'"
  by (rule inj_map_eq_map) (simp add: inj_def)

lemma member_listener_select [simp]:
  "client (member_listener m) = m_client m" "app (member_listener m) = m_cache m"
  "input (member_listener m) = map Bytes (m_down m)"
  by (simp_all add: member_listener_def)

lemma after_command_cache [simp]: "m_cache (after_command l cs m) = app l"
  by (simp add: after_command_def)

text \<open>What one turn of the listener does with the frame it finds.\<close>

lemma obeys_first:
  assumes "zero_member m" and "takes_frames ws" and "carries (x # xs) (m_down m)" and "no_empty (m_down m)"
    and "zero_target x"
  defines "cb \<equiv> process_message x (m_client m)"
  obtains cs l where "listen_once (gcache_handler pid ws) (member_listener m) = Listened cb l"
    "input l = map Bytes cs" "carries xs cs" "no_empty cs" "entry_bytes (app l) = entry_bytes (m_cache m)"
    "\<exists>v. lru_implements (gc_cache (app l)) v"
    "lru_capacity (gc_cache (app l)) \<in> {lru_capacity (gc_cache (m_cache m)), 0}"
    "cb = Some (OnShrink 0) \<longrightarrow> lru_capacity (gc_cache (app l)) = 0" "wrote zero_size (m_client m) (client l)"
proof -
  let ?h = "gcache_handler pid ws" and ?L = "member_listener m"
  from assms(1) obtain v where c: "lru_implements (gc_cache (m_cache m)) v" "entry_bytes (m_cache m) \<noteq> 0"
    by (auto simp: zero_member_def)
  obtain cs where cs: "carries xs cs" "no_empty cs"
    "listen_once ?h ?L = deliver ?h (map byte_of (payload_of x)) (?L\<lparr>input := map Bytes cs\<rparr>)"
    using listen_once_frame [OF assms(3,4), of ?L ?h] by auto
  show ?thesis
  proof (cases cb)
    case None
    with cs c that [of "?L\<lparr>input := map Bytes cs\<rparr>" cs] show ?thesis by (auto simp: cb_def deliver_def)
  next
    case (Some a)
    with assms(5) have "a \<in> {OnShrink 0, OnGrow 0}" unfolding cb_def by (rule process_zero)
    from zero_command [OF c assms(2) this, of pid "m_client m"] obtain k g' where
      "?h a (m_cache m, m_client m) = Done ((m_cache m)\<lparr>gc_cache := k\<rparr>, g')" "\<exists>v'. lru_implements k v'"
        "lru_capacity k \<in> {lru_capacity (gc_cache (m_cache m)), 0}" "wrote zero_size (m_client m) g'"
        "a = OnShrink 0 \<longrightarrow> lru_capacity k = 0" by blast
    with Some cs that [of "?L\<lparr>input := map Bytes cs, app := (m_cache m)\<lparr>gc_cache := k\<rparr>, client := g'\<rparr>" cs]
    show ?thesis by (simp add: cb_def deliver_def)
  qed
qed

lemma obeys_zero:
  assumes "zero_member m" and "takes_frames ws"
    and "listen_once (gcache_handler pid ws) (member_listener m) = Listened cb l"
  shows "\<exists>cs. input l = map Bytes cs \<and> zero_member (after_command l cs m) \<and>
    (lru_capacity (gc_cache (m_cache m)) = 0 \<or> (\<exists>n. cb = Some (OnShrink n)) \<longrightarrow> lru_capacity (gc_cache (app l)) = 0)"
proof -
  from assms(1) obtain ms where down: "carries ms (m_down m)" "no_empty (m_down m)" "list_all zero_target ms"
    by (auto simp: zero_member_def streams_def)
  have "m_down m \<noteq> []" using assms(3) by (auto simp: listen_once_def)
  then obtain x xs where ms: "ms = x # xs" using down(1) by (cases ms) auto
  with down have x: "carries (x # xs) (m_down m)" "zero_target x" "list_all zero_target xs" by simp_all
  obtain cs l' where o: "listen_once (gcache_handler pid ws) (member_listener m) = Listened (process_message x (m_client m)) l'"
    and cs': "input l' = map Bytes cs" "carries xs cs" "no_empty cs" "entry_bytes (app l') = entry_bytes (m_cache m)"
      "\<exists>v. lru_implements (gc_cache (app l')) v"
      "lru_capacity (gc_cache (app l')) \<in> {lru_capacity (gc_cache (m_cache m)), 0}"
      "process_message x (m_client m) = Some (OnShrink 0) \<longrightarrow> lru_capacity (gc_cache (app l')) = 0"
      "wrote zero_size (m_client m) (client l')"
    by (rule obeys_first [OF assms(1,2) x(1) down(2) x(2), of pid])
  from o assms(3) have l: "l' = l" "cb = process_message x (m_client m)" by simp_all
  note cs = cs' [unfolded l(1)]
  obtain fs where "list_all zero_size fs" "new_frames (m_client m) (client l) = map frame fs"
    using wrote_frames [OF cs(8)] by blast
  then have "streams zero_size (m_up m @ new_frames (m_client m) (client l))"
    using assms(1) by (simp add: zero_member_def streams_append)
  moreover have "streams zero_target cs" using cs(2,3) x(3) by (auto simp: streams_def)
  moreover have "n = 0" if "cb = Some (OnShrink n)" for n using process_zero [OF x(2), of "m_client m" "OnShrink n"] that l(2) by auto
  ultimately show ?thesis using assms(1) cs l(2)
    by (intro exI [of _ cs]) (auto simp: after_command_def zero_member_def wrote_def)
qed

subsection \<open>The other steps\<close>

text \<open>A broadcast to clients whose recorded size is zero: only targets of zero go out, whatever the
  descriptor they go to.\<close>

lemma broadcast_zero:
  assumes "zero_registry r" and "\<forall>p \<in> set (clients r). writable (ws (fst p))" and "target 0 = Some 0"
  shows "broadcast ty target ws (clients r) = Some (map (\<lambda>(fd, c). (fd, frame (command ty 0))) (clients r), False)"
proof -
  have "writable (ws fd) \<and> target (ci_current c) = Some 0" if "(fd, c) \<in> set (clients r)" for fd c
    using assms that by (force simp: sizes_are_def)
  then show ?thesis using broadcast_writable [of "clients r" ws target "\<lambda>_. 0" ty "[]"] by simp
qed

lemma sent_to_all:
  "sent_to fd (map (\<lambda>(fd, c). (fd, frame m)) cs) = map frame (replicate (length (filter (\<lambda>p. fst p = fd) cs)) m)"
  by (induction cs) (auto simp: sent_to_def)

definition all_zero :: "(int \<times> u8 list) list \<Rightarrow> bool" where
  "all_zero out \<longleftrightarrow> (\<forall>fd. \<exists>ms. list_all zero_target ms \<and> sent_to fd out = map frame ms)"

lemma all_zero_commands: "all_zero (map (\<lambda>(fd, c). (fd, frame (command ty 0))) cs)"
  unfolding all_zero_def
proof (intro allI)
  fix fd
  show "\<exists>ms. list_all zero_target ms \<and> sent_to fd (map (\<lambda>(fd, c). (fd, frame (command ty 0))) cs) = map frame ms"
    unfolding sent_to_all by (rule exI, rule conjI [OF _ refl]) (simp add: list_all_iff)
qed

lemma all_zero_Nil: "all_zero []"
  using all_zero_commands [of _ "[]"] by simp

lemma samples_zero:
  assumes "default_engine (d_engine d)" and "zero_registry (d_registry d)"
    and "\<forall>p \<in> set (clients (d_registry d)). writable (ws (fst p))"
    and "on_psi_update ws data d = Some (tr, (out, b), d')"
  shows "all_zero out \<and> default_engine (d_engine d') \<and> d_registry d' = d_registry d"
  using assms(1)
proof (cases rule: sample_cases [where ws = ws and data = data])
  case (up f tr' e)
  with shrink_target_zero [of f] broadcast_zero [OF assms(2,3), of "shrink_target (Finite f)" SHRINK] assms(4)
  show ?thesis by (auto simp: broadcast_shrink_def all_zero_commands)
next
  case (down f tr' e)
  with target_zero [of "1 + f"] broadcast_zero [OF assms(2,3), of "grow_target (Finite f)" GROW] assms(4)
  show ?thesis by (auto simp: broadcast_grow_def grow_target_def all_zero_commands)
next
  case (same e)
  with assms(4) show ?thesis by (simp add: all_zero_Nil)
qed

lemma deliver_zero: "all_zero out \<Longrightarrow> zero_member m \<Longrightarrow> zero_member (m\<lparr>m_down := m_down m @ sent_to fd out\<rparr>)"
  unfolding all_zero_def zero_member_def by (auto dest!: spec [of _ fd] intro: streams_append)

lemma joins_zero:
  assumes "takes_frames ws" and "e \<noteq> 0"
    and "gcache_start pid (Established cfd []) ws (gcache_new cap e) = Done (c, g)"
  shows "zero_member \<lparr>m_cache = c, m_client = g, m_down = [], m_up = map snd (sent g), m_first = cap\<rparr>"
proof -
  from start_new_cache [OF assms(1), of pid cfd "[]" cap e] assms(3) have
    "c = \<lparr>gc_cache = lru_new cap, entry_bytes = e\<rparr>"
    "sent g = [(cfd, frame (message_default\<lparr>msg_type := REGISTER, msg_pid := pid, msg_current := 0\<rparr>))]"
    "shrink_callback g" by auto
  moreover have "lru_implements (lru_new cap :: (string, string) lru) (spec_new cap)" by (rule implements_new)
  moreover have "streams zero_size [frame (message_default\<lparr>msg_type := REGISTER, msg_pid := pid, msg_current := 0\<rparr>)]"
    using streams_frames [of zero_size "[message_default\<lparr>msg_type := REGISTER, msg_pid := pid, msg_current := 0\<rparr>]"] by simp
  moreover have "lru_capacity (lru_new cap :: (string, string) lru) = cap" by (simp add: lru_new_def)
  ultimately show ?thesis using assms(2) by (auto simp: zero_member_def)
qed

text \<open>The application's own use of its cache keeps the representation and the capacity.\<close>

lemma get_keeps:
  assumes "gcache_get k c = Some (r, c')" and "lru_implements (gc_cache c) v"
  shows "entry_bytes c' = entry_bytes c \<and> lru_capacity (gc_cache c') = lru_capacity (gc_cache c) \<and>
    (\<exists>v'. lru_implements (gc_cache c') v')"
proof -
  from lru_store.get_law [OF assms(2), of k] obtain l where
    "lru_get k (gc_cache c) = Some (fst (spec_get k v), l)" "lru_implements l (snd (spec_get k v))" by blast
  with assms implements_capacity [OF assms(2)] show ?thesis by (auto simp: gcache_get_def implements_capacity)
qed

lemma put_keeps:
  assumes "gcache_put k w c = Some c'" and "lru_implements (gc_cache c) v"
    and "unat (lru_size (gc_cache c)) + 1 < 2 ^ 64"
  shows "entry_bytes c' = entry_bytes c \<and> lru_capacity (gc_cache c') = lru_capacity (gc_cache c) \<and>
    (\<exists>v'. lru_implements (gc_cache c') v')"
proof -
  have "length (items (spec_put k w v)) \<le> Suc (length (items v))"
    using length_drop_key_le [of k "items v"] by (simp add: spec_put_def)
  then have "length (items (spec_put k w v)) < 2 ^ 64" using assms(3) implements_size [OF assms(2)] by linarith
  from lru_store.put_law [OF assms(2) this] obtain l where
    "lru_put k w (gc_cache c) = Some l" "lru_implements l (spec_put k w v)" by blast
  with assms implements_capacity [OF assms(2)] show ?thesis by (auto simp: gcache_put_def implements_capacity)
qed

lemma use_zero:
  assumes "zero_member m" and "entry_bytes c = entry_bytes (m_cache m)"
    and "lru_capacity (gc_cache c) = lru_capacity (gc_cache (m_cache m))" and "\<exists>v. lru_implements (gc_cache c) v"
  shows "zero_member (m\<lparr>m_cache := c\<rparr>)"
  using assms by (simp add: zero_member_def)


subsection \<open>The invariant\<close>

text \<open>A member that is replaced, and a registry that is.\<close>

lemma put_zero:
  "zero_system s \<Longrightarrow> zero_registry r \<Longrightarrow> (\<And>m'. m = Some m' \<Longrightarrow> zero_member m') \<Longrightarrow>
    zero_system (put_member fd m (with_registry r s))"
  by (auto simp: zero_system_def)

lemma put_same:
  "zero_system s \<Longrightarrow> zero_member m \<Longrightarrow> zero_system (put_member fd (Some m) s)"
  by (auto simp: zero_system_def)

lemma zero_system_parts:
  assumes "zero_system s"
  shows "zero_registry (sys_registry s)" "default_engine (d_engine (sys_daemon s))"
    "members s fd = Some m \<Longrightarrow> zero_member m"
  using assms by (simp_all add: zero_system_def)

lemma system_step_zero: "system_step s t \<Longrightarrow> zero_system s \<Longrightarrow> zero_system t"
proof (induction rule: system_step.induct)
  case (joins s fd ws e pid cfd cap c g r)
  then have "r = add_client fd (sys_registry s)" by simp
  with joins add_sizes joins_zero [OF joins(2-4)] show ?case
    by (intro put_zero) (auto simp: zero_system_def)
next
  case (hears s fd m r)
  have m: "zero_member m" using zero_system_parts(3) [OF hears.prems hears(1)] .
  then have "zero_registry r" using hears_zero [OF _ hears(2)] zero_system_parts(1) [OF hears.prems]
    by (auto simp: zero_member_def)
  with m show ?case using hears.prems by (intro put_zero) (auto simp: zero_member_def)
next
  case (samples ws data s tr out d)
  from samples_zero [OF zero_system_parts(2) _ _ samples(1)] samples(2,3) zero_system_parts(1) [OF samples(3)]
  have "all_zero out" "default_engine (d_engine d)" "d_registry d = sys_registry s"
    by (simp_all add: sys_registry_def)
  with samples.prems show ?case
    by (auto simp: zero_system_def deliver_all_def sys_registry_def intro: deliver_zero)
next
  case (obeys s fd m ws pid cb l cs)
  with obeys_zero [OF zero_system_parts(3) obeys(2,3)] have "zero_member (after_command l cs m)" by auto
  with obeys.prems show ?case by (rule put_same)
next
  case (reads s fd m k v c)
  then have m: "zero_member m" using zero_system_parts(3) by blast
  with get_keeps [OF reads(2)] have "zero_member (m\<lparr>m_cache := c\<rparr>)"
    by (intro use_zero) (auto simp: zero_member_def)
  with reads.prems show ?case by (rule put_same)
next
  case (writes s fd m k v c)
  then have m: "zero_member m" using zero_system_parts(3) by blast
  with put_keeps [OF writes(3) _ writes(2)] have "zero_member (m\<lparr>m_cache := c\<rparr>)"
    by (intro use_zero) (auto simp: zero_member_def)
  with writes.prems show ?case by (rule put_same)
next
  case (leaves s fd m r)
  then have "r = remove_client fd (sys_registry s)" by simp
  with leaves remove_sizes show ?case by (intro put_zero) (auto simp: zero_system_def)
qed

lemma default_daemon: "default_engine (d_engine (daemon_new default_config))"
  using default_engine_run [of "[]"]
  by (simp add: daemon_new_def default_config_def engine_new_def default_configs_def)

lemma start_clients: "registry_start env r = (x, r') \<Longrightarrow> clients r' = clients r"
  by (auto simp: registry_start_def close_fd_def Let_def split: option.splits if_splits)

lemma reachable_zero: "reachable_system env s \<Longrightarrow> zero_system s"
proof (induction rule: reachable_system.induct)
  case (starts d)
  then have "d_engine d = d_engine (daemon_new default_config)" "clients (d_registry d) = []"
    by (auto simp: daemon_start_def daemon_new_def registry_new_def dest: start_clients split: prod.splits option.splits)
  then show ?case using default_daemon by (simp add: zero_system_def sizes_are_def sys_registry_def)
qed (rule system_step_zero)

text \<open>A cache that is down stays down.\<close>

lemma system_step_down:
  assumes "system_step s t" and "zero_system s" and "members s fd = Some m" and "members t fd = Some m'"
    and "lru_capacity (gc_cache (m_cache m)) = 0"
  shows "lru_capacity (gc_cache (m_cache m')) = 0"
  using assms
proof (induction rule: system_step.induct)
  case (obeys s fd' n ws pid cb l cs)
  with obeys_zero [OF zero_system_parts(3) obeys(2,3)] show ?case by (auto split: if_splits)
next
  case (reads s fd' n k v c)
  moreover from reads obtain w where "lru_implements (gc_cache (m_cache n)) w"
    using zero_system_parts(3) by (force simp: zero_member_def)
  ultimately show ?case using get_keeps [OF reads(2)] by (auto split: if_splits)
next
  case (writes s fd' n k v c)
  moreover from writes obtain w where "lru_implements (gc_cache (m_cache n)) w"
    using zero_system_parts(3) by (force simp: zero_member_def)
  ultimately show ?case using put_keeps [OF writes(3) _ writes(2)] by (auto split: if_splits)
qed (auto simp: deliver_all_def split: if_splits)

lemma zero_total: "zero_registry r \<Longrightarrow> get_total_cache_size r = 0"
proof -
  have "foldl (\<lambda>total p. total + ci_current (snd p)) 0 cs = (0 :: u64)"
    if "\<forall>p \<in> set cs. ci_current (snd p) = 0" for cs :: "(int \<times> client_info) list"
    using that by (induction cs) auto
  then show "zero_registry r \<Longrightarrow> get_total_cache_size r = 0"
    by (simp add: sizes_are_def get_total_cache_size_def)
qed



subsection \<open>Witness\<close>

text \<open>A daemon that has started, and an application that has joined it and been heard.\<close>

lemma daemon_starts:
  "\<exists>d. daemon_start ok_env (daemon_new default_config) = (None, d) \<and> d_registry d = started_registry"
  using started by (simp add: daemon_start_def daemon_new_def)

lemma reachable_joins:
  assumes "reachable_system env s" and "members s fd = None" and "takes_frames ws" and "(e :: u64) \<noteq> 0"
  shows "\<exists>t m. reachable_system env t \<and> members t fd = Some m \<and> m_first m = cap \<and>
    d_engine (sys_daemon t) = d_engine (sys_daemon s)"
proof -
  obtain c g where g: "gcache_start 42 (Established 9 []) ws (gcache_new cap e) = Done (c, g)"
    using start_new_cache [OF assms(3)] by blast
  have "handle_new_connection [Accepted fd True, AcceptAgain] (sys_registry s) =
      Returned (add_client fd (sys_registry s))" by simp
  from reachable_system.moves [OF assms(1) joins [OF assms(2-4) g this]] obtain m where
    "reachable_system env (put_member fd (Some m) (with_registry (add_client fd (sys_registry s)) s))"
    "m_first m = cap" by simp
  then show ?thesis by (intro exI conjI) (assumption, simp, assumption, simp)
qed

lemma one_joins: "\<exists>s m. reachable_system ok_env s \<and> members s 5 = Some m \<and> m_first m = 4 \<and>
  d_engine (sys_daemon s) = engine_new default_configs"
proof -
  obtain d where d: "daemon_start ok_env (daemon_new default_config) = (None, d)" using daemon_starts by blast
  then have "d_engine d = engine_new default_configs"
    by (auto simp: daemon_start_def daemon_new_def default_config_def split: prod.splits option.splits)
  with reachable_joins [OF reachable_system.starts [OF d] _ one_write, of 5 256 4] show ?thesis by simp
qed


end
