(* ===== verification/Registry_Refine.thy ===== *)
theory Registry_Refine
  imports Client_Registry
begin

text \<open>
  What the registry promises its daemon: a table of the connected clients and of the size each
  has reported last. The events of the table are what clients do (join, say something, leave);
  a readiness event of epoll stands for some of them. Any run of the event loop is then the run of the
  table over the events it stood for, and the two observers read the table.
\<close>

type_synonym size_table = "int \<rightharpoonup> u64"

datatype client_event = Joins int | Says int message | Leaves int

fun table_step :: "client_event \<Rightarrow> size_table \<Rightarrow> size_table" where
  "table_step (Joins fd) t = t(fd \<mapsto> 0)"
| "table_step (Says fd msg) t =
     (if fd \<in> dom t \<and> msg_type msg \<in> {REGISTER, REPORT_SIZE} then t(fd \<mapsto> msg_current msg) else t)"
| "table_step (Leaves fd) t = t(fd := None)"

definition size_table :: "registry \<Rightarrow> size_table" where
  "size_table r = map_option ci_current \<circ> map_of (clients r)"

subsection \<open>What an event stands for\<close>

fun joined :: "accept_result list \<Rightarrow> int list" where
  "joined [] = []"
| "joined (Accepted fd True # xs) = fd # joined xs"
| "joined (_ # xs) = joined xs"

inductive event_means :: "int \<Rightarrow> epoll_event \<Rightarrow> client_event list \<Rightarrow> bool" for l where
  accepts: "ev_fd ev = l \<Longrightarrow> ev_accepts ev = xs @ AcceptAgain # ys \<Longrightarrow> AcceptAgain \<notin> set xs \<Longrightarrow>
    event_means l ev (map Joins (joined xs))"
| lost: "ev_fd ev \<noteq> l \<Longrightarrow> ev_err ev \<or> ev_hup ev \<or> \<not> ev_in ev \<Longrightarrow> event_means l ev [Leaves (ev_fd ev)]"
| speaks: "ev_fd ev \<noteq> l \<Longrightarrow> ev_in ev \<Longrightarrow> \<not> ev_err ev \<Longrightarrow> \<not> ev_hup ev \<Longrightarrow>
    carries ms cs \<Longrightarrow> no_empty cs \<Longrightarrow> ev_reads ev = map Bytes cs \<Longrightarrow>
    event_means l ev (map (Says (ev_fd ev)) ms)"
| ends: "ev_fd ev \<noteq> l \<Longrightarrow> ev_in ev \<Longrightarrow> \<not> ev_err ev \<Longrightarrow> \<not> ev_hup ev \<Longrightarrow>
    carries ms cs \<Longrightarrow> no_empty cs \<Longrightarrow> x \<in> {Eof, Fail} \<Longrightarrow> ev_reads ev = map Bytes cs @ [x] \<Longrightarrow>
    event_means l ev (map (Says (ev_fd ev)) ms @ [Leaves (ev_fd ev)])"

inductive batch_means :: "int \<Rightarrow> epoll_event list \<Rightarrow> client_event list \<Rightarrow> bool" for l where
  no_event: "batch_means l [] []"
| an_event: "event_means l ev as \<Longrightarrow> batch_means l evs bs \<Longrightarrow> batch_means l (ev # evs) (as @ bs)"

inductive run_means :: "int \<Rightarrow> wait_result list \<Rightarrow> client_event list \<Rightarrow> bool" for l where
  run_over: "run_means l [] []"
| woken: "batch_means l evs as \<Longrightarrow> run_means l ws bs \<Longrightarrow> run_means l (Woken evs # ws) (as @ bs)"
| interrupted: "run_means l ws bs \<Longrightarrow> run_means l (Interrupted # ws) bs"

subsection \<open>One operation at a time\<close>

lemma table_add: "size_table (add_client fd r) = table_step (Joins fd) (size_table r)"
  by (auto simp: size_table_def add_client_def update_conv' fun_eq_iff)

lemma table_remove: "size_table (remove_client fd r) = table_step (Leaves fd) (size_table r)"
  by (auto simp: size_table_def remove_client_def close_fd_def delete_conv' fun_eq_iff split: option.splits)

lemma table_apply: "size_table (apply_message fd m r) = table_step (Says fd m) (size_table r)"
  by (auto simp: size_table_def apply_message_lookup fun_eq_iff dom_def option.map_comp comp_def)

lemma table_log [simp]: "size_table (r\<lparr>close_log := fds\<rparr>) = size_table r"
  by (simp add: size_table_def)

lemma table_says: "size_table (fold (apply_message fd) ms r) = fold table_step (map (Says fd) ms) (size_table r)"
  by (induction ms arbitrary: r) (simp_all add: table_apply del: table_step.simps)

lemma accepts_refine:
  "AcceptAgain \<notin> set xs \<Longrightarrow> \<exists>r'. handle_new_connection (xs @ AcceptAgain # ys) r = Returned r' \<and>
    size_table r' = fold table_step (map Joins (joined xs)) (size_table r)"
proof (induction xs arbitrary: r)
  case (Cons x xs)
  then show ?case
  proof (cases x)
    case (Accepted fd ok)
    with Cons.IH [of "if ok then add_client fd r else r\<lparr>close_log := fd # close_log r\<rparr>"] Cons.prems
    show ?thesis by (cases ok) (simp_all add: table_add del: fun_upd_apply)
  qed auto
qed simp

lemma event_refines:
  assumes "event_means (listen_fd r) ev as"
  shows "\<exists>r'. handle_event ev r = Returned r' \<and> size_table r' = fold table_step as (size_table r)"
  using assms
proof cases
  case (accepts xs ys)
  with accepts_refine [of xs ys r] show ?thesis by (simp add: handle_event_def)
next
  case lost
  then show ?thesis by (simp add: handle_event_def table_remove del: table_step.simps)
next
  case (speaks ms cs)
  then show ?thesis by (simp add: handle_event_def reassemble table_says)
next
  case (ends ms cs x)
  then show ?thesis by (auto simp: handle_event_def reassemble_then table_says table_remove)
qed

lemma batch_refines:
  "batch_means l evs as \<Longrightarrow> listen_fd r = l \<Longrightarrow>
    \<exists>r'. handle_events evs r = Returned r' \<and> size_table r' = fold table_step as (size_table r) \<and> loop_ids r' = loop_ids r"
proof (induction arbitrary: r rule: batch_means.induct)
  case (an_event ev as evs bs)
  then obtain r1 where r1: "handle_event ev r = Returned r1" "size_table r1 = fold table_step as (size_table r)"
    using event_refines by blast
  have ids: "loop_ids r1 = loop_ids r" using ids.event_keeps [of r "loop_ids r" ev] r1(1) by simp
  with an_event obtain r2 where "handle_events evs r1 = Returned r2"
    "size_table r2 = fold table_step bs (size_table r1)" "loop_ids r2 = loop_ids r1"
    by (metis loop_ids_def prod.inject)
  with r1 ids show ?case by simp
qed simp

lemma run_refines:
  "run_means l ws as \<Longrightarrow> listen_fd r = l \<Longrightarrow> reg_running r \<Longrightarrow>
    \<exists>r'. run_event_loop ws r = Returned r' \<and> size_table r' = fold table_step as (size_table r)"
proof (induction arbitrary: r rule: run_means.induct)
  case (woken evs as ws bs)
  from batch_refines [OF woken(1,4)] obtain r1 where
    r1: "handle_events evs r = Returned r1" "size_table r1 = fold table_step as (size_table r)" "loop_ids r1 = loop_ids r"
    by blast
  with woken.prems have "listen_fd r1 = l" "reg_running r1" by (simp_all add: loop_ids_def)
  from woken.IH [OF this] r1 woken.prems show ?case by auto
qed simp_all

subsection \<open>The observers\<close>

lemma table_dom: "dom (size_table r) = fst ` set (clients r)"
  by (simp add: size_table_def dom_map_option_comp dom_map_of_conv_image_fst)

lemma table_count: "registry_ok r \<Longrightarrow> get_client_count r = card (dom (size_table r))"
  unfolding table_dom registry_ok_def get_client_count_def by (metis distinct_card length_map set_map)

lemma sum_sizes:
  "distinct (map fst cs) \<Longrightarrow> (\<Sum>p\<leftarrow>cs. ci_current (snd p)) = (\<Sum>fd \<in> fst ` set cs. ci_current (the (map_of cs fd)))"
proof (induction cs)
  case (Cons p cs)
  have "(\<Sum>fd \<in> fst ` set cs. ci_current (the (map_of (p # cs) fd))) = (\<Sum>fd \<in> fst ` set cs. ci_current (the (map_of cs fd)))"
    using Cons.prems by (intro sum.cong) (auto simp: image_iff)
  with Cons show ?case by simp
qed simp

lemma foldl_plus: "foldl (\<lambda>t p. t + f p) a xs = a + (\<Sum>p\<leftarrow>xs. f p)" for a :: "'a :: comm_monoid_add"
  by (induction xs arbitrary: a) (simp_all add: add.assoc)

lemma table_total: "registry_ok r \<Longrightarrow> get_total_cache_size r = (\<Sum>fd \<in> dom (size_table r). the (size_table r fd))"
proof -
  assume "registry_ok r"
  then have d: "distinct (map fst (clients r))" by (simp add: registry_ok_def)
  have "the (size_table r fd) = ci_current (the (map_of (clients r) fd))" if "fd \<in> fst ` set (clients r)" for fd
    using that by (cases "map_of (clients r) fd") (auto simp: size_table_def map_of_eq_None_iff)
  then show ?thesis unfolding table_dom by (simp add: get_total_cache_size_def foldl_plus sum_sizes [OF d])
qed



end
