(* ===== verification/System_Effect.thy ===== *)
theory System_Effect
  imports System Registry_Refine
begin

text \<open>
  What a rise of pressure comes to, from the sample in the daemon to the caches. The sample
  puts a SHRINK on the way to every connected cache (theory System); here the frame is followed until the cache
  has obeyed it, through any interleaving of steps of the daemon and of all the applications.
\<close>

subsection \<open>The daemon knows its members\<close>

text \<open>Every member has an entry in the table of the registry.\<close>

definition known :: "system \<Rightarrow> bool" where
  "known s \<longleftrightarrow> dom (members s) \<subseteq> dom (size_table (sys_registry s))"

lemma says_dom: "dom (fold table_step (map (Says fd) ms) t) = dom t"
  by (induction ms arbitrary: t) auto

lemma hears_table:
  assumes "streams P cs" and "handle_client_message fd (map Bytes cs) r = (Returned r', [])"
  shows "dom (size_table r') = dom (size_table r)"
proof -
  obtain ms where ms: "carries ms cs" "no_empty cs" using assms(1) by (auto simp: streams_def)
  then have "r' = fold (apply_message fd) ms r" using reassemble [OF ms, of fd r] assms(2) by simp
  then show ?thesis by (simp add: table_says says_dom)
qed

lemma system_step_known: "system_step s t \<Longrightarrow> zero_system s \<Longrightarrow> known s \<Longrightarrow> known t"
proof (induction rule: system_step.induct)
  case (joins s fd ws e pid cfd cap c g r)
  then have "r = add_client fd (sys_registry s)" by simp
  with joins.prems show ?case by (auto simp: known_def table_add)
next
  case (hears s fd m r)
  have "streams zero_size (m_up m)" using zero_system_parts(3) [OF hears.prems(1) hears(1)] by (simp add: zero_member_def)
  from hears_table [OF this hears(2)] hears.prems(2) hears(1) show ?case by (auto simp: known_def)
next
  case (samples ws data s tr out d)
  have "d_registry d = sys_registry s"
    using samples_zero [OF zero_system_parts(2) _ _ samples(1)] samples(2,3) zero_system_parts(1) [OF samples(3)]
    by (simp add: sys_registry_def)
  with samples.prems show ?case by (auto simp: known_def sys_registry_def deliver_all_def)
next
  case (leaves s fd m r)
  then have "r = remove_client fd (sys_registry s)" by simp
  with leaves.prems show ?case by (auto simp: known_def table_remove)
qed (auto simp: known_def)

lemma reachable_known: "reachable_system env s \<Longrightarrow> zero_system s \<and> known s"
proof (induction rule: reachable_system.induct)
  case (starts d)
  with reachable_zero [OF reachable_system.starts [OF starts]] show ?case by (simp add: known_def)
qed (blast intro: system_step_zero system_step_known)

subsection \<open>A SHRINK on its way\<close>

text \<open>The frames on the way to a member.\<close>

definition coming :: "message list \<Rightarrow> member \<Rightarrow> bool" where
  "coming ms m \<longleftrightarrow> carries ms (m_down m) \<and> no_empty (m_down m) \<and> list_all zero_target ms"

definition shrink_coming :: "member \<Rightarrow> bool" where
  "shrink_coming m \<longleftrightarrow> (\<exists>ms. coming ms m \<and> SHRINK \<in> msg_type ` set ms)"

text \<open>The cache is empty for good, or the frame that will empty it is on the way.\<close>

definition settled :: "member \<Rightarrow> bool" where
  "settled m \<longleftrightarrow> lru_capacity (gc_cache (m_cache m)) = 0 \<or> shrink_coming m"

lemma zero_coming: "zero_member m \<Longrightarrow> \<exists>ms. coming ms m"
  by (auto simp: zero_member_def streams_def coming_def)

lemma coming_append:
  "coming ms m \<Longrightarrow> list_all zero_target ms' \<Longrightarrow> coming (ms @ ms') (m\<lparr>m_down := m_down m @ map frame ms'\<rparr>)"
  using carries_append [of ms "m_down m" ms'] no_empty_frames [of ms'] by (simp add: coming_def)

lemma obeys_coming:
  assumes "zero_member m" and "coming (x # xs) m" and "takes_frames ws"
  shows "\<exists>cb l cs. listen_once (gcache_handler pid ws) (member_listener m) = Listened cb l \<and> input l = map Bytes cs \<and>
    coming xs (after_command l cs m) \<and> (msg_type x = SHRINK \<longrightarrow> lru_capacity (gc_cache (app l)) = 0)"
proof -
  have x: "carries (x # xs) (m_down m)" "no_empty (m_down m)" "zero_target x" "list_all zero_target xs"
    using assms(2) by (simp_all add: coming_def)
  obtain cs l where l: "listen_once (gcache_handler pid ws) (member_listener m) = Listened (process_message x (m_client m)) l"
    "input l = map Bytes cs" "carries xs cs" "no_empty cs"
    "process_message x (m_client m) = Some (OnShrink 0) \<longrightarrow> lru_capacity (gc_cache (app l)) = 0"
    by (rule obeys_first [OF assms(1,3) x(1-3), of pid])
  moreover have "process_message x (m_client m) = Some (OnShrink 0)" if "msg_type x = SHRINK"
    using that x(3) assms(1) by (simp add: process_message_def zero_member_def)
  ultimately show ?thesis using x(4)
    by (intro exI [of _ "process_message x (m_client m)"] exI [of _ l] exI [of _ cs])
      (simp add: coming_def after_command_def)
qed

lemma obeys_settled:
  assumes "zero_member m" and "shrink_coming m" and "takes_frames ws"
    and "listen_once (gcache_handler pid ws) (member_listener m) = Listened cb l" and "input l = map Bytes cs"
  shows "settled (after_command l cs m)"
proof -
  from assms(2) obtain ms where ms: "coming ms m" "SHRINK \<in> msg_type ` set ms" by (auto simp: shrink_coming_def)
  then obtain x xs where x: "ms = x # xs" by (cases ms) auto
  from obeys_coming [OF assms(1) ms(1) [unfolded x] assms(3), of pid] assms(4,5) have
    "coming xs (after_command l cs m)" "msg_type x = SHRINK \<longrightarrow> lru_capacity (gc_cache (app l)) = 0" by auto
  with ms(2) x show ?thesis by (auto simp: settled_def shrink_coming_def)
qed

text \<open>No step unsettles a member that stays.\<close>

lemma same_stream: "m_down m' = m_down m \<Longrightarrow> m_cache m' = m_cache m \<Longrightarrow> settled m' = settled m"
  by (simp add: settled_def shrink_coming_def coming_def)

lemma shrink_same_stream: "m_down m' = m_down m \<Longrightarrow> shrink_coming m \<Longrightarrow> settled m'"
  by (simp add: settled_def shrink_coming_def coming_def)

lemma settled_step:
  assumes "system_step s t" and "zero_system s" and "members s fd = Some m" and "members t fd = Some m'" and "settled m"
  shows "settled m'"
proof (cases "lru_capacity (gc_cache (m_cache m)) = 0")
  case True
  with system_step_down [OF assms(1-4)] show ?thesis by (simp add: settled_def)
next
  case False
  with assms(5) have c: "shrink_coming m" by (simp add: settled_def)
  from assms(1) show ?thesis
  proof cases
    case (samples ws data tr out d)
    have "all_zero out"
      using samples_zero [OF zero_system_parts(2) _ _ samples(2)] samples(3) assms(2) zero_system_parts(1)
      by (simp add: sys_registry_def)
    then obtain ms where ms: "list_all zero_target ms" "sent_to fd out = map frame ms" by (auto simp: all_zero_def)
    from c obtain xs where "coming xs m" "SHRINK \<in> msg_type ` set xs" by (auto simp: shrink_coming_def)
    with coming_append [OF _ ms(1)] ms(2) assms(3,4) samples(1) show ?thesis
      by (auto simp: deliver_all_def settled_def shrink_coming_def image_Un intro!: exI [of _ "xs @ ms"])
  next
    case (obeys fd' n ws pid cb l cs)
    with obeys_settled [OF zero_system_parts(3) [OF assms(2)]] assms(3-5) c show ?thesis by (auto split: if_splits)
  qed (use assms(3-5) c in \<open>auto intro: shrink_same_stream split: if_splits\<close>)
qed

text \<open>Runs in which a member stays.\<close>

definition stays_step :: "int \<Rightarrow> system \<Rightarrow> system \<Rightarrow> bool" where
  "stays_step fd s t \<longleftrightarrow> system_step s t \<and> fd \<in> dom (members t)"

lemma settled_run:
  assumes "(stays_step fd)\<^sup>*\<^sup>* s t" and "zero_system s" and "members s fd = Some m" and "settled m"
  shows "zero_system t \<and> (\<exists>m'. members t fd = Some m' \<and> settled m')"
  using assms(1)
proof (induction rule: rtranclp_induct)
  case base
  with assms(2-4) show ?case by blast
next
  case (step t u)
  then obtain m' m'' where "zero_system t" "members t fd = Some m'" "settled m'" "system_step t u" "members u fd = Some m''"
    by (auto simp: stays_step_def)
  with settled_step system_step_zero show ?case by blast
qed

text \<open>A listener that goes on reading gets to the frame.\<close>

lemma settled_drains:
  assumes "zero_system s" and "members s fd = Some m" and "coming ms m" and "SHRINK \<in> msg_type ` set ms"
  shows "\<exists>t m'. (stays_step fd)\<^sup>*\<^sup>* s t \<and> members t fd = Some m' \<and> lru_capacity (gc_cache (m_cache m')) = 0"
  using assms
proof (induction ms arbitrary: s m)
  case (Cons x xs)
  have ws: "takes_frames [Wrote 150]" by (simp add: takes_frames_def)
  from obeys_coming [OF zero_system_parts(3) [OF Cons.prems(1,2)] Cons.prems(3) ws, of 1] obtain cb l cs where
    l: "listen_once (gcache_handler 1 [Wrote 150]) (member_listener m) = Listened cb l" "input l = map Bytes cs"
      "coming xs (after_command l cs m)" "msg_type x = SHRINK \<longrightarrow> lru_capacity (gc_cache (app l)) = 0" by blast
  let ?t = "put_member fd (Some (after_command l cs m)) s"
  have st: "system_step s ?t" using Cons.prems(2) ws l(1,2) by (rule obeys)
  then have one: "(stays_step fd)\<^sup>*\<^sup>* s ?t" by (auto simp: stays_step_def)
  show ?case
  proof (cases "msg_type x = SHRINK")
    case True
    with one l(4) show ?thesis by (intro exI [of _ ?t] exI [of _ "after_command l cs m"]) simp
  next
    case False
    with Cons.prems(4) have "SHRINK \<in> msg_type ` set xs" by auto
    moreover have "members ?t fd = Some (after_command l cs m)" by simp
    ultimately obtain u m' where
      "(stays_step fd)\<^sup>*\<^sup>* ?t u" "members u fd = Some m'" "lru_capacity (gc_cache (m_cache m')) = 0"
      using Cons.IH [OF system_step_zero [OF st Cons.prems(1)] _ l(3)] by blast
    with rtranclp_trans [OF one] show ?thesis by blast
  qed
qed simp

subsection \<open>From the sample to the caches\<close>

lemma rise_sends:
  assumes "default_engine (d_engine d)" and "zero_registry (d_registry d)"
    and "\<forall>p \<in> set (clients (d_registry d)). writable (ws (fst p))" and "on_psi_update ws data d = Some (tr, (out, b), d')"
    and "tier_index (current_tier (d_engine d)) < tier_index (current_tier (d_engine d'))"
    and "fd \<in> dom (size_table (d_registry d))"
  shows "\<exists>ms. list_all zero_target ms \<and> SHRINK \<in> msg_type ` set ms \<and> sent_to fd out = map frame ms"
  using assms(1)
proof (cases rule: sample_cases [where ws = ws and data = data])
  case (up f tr' e)
  let ?n = "length (filter (\<lambda>p. fst p = fd) (clients (d_registry d)))"
  have "out = map (\<lambda>(fd, c). (fd, frame (command SHRINK 0))) (clients (d_registry d))"
    using up shrink_target_zero [of f] broadcast_zero [OF assms(2,3), of "shrink_target (Finite f)" SHRINK] assms(4)
    by (simp add: broadcast_shrink_def)
  then have "sent_to fd out = map frame (replicate ?n (command SHRINK 0))" by (simp only: sent_to_all)
  moreover have "0 < ?n" using assms(6) by (auto simp: table_dom filter_empty_conv)
  ultimately show ?thesis by (intro exI [of _ "replicate ?n (command SHRINK 0)"]) (auto simp: list_all_iff)
next
  case (down f tr' e)
  with assms(4,5) show ?thesis by auto
next
  case (same e)
  with assms(4,5) show ?thesis by simp
qed


subsection \<open>Witness\<close>

text \<open>A cache joins, and three samples at 50 percent move the tier up.\<close>

lemma sample_goes_on:
  assumes "default_engine (d_engine d)" and "zero_registry (d_registry d)"
    and "\<forall>p \<in> set (clients (d_registry d)). writable (ws (fst p))"
  shows "\<exists>tr out d'. on_psi_update ws data d = Some (tr, (out, False), d') \<and> d_engine d' = snd (step_total (d_engine d) data)"
proof -
  have "\<exists>tr out d'. on_psi_update ws data d = Some (tr, (out, False), d')"
    using assms(1)
  proof (cases rule: sample_cases [where ws = ws and data = data])
    case (up f tr d')
    with shrink_target_zero [of f] broadcast_zero [OF assms(2,3), of "shrink_target (Finite f)" SHRINK]
    show ?thesis by (simp add: broadcast_shrink_def)
  next
    case (down f tr d')
    with target_zero [of "1 + f"] broadcast_zero [OF assms(2,3), of "grow_target (Finite f)" GROW]
    show ?thesis by (simp add: broadcast_grow_def grow_target_def)
  qed blast
  moreover have "engine_ok (d_engine d)" using assms(1) by (simp add: default_engine_def)
  ultimately show ?thesis
    by (fastforce simp: on_psi_update_def evaluate_total Let_def case_prod_beta split: bind_splits)
qed

definition high_pressure :: psi_data where "high_pressure = sample (Finite 50) (Finite 0)"

lemma reachable_sample:
  assumes "reachable_system env s"
  shows "\<exists>t. reachable_system env t \<and> d_engine (sys_daemon t) = snd (step_total (d_engine (sys_daemon s)) high_pressure) \<and>
    dom (members t) = dom (members s)"
proof -
  have z: "zero_system s" using assms by (rule reachable_zero)
  have w: "writable [Wrote 200]" by (simp add: writable_def)
  obtain tr out d where d: "on_psi_update (\<lambda>_. [Wrote 200]) high_pressure (sys_daemon s) = Some (tr, (out, False), d)"
    "d_engine d = snd (step_total (d_engine (sys_daemon s)) high_pressure)"
    using sample_goes_on [OF zero_system_parts(2) [OF z] zero_system_parts(1) [OF z, unfolded sys_registry_def],
        of "\<lambda>_. [Wrote 200]"] w by blast
  have "system_step s (s\<lparr>sys_daemon := d, members := deliver_all out (members s)\<rparr>)"
    using samples [OF d(1)] w by simp
  from reachable_system.moves [OF assms this] d(2) show ?thesis
    by (intro exI conjI) (assumption, simp, auto simp: deliver_all_def)
qed


lemma third_sample_rises:
  defines "e \<equiv> snd (step_total (snd (step_total (engine_new default_configs) high_pressure)) high_pressure)"
  shows "tier_index (current_tier e) < tier_index (current_tier (snd (step_total e high_pressure)))"
  unfolding e_def high_pressure_def by code_simp


end
