(* ===== verification/Client_Threads.thy ===== *)
theory Client_Threads
  imports Governor_Client
begin

text \<open>
  The two threads of a \<open>GovernorClient\<close> around \<open>stop_listening\<close>: the listener goes round
  \<open>listener_loop\<close>, calling \<open>connect\<close> while it has no connection, and the owner runs
  \<open>stop_listening\<close>. They share \<open>listening_\<close>, \<open>connected_\<close>, \<open>sock_fd_\<close> and the descriptor
  table, with no lock. Here every statement that touches a shared variable is a step of its
  own and the scheduler picks which thread moves.

  What stands outside the code is in the choices of the steps: whether the daemon takes a
  connection (\<open>reach\<close>), and whether closing a descriptor wakes a thread that is blocked in
  \<open>read\<close> on it (\<open>wakes\<close>; the comment in \<open>stop_listening\<close> counts on it, the manual of \<open>close\<close>
  does not promise it). What the daemon sends is a separate relation, so that a state in which
  only the daemon can move is seen to be one.
\<close>

subsection \<open>Where the threads are\<close>

datatype loop_pc =
    AtTest
  | AtCheck
  | InConnect
  | InConnectCall
  | InConnectFailed
  | InConnectDone
  | AtRead
  | InRead int
  | AtLost
  | LoopExited

datatype stop_pc =
    StopTest
  | StopFlag
  | StopTake
  | StopClear
  | StopClose
  | StopMark
  | StopJoin
  | StopDone

record threads =
  th_client :: governor_client
  th_loop :: loop_pc
  th_stop :: stop_pc
  th_old :: int
  th_closed :: "int list"

definition close_socket :: "int \<Rightarrow> threads \<Rightarrow> threads" where
  "close_socket fd s = s\<lparr>th_client := (th_client s)\<lparr>open_fds := removeAll fd (open_fds (th_client s))\<rparr>,
     th_closed := fd # th_closed s\<rparr>"

abbreviation set_client :: "(governor_client \<Rightarrow> governor_client) \<Rightarrow> threads \<Rightarrow> threads" where
  "set_client f s \<equiv> s\<lparr>th_client := f (th_client s)\<rparr>"

subsection \<open>The listener\<close>

text \<open>One round: the test of the loop, the test of the connection, \<open>connect\<close> with its own test,
  the read, which blocks on the descriptor it was called with, and the two ways out of it. The sleep
  of the back-off touches nothing that is shared. A callback that fails to send its report clears
  \<open>connected_\<close>, which is what the way out over \<open>AtLost\<close> does.\<close>

inductive loop_step :: "bool \<Rightarrow> bool \<Rightarrow> threads \<Rightarrow> threads \<Rightarrow> bool" for wakes reach where
  test_on: "th_loop s = AtTest \<Longrightarrow> listening (th_client s) \<Longrightarrow>
    loop_step wakes reach s (s\<lparr>th_loop := AtCheck\<rparr>)"
| test_off: "th_loop s = AtTest \<Longrightarrow> \<not> listening (th_client s) \<Longrightarrow>
    loop_step wakes reach s (s\<lparr>th_loop := LoopExited\<rparr>)"
| check_on: "th_loop s = AtCheck \<Longrightarrow> connected (th_client s) \<Longrightarrow>
    loop_step wakes reach s (s\<lparr>th_loop := AtRead\<rparr>)"
| check_off: "th_loop s = AtCheck \<Longrightarrow> \<not> connected (th_client s) \<Longrightarrow>
    loop_step wakes reach s (s\<lparr>th_loop := InConnect\<rparr>)"
| connect_has: "th_loop s = InConnect \<Longrightarrow> connected (th_client s) \<Longrightarrow>
    loop_step wakes reach s (s\<lparr>th_loop := AtRead\<rparr>)"
| connect_socket: "th_loop s = InConnect \<Longrightarrow> \<not> connected (th_client s) \<Longrightarrow>
    0 \<le> fd \<Longrightarrow> fd \<notin> set (open_fds (th_client s)) \<Longrightarrow>
    loop_step wakes reach s (set_client (\<lambda>g. g\<lparr>sock_fd := fd, open_fds := fd # open_fds g\<rparr>) (s\<lparr>th_loop := InConnectCall\<rparr>))"
| connect_no_socket: "th_loop s = InConnect \<Longrightarrow> \<not> connected (th_client s) \<Longrightarrow>
    loop_step wakes reach s (set_client (\<lambda>g. g\<lparr>sock_fd := - 1\<rparr>) (s\<lparr>th_loop := AtTest\<rparr>))"
| connect_accepted: "th_loop s = InConnectCall \<Longrightarrow> reach \<Longrightarrow> sock_fd (th_client s) \<in> set (open_fds (th_client s)) \<Longrightarrow>
    loop_step wakes reach s (s\<lparr>th_loop := InConnectDone\<rparr>)"
| connect_refused: "th_loop s = InConnectCall \<Longrightarrow>
    loop_step wakes reach s (close_socket (sock_fd (th_client s)) (s\<lparr>th_loop := InConnectFailed\<rparr>))"
| connect_failed: "th_loop s = InConnectFailed \<Longrightarrow>
    loop_step wakes reach s (set_client (\<lambda>g. g\<lparr>sock_fd := - 1\<rparr>) (s\<lparr>th_loop := AtTest\<rparr>))"
| connect_done: "th_loop s = InConnectDone \<Longrightarrow>
    loop_step wakes reach s (set_client (\<lambda>g. g\<lparr>connected := True\<rparr>) (s\<lparr>th_loop := AtRead\<rparr>))"
| read_call: "th_loop s = AtRead \<Longrightarrow>
    loop_step wakes reach s (s\<lparr>th_loop := InRead (sock_fd (th_client s))\<rparr>)"
| read_bad: "th_loop s = InRead fd \<Longrightarrow> wakes \<or> fd = - 1 \<Longrightarrow> fd \<notin> set (open_fds (th_client s)) \<Longrightarrow>
    loop_step wakes reach s (s\<lparr>th_loop := AtLost\<rparr>)"
| read_lost: "th_loop s = AtLost \<Longrightarrow>
    loop_step wakes reach s (set_client (\<lambda>g. g\<lparr>connected := False\<rparr>) (s\<lparr>th_loop := AtTest\<rparr>))"

text \<open>What the daemon does: a whole frame arrives and is dispatched, or the connection ends.\<close>

inductive daemon_step :: "threads \<Rightarrow> threads \<Rightarrow> bool" where
  message: "th_loop s = InRead fd \<Longrightarrow> fd \<in> set (open_fds (th_client s)) \<Longrightarrow> daemon_step s (s\<lparr>th_loop := AtTest\<rparr>)"
| hang_up: "th_loop s = InRead fd \<Longrightarrow> fd \<in> set (open_fds (th_client s)) \<Longrightarrow> daemon_step s (s\<lparr>th_loop := AtLost\<rparr>)"

subsection \<open>The owner\<close>

inductive stop_step :: "threads \<Rightarrow> threads \<Rightarrow> bool" where
  stop_idle: "th_stop s = StopTest \<Longrightarrow> \<not> listening (th_client s) \<Longrightarrow> stop_step s (s\<lparr>th_stop := StopDone\<rparr>)"
| stop_begin: "th_stop s = StopTest \<Longrightarrow> listening (th_client s) \<Longrightarrow> stop_step s (s\<lparr>th_stop := StopFlag\<rparr>)"
| stop_flag: "th_stop s = StopFlag \<Longrightarrow>
    stop_step s (set_client (\<lambda>g. g\<lparr>listening := False\<rparr>) (s\<lparr>th_stop := StopTake\<rparr>))"
| stop_take: "th_stop s = StopTake \<Longrightarrow> stop_step s (s\<lparr>th_stop := StopClear, th_old := sock_fd (th_client s)\<rparr>)"
| stop_clear: "th_stop s = StopClear \<Longrightarrow>
    stop_step s (set_client (\<lambda>g. g\<lparr>sock_fd := - 1\<rparr>) (s\<lparr>th_stop := StopClose\<rparr>))"
| stop_close: "th_stop s = StopClose \<Longrightarrow>
    stop_step s ((if th_old s \<noteq> - 1 then close_socket (th_old s) else id) (s\<lparr>th_stop := StopMark\<rparr>))"
| stop_mark: "th_stop s = StopMark \<Longrightarrow>
    stop_step s (set_client (\<lambda>g. g\<lparr>connected := False\<rparr>) (s\<lparr>th_stop := StopJoin\<rparr>))"
| stop_join: "th_stop s = StopJoin \<Longrightarrow> th_loop s = LoopExited \<Longrightarrow> stop_step s (s\<lparr>th_stop := StopDone\<rparr>)"

text \<open>A step of either thread; a run; and a run in which the daemon acts too.\<close>

definition thread_step :: "bool \<Rightarrow> bool \<Rightarrow> threads \<Rightarrow> threads \<Rightarrow> bool" where
  "thread_step wakes reach s t \<longleftrightarrow> loop_step wakes reach s t \<or> stop_step s t"

definition any_step :: "bool \<Rightarrow> bool \<Rightarrow> threads \<Rightarrow> threads \<Rightarrow> bool" where
  "any_step wakes reach s t \<longleftrightarrow> thread_step wakes reach s t \<or> daemon_step s t"

text \<open>A session: the listener is at the head of its loop, connected or not, when the owner calls.\<close>

definition session :: "governor_client \<Rightarrow> threads" where
  "session g = \<lparr>th_client = g, th_loop = AtTest, th_stop = StopTest, th_old = - 1, th_closed = []\<rparr>"

inductive_cases loop_stepE: "loop_step wakes reach s t"
inductive_cases stop_stepE: "stop_step s t"
inductive_cases daemon_stepE: "daemon_step s t"

lemma close_socket_select [simp]:
  "th_loop (close_socket fd s) = th_loop s" "th_stop (close_socket fd s) = th_stop s"
  "th_old (close_socket fd s) = th_old s" "th_closed (close_socket fd s) = fd # th_closed s"
  "th_client (close_socket fd s) = (th_client s)\<lparr>open_fds := removeAll fd (open_fds (th_client s))\<rparr>"
  by (simp_all add: close_socket_def)

lemma thread_steps:
  "loop_step wakes reach s t \<Longrightarrow> thread_step wakes reach s t"
  "stop_step s t \<Longrightarrow> thread_step wakes reach s t"
  by (simp_all add: thread_step_def)

subsection \<open>The owner alone\<close>

text \<open>Run without interference, the steps of the owner are \<open>stop_listening\<close>, up to the join.\<close>

lemma stop_alone:
  assumes "th_stop s = StopTest" and "listening (th_client s)"
  shows "\<exists>t. stop_step\<^sup>*\<^sup>* s t \<and> th_stop t = StopJoin \<and> th_loop t = th_loop s \<and>
    th_client t = stop_listening (th_client s)"
proof -
  let ?g = "th_client s"
  let ?s1 = "s\<lparr>th_stop := StopFlag\<rparr>"
  let ?s2 = "set_client (\<lambda>g. g\<lparr>listening := False\<rparr>) (?s1\<lparr>th_stop := StopTake\<rparr>)"
  let ?s3 = "?s2\<lparr>th_stop := StopClear, th_old := sock_fd (th_client ?s2)\<rparr>"
  let ?s4 = "set_client (\<lambda>g. g\<lparr>sock_fd := - 1\<rparr>) (?s3\<lparr>th_stop := StopClose\<rparr>)"
  let ?s5 = "(if th_old ?s4 \<noteq> - 1 then close_socket (th_old ?s4) else id) (?s4\<lparr>th_stop := StopMark\<rparr>)"
  let ?s6 = "set_client (\<lambda>g. g\<lparr>connected := False\<rparr>) (?s5\<lparr>th_stop := StopJoin\<rparr>)"
  have "stop_step s ?s1" using assms by (rule stop_begin)
  moreover have "stop_step ?s1 ?s2" by (rule stop_flag) simp
  moreover have "stop_step ?s2 ?s3" by (rule stop_take) simp
  moreover have "stop_step ?s3 ?s4" by (rule stop_clear) simp
  moreover have "stop_step ?s4 ?s5" by (rule stop_close) simp
  moreover have "stop_step ?s5 ?s6" by (rule stop_mark) simp
  ultimately have "stop_step\<^sup>*\<^sup>* s ?s6" by (meson converse_rtranclp_into_rtranclp rtranclp.rtrancl_refl)
  moreover have "th_client ?s6 = stop_listening ?g" using assms(2) by (simp add: stop_listening_def)
  ultimately show ?thesis by (intro exI [of _ ?s6]) simp
qed

subsection \<open>Interference\<close>

lemma run_alone: "stop_step\<^sup>*\<^sup>* s t \<Longrightarrow> (thread_step wakes reach)\<^sup>*\<^sup>* s t"
  by (rule rtranclp_mono [THEN predicate2D]) (auto intro: thread_steps)

lemma run_step: "thread_step wakes reach s t \<Longrightarrow> (thread_step wakes reach)\<^sup>*\<^sup>* t u \<Longrightarrow> (thread_step wakes reach)\<^sup>*\<^sup>* s u"
  by (rule converse_rtranclp_into_rtranclp)

lemmas run_loop = run_step [OF thread_steps(1)]
lemmas run_stop = run_step [OF thread_steps(2)]

lemma session_select [simp]:
  "th_client (session g) = g" "th_loop (session g) = AtTest" "th_stop (session g) = StopTest"
  "th_old (session g) = - 1" "th_closed (session g) = []"
  by (simp_all add: session_def)

text \<open>C33: Stopping the listener may hang. When the listener has passed the test of its loop as the owner enters
  \<open>stop_listening\<close>, it finds the connection gone, opens a new one, and blocks in \<open>read\<close> on it; the owner
  has closed the old descriptor only and waits in \<open>join\<close>. Neither thread can move again, even if
  closing a descriptor wakes its readers: the application hangs until the daemon sends something or ends.\<close>

theorem stop_may_hang:
  assumes "listening g" and "0 \<le> fd" and "fd \<notin> set (open_fds g)"
  shows "\<exists>s. (thread_step wakes True)\<^sup>*\<^sup>* (session g) s \<and> th_stop s = StopJoin \<and> th_loop s = InRead fd \<and>
    \<not> listening (th_client s) \<and> (\<forall>t. \<not> thread_step wakes True s t)"
proof -
  let ?s1 = "(session g)\<lparr>th_loop := AtCheck\<rparr>"
  have 1: "loop_step wakes True (session g) ?s1" using assms(1) by (intro test_on) simp_all
  obtain s2 where s2: "stop_step\<^sup>*\<^sup>* ?s1 s2" "th_stop s2 = StopJoin" "th_loop s2 = AtCheck" "th_client s2 = stop_listening g"
    using stop_alone [of ?s1] assms(1) by auto
  have off: "\<not> connected (th_client s2)" "\<not> listening (th_client s2)" "fd \<notin> set (open_fds (th_client s2))"
    using assms s2(4) by (auto simp: stop_listening_def)
  let ?s3 = "s2\<lparr>th_loop := InConnect\<rparr>"
  let ?s4 = "set_client (\<lambda>g. g\<lparr>sock_fd := fd, open_fds := fd # open_fds g\<rparr>) (?s3\<lparr>th_loop := InConnectCall\<rparr>)"
  let ?s5 = "?s4\<lparr>th_loop := InConnectDone\<rparr>"
  let ?s6 = "set_client (\<lambda>g. g\<lparr>connected := True\<rparr>) (?s5\<lparr>th_loop := AtRead\<rparr>)"
  let ?s7 = "?s6\<lparr>th_loop := InRead (sock_fd (th_client ?s6))\<rparr>"
  have "loop_step wakes True s2 ?s3" using s2(3) off(1) by (rule check_off)
  moreover have "loop_step wakes True ?s3 ?s4" using off assms(2) by (intro connect_socket) simp_all
  moreover have "loop_step wakes True ?s4 ?s5" by (rule connect_accepted) simp_all
  moreover have "loop_step wakes True ?s5 ?s6" by (rule connect_done) simp
  moreover have "loop_step wakes True ?s6 ?s7" by (rule read_call) simp
  ultimately have "(thread_step wakes True)\<^sup>*\<^sup>* s2 ?s7" by (meson run_loop rtranclp.rtrancl_refl)
  then have "(thread_step wakes True)\<^sup>*\<^sup>* (session g) ?s7"
    using run_loop [OF 1] run_alone [OF s2(1)] by (meson rtranclp_trans)
  moreover have "\<not> thread_step wakes True ?s7 t" for t
    using s2(2) assms(2) by (auto simp: thread_step_def elim!: loop_stepE stop_stepE)
  ultimately show ?thesis using s2(2) off(2) by (intro exI [of _ ?s7]) simp
qed

text \<open>C34: A descriptor may be closed twice. When the daemon refuses the connection that the listener is opening,
  \<open>connect\<close> closes its descriptor; an owner that has read \<open>sock_fd_\<close> before that closes it again, by then
  perhaps a descriptor that another part of the application has been given.\<close>

theorem stop_closes_twice:
  assumes "listening g" and "\<not> connected g" and "0 \<le> fd" and "fd \<notin> set (open_fds g)"
  shows "\<exists>s. (thread_step wakes reach)\<^sup>*\<^sup>* (session g) s \<and> th_closed s = [fd, fd]"
proof -
  let ?s1 = "(session g)\<lparr>th_loop := AtCheck\<rparr>" let ?s2 = "?s1\<lparr>th_loop := InConnect\<rparr>"
  let ?s3 = "set_client (\<lambda>g. g\<lparr>sock_fd := fd, open_fds := fd # open_fds g\<rparr>) (?s2\<lparr>th_loop := InConnectCall\<rparr>)"
  let ?s4 = "?s3\<lparr>th_stop := StopFlag\<rparr>"
  let ?s5 = "set_client (\<lambda>g. g\<lparr>listening := False\<rparr>) (?s4\<lparr>th_stop := StopTake\<rparr>)"
  let ?s6 = "?s5\<lparr>th_stop := StopClear, th_old := sock_fd (th_client ?s5)\<rparr>"
  let ?s7 = "close_socket (sock_fd (th_client ?s6)) (?s6\<lparr>th_loop := InConnectFailed\<rparr>)"
  let ?s8 = "set_client (\<lambda>g. g\<lparr>sock_fd := - 1\<rparr>) (?s7\<lparr>th_stop := StopClose\<rparr>)"
  let ?s9 = "(if th_old ?s8 \<noteq> - 1 then close_socket (th_old ?s8) else id) (?s8\<lparr>th_stop := StopMark\<rparr>)"
  have "loop_step wakes reach (session g) ?s1" using assms(1) by (intro test_on) simp_all
  moreover have "loop_step wakes reach ?s1 ?s2" using assms(2) by (intro check_off) simp_all
  moreover have "loop_step wakes reach ?s2 ?s3" using assms by (intro connect_socket) simp_all
  moreover have "stop_step ?s3 ?s4" using assms(1) by (intro stop_begin) simp_all
  moreover have "stop_step ?s4 ?s5" by (rule stop_flag) simp
  moreover have "stop_step ?s5 ?s6" by (rule stop_take) simp
  moreover have "loop_step wakes reach ?s6 ?s7" by (rule connect_refused) simp
  moreover have "stop_step ?s7 ?s8" by (rule stop_clear) simp
  moreover have "stop_step ?s8 ?s9" by (rule stop_close) simp
  ultimately have "(thread_step wakes reach)\<^sup>*\<^sup>* (session g) ?s9"
    by (meson run_loop run_stop rtranclp.rtrancl_refl)
  then show ?thesis using assms(3) by (intro exI [of _ ?s9]) simp
qed

subsection \<open>Stopping while the daemon is away\<close>

text \<open>What holds between the threads while no connection succeeds: a listener that is about to read, or blocked
  in \<open>read\<close>, uses the descriptor that the owner has taken, closes, and has closed.\<close>

definition reads_taken :: "threads \<Rightarrow> int \<Rightarrow> bool" where
  "reads_taken s fd \<longleftrightarrow> (case th_stop s of
     StopTest \<Rightarrow> fd = sock_fd (th_client s)
   | StopFlag \<Rightarrow> fd = sock_fd (th_client s)
   | StopTake \<Rightarrow> fd = sock_fd (th_client s)
   | StopClear \<Rightarrow> fd = th_old s
   | StopClose \<Rightarrow> fd = th_old s \<or> fd \<notin> set (open_fds (th_client s))
   | StopDone \<Rightarrow> True
   | _ \<Rightarrow> fd \<notin> set (open_fds (th_client s)))"

definition in_step :: "threads \<Rightarrow> bool" where
  "in_step s \<longleftrightarrow> - 1 \<notin> set (open_fds (th_client s)) \<and> th_loop s \<noteq> InConnectDone \<and>
     (th_loop s \<in> {InConnect, InConnectCall, InConnectFailed} \<longrightarrow> \<not> connected (th_client s)) \<and>
     (connected (th_client s) \<or> th_loop s = AtRead \<longrightarrow>
       (th_stop s = StopClear \<longrightarrow> sock_fd (th_client s) = th_old s) \<and>
       (th_stop s \<in> {StopClose, StopMark, StopJoin} \<longrightarrow> sock_fd (th_client s) = - 1)) \<and>
     (\<forall>fd. th_loop s = InRead fd \<longrightarrow> reads_taken s fd) \<and>
     (th_stop s \<notin> {StopTest, StopFlag} \<longrightarrow> \<not> listening (th_client s))"

lemma loop_step_in_step: "loop_step wakes False s t \<Longrightarrow> in_step s \<Longrightarrow> in_step t"
  by (erule loop_stepE; cases "th_stop s"; force simp: in_step_def reads_taken_def)

lemma daemon_step_in_step: "daemon_step s t \<Longrightarrow> in_step s \<Longrightarrow> in_step t"
  by (erule daemon_stepE; simp add: in_step_def)

lemma stop_step_in_step: "stop_step s t \<Longrightarrow> in_step s \<Longrightarrow> in_step t"
  by (erule stop_stepE; force simp: in_step_def reads_taken_def)

lemma any_step_in_step:
  assumes "(any_step wakes False)\<^sup>*\<^sup>* s t" and "in_step s"
  shows "in_step t"
  using assms by (induction rule: rtranclp_induct)
    (auto simp: any_step_def thread_step_def intro: loop_step_in_step stop_step_in_step daemon_step_in_step)

lemma session_in_step: "- 1 \<notin> set (open_fds g) \<Longrightarrow> in_step (session g)"
  by (simp add: in_step_def)

fun loop_work :: "loop_pc \<Rightarrow> nat" where
  "loop_work AtCheck = 8"
| "loop_work InConnect = 7"
| "loop_work InConnectCall = 6"
| "loop_work InConnectDone = 5"
| "loop_work AtRead = 4"
| "loop_work (InRead fd) = 3"
| "loop_work InConnectFailed = 2"
| "loop_work AtLost = 2"
| "loop_work AtTest = 1"
| "loop_work LoopExited = 0"

fun stop_work :: "stop_pc \<Rightarrow> nat" where
  "stop_work StopTest = 7"
| "stop_work StopFlag = 6"
| "stop_work StopTake = 5"
| "stop_work StopClear = 4"
| "stop_work StopClose = 3"
| "stop_work StopMark = 2"
| "stop_work StopJoin = 1"
| "stop_work StopDone = 0"

definition work_left :: "threads \<Rightarrow> nat" where
  "work_left s = loop_work (th_loop s) + stop_work (th_stop s)"

text \<open>Once the flag is down every step of either thread leaves less to do, and the flag stays down.\<close>

lemma thread_step_work:
  assumes "thread_step wakes reach s t" and "\<not> listening (th_client s)"
  shows "work_left t < work_left s \<and> \<not> listening (th_client t)"
  using assms(1) unfolding thread_step_def
proof
  assume "loop_step wakes reach s t"
  then show ?thesis using assms(2) by (elim loop_stepE) (simp_all add: work_left_def)
next
  assume "stop_step s t"
  then show ?thesis using assms(2) by (elim stop_stepE) (simp_all add: work_left_def)
qed

lemma thread_steps_bounded:
  "(thread_step wakes reach ^^ n) s t \<Longrightarrow> \<not> listening (th_client s) \<Longrightarrow> n + work_left t \<le> work_left s"
proof (induction n arbitrary: s)
  case (Suc n)
  from Suc.prems(1) obtain u where u: "thread_step wakes reach s u" "(thread_step wakes reach ^^ n) u t"
    by (metis relpowp_Suc_D2)
  from thread_step_work [OF u(1) Suc.prems(2)] Suc.IH [OF u(2)] show ?case by linarith
qed simp

text \<open>No deadlock: with no connection to be had, one of the threads can always move.\<close>

lemma stop_can_move: "th_stop s \<notin> {StopJoin, StopDone} \<Longrightarrow> \<exists>t. stop_step s t"
  using stop_idle [of s] stop_begin [of s] stop_flag [of s] stop_take [of s] stop_clear [of s] stop_close [of s]
    stop_mark [of s]
  by (cases "th_stop s") blast+

lemma loop_can_move:
  "th_loop s \<in> {AtTest, AtCheck, InConnectCall, InConnectFailed, InConnectDone, AtRead, AtLost} \<Longrightarrow>
   \<exists>t. loop_step wakes reach s t"
  using test_on [of s] test_off [of s] check_on [of s] check_off [of s] connect_refused [of s] connect_failed [of s]
    connect_done [of s] read_call [of s] read_lost [of s]
  by (cases "th_loop s") blast+

lemma in_step_progress:
  assumes "in_step s" and "th_stop s \<noteq> StopDone"
  shows "\<exists>t. thread_step True False s t"
proof (cases "th_stop s = StopJoin")
  case False
  then show ?thesis using assms(2) stop_can_move [of s] thread_steps(2) by blast
next
  case join: True
  consider fd where "th_loop s = InRead fd" | "th_loop s = InConnect" | "th_loop s = LoopExited"
    | "th_loop s \<in> {AtTest, AtCheck, InConnectCall, InConnectFailed, InConnectDone, AtRead, AtLost}"
    by (cases "th_loop s") auto
  then show ?thesis
  proof cases
    case (1 fd)
    with assms(1) join have "fd \<notin> set (open_fds (th_client s))" by (simp add: in_step_def reads_taken_def)
    with 1 read_bad [of s fd True] show ?thesis using thread_steps(1) by blast
  next
    case 2
    with assms(1) have "\<not> connected (th_client s)" by (simp add: in_step_def)
    with 2 connect_no_socket [of s] show ?thesis using thread_steps(1) by blast
  next
    case 3
    with stop_join [OF join] thread_steps(2) show ?thesis by blast
  next
    case 4
    with loop_can_move [of s] thread_steps(1) show ?thesis by blast
  qed
qed

lemma stop_completes:
  "in_step s \<Longrightarrow> \<not> listening (th_client s) \<Longrightarrow> \<exists>t. (thread_step True False)\<^sup>*\<^sup>* s t \<and> th_stop t = StopDone"
proof (induction "work_left s" arbitrary: s rule: less_induct)
  case less
  show ?case
  proof (cases "th_stop s = StopDone")
    case False
    from in_step_progress [OF less.prems(1) this] obtain u where u: "thread_step True False s u" ..
    then have "in_step u" using less.prems(1)
      by (auto simp: thread_step_def intro: loop_step_in_step stop_step_in_step)
    with less.hyps [of u] thread_step_work [OF u less.prems(2)] obtain t where
      "(thread_step True False)\<^sup>*\<^sup>* u t" "th_stop t = StopDone" by blast
    with run_step [OF u] show ?thesis by blast
  qed auto
qed

lemma stop_reaches_flag:
  assumes "in_step s" and "listening (th_client s)"
  shows "\<exists>t. (thread_step True False)\<^sup>*\<^sup>* s t \<and> in_step t \<and> \<not> listening (th_client t)"
proof -
  have "\<exists>t. (thread_step True False)\<^sup>*\<^sup>* u t \<and> in_step t \<and> \<not> listening (th_client t)"
    if "th_stop u = StopFlag" "in_step u" for u
  proof -
    have f: "stop_step u (set_client (\<lambda>g. g\<lparr>listening := False\<rparr>) (u\<lparr>th_stop := StopTake\<rparr>))"
      using that(1) by (rule stop_flag)
    from run_stop [OF f rtranclp.rtrancl_refl] stop_step_in_step [OF f that(2)] show ?thesis
      by (intro exI [of _ "set_client (\<lambda>g. g\<lparr>listening := False\<rparr>) (u\<lparr>th_stop := StopTake\<rparr>)"]) simp
  qed
  note flag = this
  from assms have "th_stop s = StopTest \<or> th_stop s = StopFlag" by (auto simp: in_step_def)
  then show ?thesis
  proof
    assume "th_stop s = StopTest"
    then have b: "stop_step s (s\<lparr>th_stop := StopFlag\<rparr>)" using assms(2) by (rule stop_begin)
    from flag [OF _ stop_step_in_step [OF b assms(1)]] obtain t where
      "(thread_step True False)\<^sup>*\<^sup>* (s\<lparr>th_stop := StopFlag\<rparr>) t" "in_step t" "\<not> listening (th_client t)" by auto
    with run_stop [OF b] show ?thesis by blast
  next
    assume "th_stop s = StopFlag"
    with flag assms(1) show ?thesis by blast
  qed
qed


subsection \<open>Witnesses\<close>

definition open_client :: governor_client where
  "open_client = start_listening (snd (client_connect (Established 7 []) client_new))"

lemma open_client_select [simp]:
  "listening open_client" "connected open_client" "open_fds open_client = [7]" "sock_fd open_client = 7"
  by (simp_all add: open_client_def start_listening_def client_connect_def client_new_def)

theorem stop_may_hang_witness:
  "\<exists>s. (thread_step True True)\<^sup>*\<^sup>* (session open_client) s \<and> th_stop s = StopJoin \<and> th_loop s = InRead 8 \<and>
    (\<forall>t. \<not> thread_step True True s t)"
  using stop_may_hang [of open_client 8 True] by auto

theorem stop_closes_twice_witness:
  "\<exists>s. (thread_step True False)\<^sup>*\<^sup>* (session (start_listening client_new)) s \<and> th_closed s = [7, 7]"
  by (rule stop_closes_twice) (simp_all add: start_listening_def client_new_def)


end
