(* ===== verification/Daemon_Main.thy ===== *)
theory Daemon_Main
  imports Governor_Daemon
begin

text \<open>
  \<open>src/governor/main.cpp\<close>: the command line of the daemon and its life from start to the
  signal. The arguments are those after the program name. Between the start and the signal the
  poller's thread polls and the registry's thread wakes up, in an order that is an input.
\<close>

text \<open>How a command line ends: the program runs, it prints its help, it refuses the arguments
  with an exit code, or an exception that nothing catches ends the process.\<close>

datatype 'c cli = Run 'c | ShowHelp | Refused_args int | Uncaught cpp_exception

function daemon_args :: "string list \<Rightarrow> daemon_config \<times> string \<Rightarrow> (daemon_config \<times> string) cli" where
  "daemon_args [] c = Run c"
| "daemon_args (arg # rest) (cfg, log_level) =
     (if arg = ''--psi-path'' \<and> rest \<noteq> []
      then daemon_args (tl rest) (cfg\<lparr>psi_path := hd rest\<rparr>, log_level)
      else if arg = ''--socket-path'' \<and> rest \<noteq> []
      then daemon_args (tl rest) (cfg\<lparr>socket_path := hd rest\<rparr>, log_level)
      else if arg = ''--poll-interval'' \<and> rest \<noteq> []
      then (case stoi (hd rest) of Inl e \<Rightarrow> Uncaught e
            | Inr i \<Rightarrow> daemon_args (tl rest) (cfg\<lparr>poll_interval_ms := i\<rparr>, log_level))
      else if arg = ''--log-level'' \<and> rest \<noteq> []
      then daemon_args (tl rest) (cfg, hd rest)
      else if arg = ''--help'' then ShowHelp
      else daemon_args rest (cfg, log_level))"
  by pat_completeness auto
termination
  by (relation "measure (length \<circ> fst)") (auto simp: less_Suc_eq_le)

subsection \<open>From start to signal\<close>

text \<open>The flag that the handler of \<open>SIGINT\<close> (2) and \<open>SIGTERM\<close> (15) sets.\<close>

definition signal_handler :: "int \<Rightarrow> bool \<Rightarrow> bool" where
  "signal_handler signum stop_flag = (if signum = 2 \<or> signum = 15 then True else stop_flag)"

text \<open>The poller reads its file, which may be missing; \<open>epoll_wait\<close> returns in the registry's thread; or
  \<open>main\<close> looks at the flag after a signal.\<close>

datatype daemon_event = Polls "int \<Rightarrow> io_out list" "string option" | Wakes wait_result | Signals int

text \<open>The daemon lives until a signal ends it, with the registry's loop still running or not, or goes on; or an
  exception leaves a thread and ends the process, or the behaviour is undefined, or a thread
  is caught in a loop for good; the run is followed as far as the first of these.\<close>

datatype daemon_life = Alive daemon bool | Going_on daemon bool | Died cpp_exception | Broken | Caught daemon

fun daemon_run :: "daemon_event list \<Rightarrow> daemon \<Rightarrow> bool \<Rightarrow> daemon_life" where
  "daemon_run [] d looping = Going_on d looping"
| "daemon_run (Polls ws file # es) d looping = (case daemon_poll ws (read_file file) d of
     Inl e \<Rightarrow> Died e
   | Inr None \<Rightarrow> Broken
   | Inr (Some (tr, (out, stuck), d')) \<Rightarrow> if stuck then Caught d' else daemon_run es d' looping)"
| "daemon_run (Wakes w # es) d looping =
     (if \<not> looping then daemon_run es d looping
      else case run_event_loop [w] (d_registry d) of
        Spinning r \<Rightarrow> Caught (d\<lparr>d_registry := r\<rparr>)
      | Returned r \<Rightarrow> daemon_run es (d\<lparr>d_registry := r\<rparr>) (w \<noteq> WaitError))"
| "daemon_run (Signals n # es) d looping =
     (if signal_handler n False then Alive d looping else daemon_run es d looping)"

text \<open>How the process ends, if it does: with an exit code and the daemon after its destructor; by \<open>std::terminate\<close>; or in undefined behaviour; or \<open>stop\<close>, which joins both threads,
  waits for one that is caught (unless the other thread ends the process first).\<close>

datatype daemon_exit = Exits int "daemon option" | Runs_on daemon | Terminated cpp_exception | Never_joins daemon | Undefined

definition daemon_main :: "string list \<Rightarrow> start_env \<Rightarrow> daemon_event list \<Rightarrow> daemon_exit" where
  "daemon_main args env events = (case daemon_args args (default_config, ''info'') of
     Uncaught e \<Rightarrow> Terminated e
   | ShowHelp \<Rightarrow> Exits 0 None
   | Refused_args n \<Rightarrow> Exits n None
   | Run (cfg, log_level) \<Rightarrow> (case daemon_start env (daemon_new cfg) of
       (Some e, d) \<Rightarrow> Exits 1 (Some (daemon_destroy d))
     | (None, d) \<Rightarrow> (case daemon_run events d True of
         Alive d' looping \<Rightarrow> Exits 0 (Some (daemon_destroy (daemon_stop d')))
       | Going_on d' looping \<Rightarrow> Runs_on d'
       | Died e \<Rightarrow> Terminated e
       | Caught d' \<Rightarrow> Never_joins d'
       | Broken \<Rightarrow> Undefined)))"

subsection \<open>The command line\<close>

text \<open>The command line that asks for a configuration.\<close>

definition daemon_command :: "daemon_config \<times> string \<Rightarrow> string list" where
  "daemon_command = (\<lambda>(cfg, log_level). [''--psi-path'', psi_path cfg, ''--socket-path'', socket_path cfg,
     ''--poll-interval'', int_str (poll_interval_ms cfg), ''--log-level'', log_level])"

lemma stoi_int: "- 2147483648 \<le> i \<Longrightarrow> i \<le> 2147483647 \<Longrightarrow> stoi (int_str i) = Inr i"
  using stoi_int_str [of i "[]"] by simp

definition takes_value :: "string \<Rightarrow> bool" where
  "takes_value arg \<longleftrightarrow> arg \<in> {''--psi-path'', ''--socket-path'', ''--poll-interval'', ''--log-level''}"

lemma daemon_args_append:
  "daemon_args xs c = Run c' \<Longrightarrow> \<not> (xs \<noteq> [] \<and> takes_value (last xs)) \<Longrightarrow>
   daemon_args (xs @ ys) c = daemon_args ys c'"
proof (induction xs c rule: daemon_args.induct)
  case (1 c)
  then show ?case by simp
next
  case (2 arg rest cfg lv)
  show ?case
  proof (cases "rest = []")
    case True
    with 2(6,7) have "\<not> takes_value arg" "daemon_args [arg] (cfg, lv) = Run c'" by simp_all
    then show ?thesis using True by (auto simp: takes_value_def split: if_splits)
  next
    case False
    then obtain v vs where r: "rest = v # vs" by (cases rest) auto
    have e: "\<not> (vs \<noteq> [] \<and> takes_value (last vs))" "\<not> takes_value (last rest)" using 2(7) by (auto simp: r)
    consider (psi) "arg = ''--psi-path''" | (sock) "arg = ''--socket-path''" | (poll) "arg = ''--poll-interval''"
      | (level) "arg = ''--log-level''" | (other) "\<not> takes_value arg" by (auto simp: takes_value_def)
    then show ?thesis
    proof cases
      case psi
      then show ?thesis using 2(1) 2(6) e by (simp add: r)
    next
      case sock
      then show ?thesis using 2(2) 2(6) e by (simp add: r)
    next
      case poll
      then show ?thesis using 2(3) 2(6) e by (simp add: r split: sum.splits)
    next
      case level
      then show ?thesis using 2(4) 2(6) e by (simp add: r)
    next
      case other
      then have "daemon_args (arg # zs) (cfg, lv) = (if arg = ''--help'' then ShowHelp else daemon_args zs (cfg, lv))" for zs
        by (simp add: takes_value_def)
      then show ?thesis using 2(5) 2(6) e other by (auto simp: takes_value_def split: if_splits)
    qed
  qed
qed

text \<open>C37: The options are read back. A command line that spells out a configuration, whose
  paths may be any text (names of options included), yields that configuration, whatever
  well-formed options came before it.\<close>

theorem daemon_args_roundtrip:
  assumes "- 2147483648 \<le> poll_interval_ms cfg" and "poll_interval_ms cfg \<le> 2147483647"
    and "daemon_args xs start = Run (cfg0, lv0)" and "tier_configs cfg = tier_configs cfg0"
    and "\<not> (xs \<noteq> [] \<and> takes_value (last xs))"
  shows "daemon_args (xs @ daemon_command (cfg, lv)) start = Run (cfg, lv)"
  using assms(1,2,4) by (cases cfg; cases cfg0)
    (simp add: daemon_args_append [OF assms(3,5)] daemon_command_def stoi_int)

subsection \<open>What the daemon leaves open\<close>

text \<open>The descriptors of the registry and its table, while the daemon runs.\<close>

definition runs_with :: "int \<times> int \<Rightarrow> daemon \<Rightarrow> bool" where
  "runs_with = (\<lambda>(l, p) d. registry_ok (d_registry d) \<and> loop_ids (d_registry d) = (l, p, True) \<and>
     poller_running (d_poller d) \<and> poller_thread (d_poller d))"

lemma psi_update_keeps:
  "on_psi_update ws data d = Some (tr, out, d') \<Longrightarrow> d_registry d' = d_registry d \<and> d_poller d' = d_poller d"
  by (auto simp: on_psi_update_def Let_def split: bind_splits)

lemma poll_once_keeps:
  "poll_once content p = Inr (x, p') \<Longrightarrow> poller_running p' = poller_running p \<and> poller_thread p' = poller_thread p"
  by (auto simp: poll_once_def split: if_splits sum.splits)

lemma poll_keeps: "daemon_poll ws content d = Inr (Some (tr, out, d')) \<Longrightarrow> runs_with lp d \<Longrightarrow> runs_with lp d'"
  by (auto simp: daemon_poll_def runs_with_def dest!: psi_update_keeps poll_once_keeps
      split: sum.splits prod.splits option.splits)

lemma wake_keeps:
  "runs_with lp d \<Longrightarrow> runs_with lp (d\<lparr>d_registry := handled_state (run_event_loop ws (d_registry d))\<rparr>)"
  using rok.loop_keeps ids.loop_keeps by (auto simp: runs_with_def simp del: run_event_loop.simps)

lemma run_keeps:
  "runs_with lp d \<Longrightarrow> daemon_run es d looping \<in> {Alive d' looping', Going_on d' looping'} \<Longrightarrow> runs_with lp d'"
proof (induction es d looping rule: daemon_run.induct)
  case (2 ws source es d looping)
  then show ?case using poll_keeps [OF _ 2(2)] by (auto split: sum.splits option.splits prod.splits if_splits)
next
  case (3 w es d looping)
  with wake_keeps [OF 3(3), of "[w]"] show ?case
    by (cases "run_event_loop [w] (d_registry d)") (auto simp del: run_event_loop.simps split: if_splits)
qed (simp_all split: if_splits)

lemma start_ids:
  "registry_start env registry_new = (None, r) \<Longrightarrow>
    \<exists>l p. got_socket env = Some l \<and> got_epoll env = Some p \<and> loop_ids r = (l, p, True)"
  by (auto simp: registry_start_def registry_new_def loop_ids_def Let_def split: if_splits option.splits)

lemma start_runs:
  assumes "daemon_start env (daemon_new cfg) = (None, d)"
  shows "\<exists>l p. got_socket env = Some l \<and> got_epoll env = Some p \<and> runs_with (l, p) d"
proof -
  let ?r = "d_registry d"
  have r: "registry_start env registry_new = (None, ?r)"
    and p: "d_poller d = poller_start (set_callback poller_new)"
    using assms by (auto simp: daemon_start_def daemon_new_def split: prod.splits option.splits)
  with start_ids [OF r] registry_start_ok [OF r] show ?thesis
    by (auto simp: runs_with_def poller_start_def set_callback_def poller_new_def)
qed

lemma registry_stop_twice: "registry_stop (registry_stop r) = registry_stop r"
proof (cases "reg_running r")
  case True
  have "reg_running (fold (close_fd \<circ> fst) cs r) = reg_running r" for cs :: "(int \<times> client_info) list" and r
    by (induction cs arbitrary: r) (simp_all add: close_fd_def)
  then have "\<not> reg_running (registry_stop r)" using True by (simp add: registry_stop_def Let_def close_fd_def)
  then show ?thesis by (subst registry_stop_def) simp
qed (simp add: registry_stop_def)

lemma destroy_stops: "daemon_destroy d = daemon_stop d" "daemon_stop (daemon_stop d) = daemon_stop d"
  by (simp_all add: daemon_destroy_def daemon_stop_def poller_destroy_def registry_destroy_def poller_stop_def
      registry_stop_twice Let_def)


text \<open>C30: A start that fails closes a descriptor twice. When \<open>bind\<close> fails, \<open>main\<close> reports the error and returns 1,
  whatever the poller and the clients would have done; the listening socket has then been closed by \<open>start\<close> and
  again by the destructor.\<close>

theorem daemon_main_failed_bind:
  assumes "daemon_args args (default_config, ''info'') = Run (cfg, lv)"
    and "got_socket env = Some l" and "l \<noteq> - 1" and "\<not> bind_ok env"
  shows "\<exists>e. daemon_main args env events = Exits 1 (Some e) \<and> close_log (d_registry e) = [l, l] \<and>
    conns (d_registry e) = [] \<and> \<not> poller_thread (d_poller e)"
proof -
  have "fst (registry_start env registry_new) = Some (RuntimeError ''Failed to bind socket'')"
    "close_log (registry_stop (snd (registry_start env registry_new))) = [l, l]"
    using registry_failed_start [OF assms(2,4,3), of env] by simp_all
  moreover have "conns (registry_stop (snd (registry_start env registry_new))) = []"
    using assms(2-4) by (simp add: registry_start_def registry_new_def close_fd_def registry_stop_def Let_def)
  ultimately show ?thesis using assms(1)
    by (auto simp: daemon_main_def destroy_stops daemon_start_def daemon_new_def daemon_stop_def poller_stop_def set_callback_def
        poller_new_def split: prod.splits)
qed

subsection \<open>A daemon that serves\<close>

text \<open>What its surroundings must do for a daemon to serve: the kernel ends each batch of accepts; a
  client sends whole frames with headers in one piece and sizes below \<open>2^63\<close>, in whatever chunks, and then waits,
  ends or fails; every client reads what it is sent; the file, when there is one, parses.\<close>

abbreviation below_2_63 :: "u64 \<Rightarrow> bool" where "below_2_63 n \<equiv> unat n < 2 ^ 63"

definition fair_reads :: "io_in list \<Rightarrow> bool" where
  "fair_reads s \<longleftrightarrow> (\<exists>ms cs. carries ms cs \<and> no_empty cs \<and> list_all (\<lambda>m. below_2_63 (msg_current m)) ms \<and>
     s \<in> {map Bytes cs, map Bytes cs @ [Eof], map Bytes cs @ [Fail]})"

definition fair_event :: "int \<Rightarrow> epoll_event \<Rightarrow> bool" where
  "fair_event l ev \<longleftrightarrow> (if ev_fd ev = l then AcceptAgain \<in> set (ev_accepts ev) else fair_reads (ev_reads ev))"

fun fair :: "int \<Rightarrow> daemon_event \<Rightarrow> bool" where
  "fair l (Polls ws file) \<longleftrightarrow> (\<forall>fd. writable (ws fd)) \<and>
     (read_file file = '''' \<or> (\<exists>data. parse_psi_file (read_file file) = Inr data))"
| "fair l (Wakes (Woken evs)) \<longleftrightarrow> list_all (fair_event l) evs"
| "fair l (Wakes _) \<longleftrightarrow> True"
| "fair l (Signals n) \<longleftrightarrow> True"

fun ends_daemon :: "daemon_event \<Rightarrow> bool" where
  "ends_daemon (Signals n) = signal_handler n False"
| "ends_daemon _ = False"

definition serving :: "int \<Rightarrow> daemon \<Rightarrow> bool" where
  "serving l d \<longleftrightarrow> default_engine (d_engine d) \<and> sizes_are below_2_63 (d_registry d) \<and> listen_fd (d_registry d) = l"

lemma fair_accepts:
  "AcceptAgain \<in> set xs \<Longrightarrow> sizes_are below_2_63 r \<Longrightarrow>
    \<exists>r'. handle_new_connection xs r = Returned r' \<and> sizes_are below_2_63 r'"
proof (induction xs r rule: handle_new_connection.induct)
  case (4 fd ok xs r)
  then have "sizes_are below_2_63 (if ok then add_client fd r else r\<lparr>close_log := fd # close_log r\<rparr>)"
    using add_sizes [of below_2_63 r fd] by (simp add: sizes_are_def)
  with 4 show ?case by simp
qed simp_all

lemma fair_messages:
  assumes "fair_reads s" and "sizes_are below_2_63 r"
  shows "\<exists>r'. fst (handle_client_message fd s r) = Returned r' \<and> sizes_are below_2_63 r'"
proof -
  from assms(1) obtain ms cs tl where ms: "carries ms cs" "no_empty cs" "list_all (\<lambda>m. below_2_63 (msg_current m)) ms"
    and s: "s = map Bytes cs @ tl" "tl \<in> {[], [Eof], [Fail]}" by (auto simp: fair_reads_def)
  let ?r = "fold (apply_message fd) ms r"
  have "sizes_are below_2_63 ?r" using applies_sizes [OF ms(3) assms(2)] .
  moreover have "handle_client_message fd s r = handle_client_message fd tl ?r"
    unfolding s(1) by (rule reassemble_then [OF ms(1,2)])
  ultimately show ?thesis using s(2) by (auto intro: remove_sizes)
qed

lemma fair_events:
  "list_all (fair_event (listen_fd r)) evs \<Longrightarrow> sizes_are below_2_63 r \<Longrightarrow>
    \<exists>r'. handle_events evs r = Returned r' \<and> sizes_are below_2_63 r'"
proof (induction evs arbitrary: r)
  case (Cons ev evs)
  have "\<exists>r'. handle_event ev r = Returned r' \<and> sizes_are below_2_63 r'"
    using Cons.prems fair_accepts [of "ev_accepts ev" r] fair_messages [of "ev_reads ev" r "ev_fd ev"]
    by (auto simp: handle_event_def fair_event_def intro: remove_sizes split: if_splits)
  then obtain r' where r': "handle_event ev r = Returned r'" "sizes_are below_2_63 r'" by blast
  have "loop_ids r' = loop_ids r" using ids.event_keeps [of r "loop_ids r" ev] r'(1) by simp
  then show ?case using Cons r' by (simp add: loop_ids_def)
qed simp

lemma fair_sample:
  assumes "serving l d" and "\<forall>fd. writable (ws fd)"
  shows "\<exists>tr out d'. on_psi_update ws data d = Some (tr, (out, False), d') \<and> serving l d'"
proof -
  let ?r = "d_registry d"
  have ws: "\<forall>p \<in> set (clients ?r). writable (ws (fst p))" using assms(2) by blast
  have de: "default_engine (d_engine d)" and small: "\<forall>p \<in> set (clients ?r). below_2_63 (ci_current (snd p))"
    using assms(1) by (simp_all add: serving_def sizes_are_def)
  from de show ?thesis
  proof (cases rule: sample_cases [where ws = ws and data = data])
    case (up f tr d')
    with shrink_reaches_all [OF _ _ ws, of f] obtain out where "on_psi_update ws data d = Some (Some tr, (out, False), d')"
      by auto
    moreover have "serving l d'" using up assms(1) by (simp add: serving_def)
    ultimately show ?thesis by blast
  next
    case (down f tr d')
    with grow_reaches_all [OF _ _ ws small, of f] obtain out where "on_psi_update ws data d = Some (Some tr, (out, False), d')"
      by auto
    moreover have "serving l d'" using down assms(1) by (simp add: serving_def)
    ultimately show ?thesis by blast
  next
    case (same d')
    then show ?thesis using assms(1) by (auto simp: serving_def)
  qed
qed

lemma fair_poll:
  assumes "serving l d" and "fair l (Polls ws file)"
  shows "\<exists>tr out d'. daemon_poll ws (read_file file) d = Inr (Some (tr, (out, False), d')) \<and> serving l d'"
proof -
  have "\<exists>x p. poll_once (read_file file) (d_poller d) = Inr (x, p)" using assms(2) by (auto simp: poll_once_def)
  then obtain x p where p: "poll_once (read_file file) (d_poller d) = Inr (x, p)" by blast
  have "serving l (d\<lparr>d_poller := p\<rparr>)" using assms(1) by (simp add: serving_def)
  with fair_sample [OF this] assms(2) p show ?thesis by (cases x) (auto simp: daemon_poll_def)
qed

lemma fair_wake:
  assumes "serving l d" and "fair l (Wakes w)"
  shows "\<exists>r. run_event_loop [w] (d_registry d) = Returned r \<and> serving l (d\<lparr>d_registry := r\<rparr>)"
proof -
  have "\<exists>r. run_event_loop [w] (d_registry d) = Returned r \<and> sizes_are below_2_63 r"
  proof (cases w)
    case (Woken evs)
    with assms have "list_all (fair_event (listen_fd (d_registry d))) evs" "sizes_are below_2_63 (d_registry d)"
      by (simp_all add: serving_def)
    from fair_events [OF this] assms(1) show ?thesis unfolding Woken by (auto simp: serving_def)
  qed (use assms in \<open>simp_all add: serving_def\<close>)
  then obtain r where r: "run_event_loop [w] (d_registry d) = Returned r" "sizes_are below_2_63 r" by blast
  have "loop_ids r = loop_ids (d_registry d)"
    using ids.loop_keeps [of "d_registry d" "loop_ids (d_registry d)" "[w]"] r(1) by (simp del: run_event_loop.simps)
  then show ?thesis using assms(1) r by (simp add: serving_def loop_ids_def del: run_event_loop.simps)
qed

lemma fair_run: "serving l d \<Longrightarrow> list_all (fair l) es \<Longrightarrow> \<exists>d' looping'.
  daemon_run es d looping = (if list_ex ends_daemon es then Alive d' looping' else Going_on d' looping')"
proof (induction es arbitrary: d looping)
  case (Cons e es)
  show ?case
  proof (cases e)
    case (Polls ws source)
    with Cons.prems fair_poll [of l d ws source] obtain tr out d' where
      "daemon_poll ws (read_file source) d = Inr (Some (tr, (out, False), d'))" "serving l d'" by auto
    then show ?thesis using Cons Polls by simp
  next
    case (Wakes w)
    with Cons.prems fair_wake [of l d w] obtain r where
      "run_event_loop [w] (d_registry d) = Returned r" "serving l (d\<lparr>d_registry := r\<rparr>)" by auto
    then show ?thesis using Cons Wakes by (simp del: run_event_loop.simps)
  next
    case (Signals n)
    then show ?thesis using Cons by simp
  qed
qed simp

lemma args_tiers: "daemon_args args c = Run c' \<Longrightarrow> tier_configs (fst c') = tier_configs (fst c)"
  by (induction args c rule: daemon_args.induct) (auto split: if_splits sum.splits)

lemma start_serves:
  assumes "daemon_start env (daemon_new cfg) = (None, d)" and "tier_configs cfg = default_configs"
    and "got_socket env = Some l"
  shows "serving l d"
proof -
  have "default_engine (engine_new default_configs)"
    using default_engine_run [of "[]"] by (simp add: engine_new_def default_configs_def)
  then have "default_engine (d_engine d)"
    using assms(1,2) by (auto simp: daemon_start_def daemon_new_def split: prod.splits option.splits)
  moreover have r: "registry_start env registry_new = (None, d_registry d)"
    using assms(1) by (auto simp: daemon_start_def daemon_new_def split: prod.splits option.splits)
  have "clients r = [] \<and> listen_fd r = l" if "registry_start env registry_new = (None, r)" for r
    using that assms(3) by (auto simp: registry_start_def registry_new_def Let_def split: if_splits option.splits)
  with r have "clients (d_registry d) = []" "listen_fd (d_registry d) = l" by blast+
  ultimately show ?thesis by (simp add: serving_def sizes_are_def)
qed

text \<open>C15: A daemon in fair surroundings serves until the signal. Whatever its (valid) arguments, if the start succeeds and
  kernel, clients and pressure file behave as described above, then no sequence of polls and wake-ups, in whatever
  order and number, makes a thread throw, hang or run into undefined behaviour: \<open>main\<close> returns 0 if a signal comes
  that ends it, and goes on if none does.\<close>

theorem daemon_main_serves:
  assumes "daemon_args args (default_config, ''info'') = Run (cfg, lv)"
    and "daemon_start env (daemon_new cfg) = (None, d)" and "got_socket env = Some l" and "list_all (fair l) events"
  shows "\<exists>d' looping. if list_ex ends_daemon events
    then daemon_run events d True = Alive d' looping \<and> daemon_main args env events = Exits 0 (Some (daemon_stop d'))
    else daemon_run events d True = Going_on d' looping \<and> daemon_main args env events = Runs_on d'"
proof -
  have "tier_configs cfg = default_configs" using args_tiers [OF assms(1)] by (simp add: default_config_def)
  then have "serving l d" using start_serves [OF assms(2) _ assms(3)] by blast
  from fair_run [OF this assms(4), of True] obtain d' looping where
    "daemon_run events d True = (if list_ex ends_daemon events then Alive d' looping else Going_on d' looping)" by blast
  then show ?thesis using assms(1,2)
    by (intro exI [of _ d'] exI [of _ looping]) (simp add: daemon_main_def destroy_stops)
qed

subsection \<open>A client that stops the daemon\<close>

lemma daemon_run_append:
  "daemon_run (xs @ ys) d looping = (case daemon_run xs d looping of
     Going_on d' looping' \<Rightarrow> daemon_run ys d' looping' | life \<Rightarrow> life)"
  by (induction xs d looping rule: daemon_run.induct)
    (simp_all del: run_event_loop.simps split: sum.splits option.splits handled.splits prod.splits)

text \<open>A readable client sends a whole header and less than it announces, and then nothing.\<close>

definition sends_less :: "epoll_event \<Rightarrow> bool" where
  "sends_less ev \<longleftrightarrow> ev_in ev \<and> \<not> ev_err ev \<and> \<not> ev_hup ev \<and>
     (\<exists>hdr cs. ev_reads ev = map Bytes (hdr # cs) \<and> length hdr = 4 \<and> no_empty cs \<and>
        length (concat cs) < be32_value hdr)"

lemma sends_less_spins:
  assumes "sends_less ev" and "ev_fd ev \<noteq> listen_fd r"
  shows "handle_events (ev # evs) r = Spinning r"
proof -
  from assms(1) obtain hdr cs where ev: "ev_reads ev = map Bytes (hdr # cs)" "length hdr = 4" "no_empty cs"
    "length (concat cs) < be32_value hdr" by (auto simp: sends_less_def)
  have "read_spinning (be32_value hdr) [] (map Bytes cs) = (Starved, [])"
    using spinning.rd_short [OF ev(3), of "[]"] ev(4) by simp
  then have "handle_client_message (ev_fd ev) (ev_reads ev) r = (Spinning r, [])"
    using ev(1,2) by (subst handle_client_message.simps) auto
  with assms show ?thesis by (simp add: sends_less_def handle_event_def)
qed


subsection \<open>Witnesses\<close>

theorem daemon_args_roundtrip_witness:
  "daemon_args ([''--verbose'', ''--poll-interval'', ''50''] @
      daemon_command (default_config\<lparr>socket_path := ''--help'', poll_interval_ms := 1000\<rparr>, ''debug''))
    (default_config, ''info'') = Run (default_config\<lparr>socket_path := ''--help'', poll_interval_ms := 1000\<rparr>, ''debug'')"
proof -
  have "stoi ''50'' = Inr 50" by code_simp
  then have "daemon_args [''--verbose'', ''--poll-interval'', ''50''] (default_config, ''info'') =
      Run (default_config\<lparr>poll_interval_ms := 50\<rparr>, ''info'')" by simp
  then show ?thesis by (rule daemon_args_roundtrip [rotated 2]) (simp_all add: default_config_def takes_value_def)
qed


lemma no_arguments: "daemon_args [] (default_config, ''info'') = Run (default_config, ''info'')"
  by simp


theorem daemon_main_failed_bind_witness:
  "\<exists>e. daemon_main [] (ok_env\<lparr>bind_ok := False\<rparr>) [] = Exits 1 (Some e) \<and> close_log (d_registry e) = [3, 3]"
proof -
  have "got_socket (ok_env\<lparr>bind_ok := False\<rparr>) = Some 3" "\<not> bind_ok (ok_env\<lparr>bind_ok := False\<rparr>)"
    by (simp_all add: ok_env_def)
  from daemon_main_failed_bind [OF no_arguments this(1) _ this(2)] show ?thesis by auto
qed


text \<open>A client connects, registers, reports a size and hangs up; then the file is missing.\<close>

definition sample_events :: "daemon_event list" where
  "sample_events = [Wakes (Woken [connect_event]),
     Wakes (Woken [\<lparr>ev_fd = 5, ev_in = True, ev_err = False, ev_hup = False, ev_accepts = [],
       ev_reads = map Bytes (map frame [sample_register, sample_register\<lparr>msg_type := REPORT_SIZE\<rparr>]) @ [Eof]\<rparr>]),
     Wakes Interrupted, Polls (\<lambda>_. [Wrote 200]) None, Signals 2]"

lemma sample_events_fair: "list_all (fair 3) sample_events"
proof -
  let ?ms = "[sample_register, sample_register\<lparr>msg_type := REPORT_SIZE\<rparr>]"
  have "list_all (\<lambda>m. below_2_63 (msg_current m)) ?ms" by (simp add: sample_register_def)
  then have "fair_reads (map Bytes (map frame ?ms) @ [Eof])"
    unfolding fair_reads_def using carries_one_each [of ?ms] no_empty_frames [of ?ms] by blast
  then show ?thesis by (simp add: sample_events_def fair_event_def connect_event_def writable_def read_file_def)
qed

theorem daemon_main_serves_witness:
  "\<exists>e. daemon_main [] ok_env sample_events = Exits 0 (Some e)"
proof -
  have "daemon_start ok_env (daemon_new default_config) =
      (None, (daemon_new default_config)\<lparr>d_registry := started_registry, d_poller := poller_start (d_poller (daemon_new default_config))\<rparr>)"
    by (simp add: daemon_start_def daemon_new_def started)
  moreover have "got_socket ok_env = Some 3" by (simp add: ok_env_def)
  moreover have "list_ex ends_daemon sample_events" by (simp add: sample_events_def signal_handler_def)
  ultimately show ?thesis using daemon_main_serves [OF no_arguments _ _ sample_events_fair] by auto
qed

text \<open>A client connects and sends a header alone, for a frame of 70 bytes; then \<open>SIGTERM\<close> arrives.\<close>

definition header_alone :: epoll_event where
  "header_alone = \<lparr>ev_fd = 5, ev_in = True, ev_err = False, ev_hup = False, ev_accepts = [],
     ev_reads = [Bytes [0, 0, 0, 70]]\<rparr>"


end
