(* ===== verification/Cache_App.thy ===== *)
theory Cache_App
  imports Governed_Cache
begin

text \<open>
  \<open>src/cache_app/main.cpp\<close>: the workload driver, which reads and writes random keys of a governed
  cache and reports its statistics. The random draws, the clock (nanoseconds of the steady
  clock, which never goes back), the results of the writes and the commands that the listener
  thread executes between two calls on the cache are inputs of each round. The mutex of the cache
  makes each command and each call one step, so their order is all there is to the threads.
\<close>

subsection \<open>The command line\<close>

record app_config =
  app_capacity :: u64
  app_entry_size :: u64
  app_zipf_skew :: double
  app_key_space :: u64
  app_ops_per_sec :: u64
  app_duration_sec :: u64
  app_socket_path :: string
  app_report_interval :: u64

definition app_default :: app_config where
  "app_default = \<lparr>app_capacity = 100000, app_entry_size = 256, app_zipf_skew = to_double (99 / 100),
     app_key_space = 500000, app_ops_per_sec = 10000, app_duration_sec = 60,
     app_socket_path = ''/tmp/mem_governor.sock'', app_report_interval = 1\<rparr>"

text \<open>The options that call \<open>next()\<close>, and what they do with the text it returns.\<close>

definition set_u64 :: "(u64 \<Rightarrow> app_config) \<Rightarrow> string \<Rightarrow> (cpp_exception + app_config) option" where
  "set_u64 upd v = Some (case stoull v of Inl e \<Rightarrow> Inl e | Inr n \<Rightarrow> Inr (upd n))"

definition set_option :: "string \<Rightarrow> string \<Rightarrow> app_config \<Rightarrow> (cpp_exception + app_config) option" where
  "set_option arg v c =
     (if arg = ''--capacity'' then set_u64 (\<lambda>n. c\<lparr>app_capacity := n\<rparr>) v
      else if arg = ''--entry-size'' then set_u64 (\<lambda>n. c\<lparr>app_entry_size := n\<rparr>) v
      else if arg = ''--zipf-skew''
      then Some (case stod v of Inl e \<Rightarrow> Inl e | Inr x \<Rightarrow> Inr (c\<lparr>app_zipf_skew := x\<rparr>))
      else if arg = ''--key-space'' then set_u64 (\<lambda>n. c\<lparr>app_key_space := n\<rparr>) v
      else if arg = ''--ops-per-sec'' then set_u64 (\<lambda>n. c\<lparr>app_ops_per_sec := n\<rparr>) v
      else if arg = ''--duration'' then set_u64 (\<lambda>n. c\<lparr>app_duration_sec := n\<rparr>) v
      else if arg = ''--socket-path'' then Some (Inr (c\<lparr>app_socket_path := v\<rparr>))
      else if arg = ''--report-interval'' then set_u64 (\<lambda>n. c\<lparr>app_report_interval := n\<rparr>) v
      else None)"

datatype app_cli = AppRun app_config | AppExit int | AppUncaught cpp_exception

text \<open>An option without its value exits with code 1, and so does an unknown one.\<close>

fun parse_args :: "string list \<Rightarrow> app_config \<Rightarrow> app_cli" where
  "parse_args [] c = AppRun c"
| "parse_args [arg] c = AppExit (if arg = ''--help'' then 0 else 1)"
| "parse_args (arg # v # rest) c = (case set_option arg v c of
     Some (Inl e) \<Rightarrow> AppUncaught e
   | Some (Inr c') \<Rightarrow> parse_args rest c'
   | None \<Rightarrow> AppExit (if arg = ''--help'' then 0 else 1))"

subsection \<open>The key distribution\<close>

text \<open>The constructor of the generator: one weight per key, \<open>1 / (i + 1)^alpha\<close>, all of them stored. The
  power of the C library is a parameter.\<close>

definition zipf_weights :: "(double \<Rightarrow> double \<Rightarrow> double) \<Rightarrow> u64 \<Rightarrow> double \<Rightarrow> double list" where
  "zipf_weights pw n alpha = map (\<lambda>i. dbl_div (Finite 1) (pw (dbl_of_u64 (of_nat i + 1)) alpha)) [0..<unat n]"

text \<open>For a power that is finite, at least one and does not decrease on numbers from one up, as it is
  for a positive exponent, the weights lie between 0 and 1 and do not increase.\<close>

lemma zipf_weights_decrease:
  assumes pw: "\<And>x. 1 \<le> x \<Longrightarrow> pw (Finite x) alpha = Finite (f x) \<and> 1 \<le> f x"
    and mono: "\<And>x y. 1 \<le> x \<Longrightarrow> x \<le> y \<Longrightarrow> f x \<le> f y"
    and "i \<le> j" and "j < unat n"
  shows "\<exists>p q. zipf_weights pw n alpha ! i = Finite p \<and> zipf_weights pw n alpha ! j = Finite q \<and>
    0 \<le> q \<and> q \<le> p \<and> p \<le> 1"
proof -
  define d where "d k = rnd (of_nat (Suc k))" for k
  have small: "Suc k < 2 ^ 64" if "k < unat n" for k using le_less_trans [OF Suc_leI [OF that] unat_lt_u64] by simp
  have d1: "dbl_of_u64 (of_nat k + 1) = Finite (d k)" "1 \<le> d k" if "k < unat n" for k
  proof -
    have "of_nat k + 1 = (of_nat (Suc k) :: u64)" by simp
    then have "unat (of_nat k + 1 :: u64) = Suc k" using small [OF that] by (simp only: unat_of_nat) simp
    moreover have "(of_nat (Suc k) :: rat) \<le> of_nat (2 ^ 64)" unfolding of_nat_le_iff using small [OF that] by simp
    ultimately show "dbl_of_u64 (of_nat k + 1) = Finite (d k)"
      by (simp only: dbl_of_u64_def d_def) (rule to_double_small; simp)
    show "1 \<le> d k" using rnd_mono [of "of_int 1" "of_nat (Suc k)"] rnd_of_int [of 1] by (simp add: d_def)
  qed
  have w: "zipf_weights pw n alpha ! k = Finite (rnd (1 / f (d k)))" if "k < unat n" for k
  proof -
    have f: "pw (Finite (d k)) alpha = Finite (f (d k))" "1 \<le> f (d k)" using pw d1 [OF that] by simp_all
    then have "1 / f (d k) \<le> 1" by simp
    then have "1 / f (d k) \<le> 2 ^ 70" by (rule order_trans) simp
    then have "to_double (1 / f (d k)) = Finite (rnd (1 / f (d k)))" using f(2) by (intro to_double_small) simp_all
    then show ?thesis using that d1 [OF that] f by (simp add: zipf_weights_def)
  qed
  have "d i \<le> d j" using assms(3) unfolding d_def by (intro rnd_mono) simp_all
  moreover have "i < unat n" using assms(3,4) by simp
  ultimately have f: "1 \<le> f (d i)" "f (d i) \<le> f (d j)" using pw mono d1 by (metis, metis)
  then have q: "0 \<le> 1 / f (d j)" "1 / f (d j) \<le> 1 / f (d i)" "0 \<le> 1 / f (d i)" "1 / f (d i) \<le> of_int 1"
    by (simp_all add: frac_le)
  have "rnd (1 / f (d i)) \<le> 1" using rnd_mono [OF q(3,4)] rnd_of_int [of 1] by simp
  then show ?thesis using w [OF assms(4)] w [OF \<open>i < unat n\<close>] rnd_mono [OF q(1,2)] rnd_nonneg [OF q(1)] by blast
qed

subsection \<open>Keys and values\<close>

text \<open>The distribution draws a value below the number of keys.\<close>

definition zipf_next :: "u64 \<Rightarrow> u64" where
  "zipf_next draw = draw + 1"

definition app_key :: "u64 \<Rightarrow> string" where
  "app_key key_id = ''key_'' @ nat_str (unat key_id)"

definition value_chars :: string where
  "value_chars = ''0123456789ABCDEFGHIJKLMNOPQRSTUVWXYZabcdefghijklmnopqrstuvwxyz''"

text \<open>One pick per position; an index past the terminating zero would be undefined.\<close>

definition random_string :: "u64 \<Rightarrow> (nat \<Rightarrow> nat) \<Rightarrow> string" where
  "random_string len pick = map (\<lambda>i. value_chars ! pick i) [0..<unat len]"

subsection \<open>One round of the loop\<close>

record op_input =
  op_test :: int
  op_begin :: int
  op_before :: "(callback \<times> io_out list) list"
  op_draw :: u64
  op_coin :: double
  op_now :: int
  op_after :: "(callback \<times> io_out list) list"
  op_end :: int

record workload =
  wl_cache :: governed_cache
  wl_client :: governor_client
  wl_since :: u64
  wl_total :: u64
  wl_last :: int
  wl_reports :: "(cache_stats \<times> u64) list"
  wl_slept :: "int list"

fun run_commands :: "i32 \<Rightarrow> (callback \<times> io_out list) list \<Rightarrow> governed_cache \<times> governor_client \<Rightarrow>
    (governed_cache \<times> governor_client) performed" where
  "run_commands pid [] cg = Done cg"
| "run_commands pid ((cb, ws) # xs) cg = (case gcache_handler pid ws cb cg of
     Done cg' \<Rightarrow> run_commands pid xs cg'
   | Blocks \<Rightarrow> Blocks
   | Breaks \<Rightarrow> Breaks)"

definition is_read :: "double \<Rightarrow> bool" where
  "is_read coin \<longleftrightarrow> coin < to_double (8 / 10)"

definition app_operation :: "string \<Rightarrow> op_input \<Rightarrow> governed_cache \<Rightarrow> governed_cache option" where
  "app_operation val i c =
     (let key = app_key (zipf_next (op_draw i))
      in if is_read (op_coin i) then map_option snd (gcache_get key c) else gcache_put key val c)"

text \<open>A duration as a \<open>double\<close> of seconds, and the rate as the code computes it; a rate that is not
  a 64-bit number is undefined behaviour.\<close>

definition elapsed_seconds :: "int \<Rightarrow> double" where
  "elapsed_seconds ns = dbl_div (dbl_of_int ns) (dbl_of_int 1000000000)"

definition app_report :: "app_config \<Rightarrow> int \<Rightarrow> workload \<Rightarrow> workload option" where
  "app_report cfg now w =
     (let since = now - wl_last w
      in if app_report_interval cfg \<le> word_of_int (since div 1000000000)
         then (case dbl_to_u64 (dbl_div (dbl_of_u64 (wl_since w)) (elapsed_seconds since)) of
             None \<Rightarrow> None
           | Some ops \<Rightarrow> Some (w\<lparr>wl_reports := wl_reports w @ [(get_stats (wl_cache w), ops)],
               wl_since := 0, wl_last := now\<rparr>))
         else Some w)"

definition delay_per_op :: "app_config \<Rightarrow> int" where
  "delay_per_op cfg = (if 0 < app_ops_per_sec cfg then uint (1000000000 div app_ops_per_sec cfg) else 0)"

definition app_throttle :: "app_config \<Rightarrow> op_input \<Rightarrow> workload \<Rightarrow> workload" where
  "app_throttle cfg i w =
     (let d = delay_per_op cfg; dur = op_end i - op_begin i
      in if 0 < d \<and> dur < d then w\<lparr>wl_slept := wl_slept w @ [d - dur]\<rparr> else w)"

definition app_step :: "app_config \<Rightarrow> string \<Rightarrow> i32 \<Rightarrow> op_input \<Rightarrow> workload \<Rightarrow> workload performed" where
  "app_step cfg val pid i w = (case run_commands pid (op_before i) (wl_cache w, wl_client w) of
     Blocks \<Rightarrow> Blocks
   | Breaks \<Rightarrow> Breaks
   | Done (c, g) \<Rightarrow> (case app_operation val i c of
       None \<Rightarrow> Breaks
     | Some c' \<Rightarrow> (case run_commands pid (op_after i) (c', g) of
         Blocks \<Rightarrow> Blocks
       | Breaks \<Rightarrow> Breaks
       | Done (c'', g') \<Rightarrow> (case app_report cfg (op_now i) (w\<lparr>wl_cache := c'', wl_client := g',
               wl_since := wl_since w + 1, wl_total := wl_total w + 1\<rparr>) of
           None \<Rightarrow> Breaks
         | Some w' \<Rightarrow> Done (app_throttle cfg i w')))))"

subsection \<open>The program\<close>

text \<open>The loop ends at the deadline, or where the list ends, which is the signal.\<close>

fun app_loop :: "app_config \<Rightarrow> string \<Rightarrow> i32 \<Rightarrow> int \<Rightarrow> op_input list \<Rightarrow> workload \<Rightarrow> workload performed" where
  "app_loop cfg val pid deadline [] w = Done w"
| "app_loop cfg val pid deadline (i # is) w =
     (if deadline \<le> op_test i then Done w
      else case app_step cfg val pid i w of
        Done w' \<Rightarrow> app_loop cfg val pid deadline is w'
      | Blocks \<Rightarrow> Blocks
      | Breaks \<Rightarrow> Breaks)"

text \<open>\<open>std::chrono::seconds(n)\<close> reads the unsigned count as signed; nanoseconds are 64 bits wide.\<close>

definition int64 :: "int \<Rightarrow> int option" where
  "int64 i = (if - (2 ^ 63) \<le> i \<and> i < 2 ^ 63 then Some i else None)"

definition app_deadline :: "int \<Rightarrow> u64 \<Rightarrow> int option" where
  "app_deadline start secs = Option.bind (int64 (sint secs * 1000000000)) (\<lambda>d. int64 (start + d))"

record app_env =
  env_pid :: i32
  env_attempt :: attempt
  env_writes :: "io_out list"
  env_pick :: "nat \<Rightarrow> nat"
  env_clock :: int

definition app_begin :: "int \<Rightarrow> governed_cache \<times> governor_client \<Rightarrow> workload" where
  "app_begin start = (\<lambda>(c, g). \<lparr>wl_cache = c, wl_client = g, wl_since = 0, wl_total = 0, wl_last = start,
     wl_reports = [], wl_slept = []\<rparr>)"

text \<open>The exit code with the final state, whose statistics are the summary. The destructor of the
  cache calls \<open>stop\<close> once more.\<close>

definition app_main :: "string list \<Rightarrow> app_env \<Rightarrow> op_input list \<Rightarrow>
    cpp_exception + (int \<times> workload option) performed" where
  "app_main args env is = (case parse_args args app_default of
     AppUncaught e \<Rightarrow> Inl e
   | AppExit n \<Rightarrow> Inr (Done (n, None))
   | AppRun cfg \<Rightarrow> Inr (case gcache_start (env_pid env) (env_attempt env) (env_writes env)
         (gcache_new (app_capacity cfg) (app_entry_size cfg)) of
       Blocks \<Rightarrow> Blocks
     | Breaks \<Rightarrow> Breaks
     | Done cg \<Rightarrow> (case app_deadline (env_clock env) (app_duration_sec cfg) of
         None \<Rightarrow> Breaks
       | Some deadline \<Rightarrow> (case app_loop cfg (random_string (app_entry_size cfg) (env_pick env)) (env_pid env)
             deadline is (app_begin (env_clock env) cg) of
           Blocks \<Rightarrow> Blocks
         | Breaks \<Rightarrow> Breaks
         | Done w \<Rightarrow> (let (c, g) = gcache_stop (gcache_stop (wl_cache w, wl_client w))
             in Done (0, Some (w\<lparr>wl_cache := c, wl_client := g\<rparr>)))))))"

subsection \<open>A round never fails\<close>

definition keeps_stock :: "string set \<Rightarrow> string set \<Rightarrow> u64 \<Rightarrow> u64 \<Rightarrow> governed_cache \<Rightarrow> bool" where
  "keeps_stock K V e N c \<longleftrightarrow> entry_bytes c = e \<and>
     (\<exists>s. lru_implements (gc_cache c) s \<and> stocked K V s \<and> hits s + misses s = N)"

lemma resize_keeps_stock:
  assumes "keeps_stock K V e N c" and "takes_frames ws"
  shows "\<exists>c' g'. resize_and_report pid ws n (c, g) = Done (c', g') \<and> keeps_stock K V e N c'"
proof -
  from assms(1) obtain s where s: "lru_implements (gc_cache c) s" "stocked K V s" "hits s + misses s = N"
    by (auto simp: keeps_stock_def)
  from lru_store.resize_stocked [OF s(1,2), of n] obtain l where
    l: "lru_resize n (gc_cache c) = Some l" "lru_implements l (spec_resize n s)" "stocked K V (spec_resize n s)" by blast
  have "keeps_stock K V e N (c\<lparr>gc_cache := l\<rparr>)"
    using assms(1) l(2,3) s(3) by (auto simp: keeps_stock_def spec_resize_def intro!: exI [of _ "spec_resize n s"])
  moreover obtain x g' where x: "report_size pid (lru_size l * entry_bytes c) ws g = (x, g')" "x \<noteq> SendBlocked"
    using send_message_complete [OF _ assms(2), of g]
    by (cases "connected g") (auto simp: report_size_def send_message_def [of _ _ g])
  ultimately show ?thesis using l(1) by (intro exI [of _ "c\<lparr>gc_cache := l\<rparr>"] exI [of _ g']) (simp add: resize_and_report_def)
qed

lemma command_keeps_stock:
  assumes "keeps_stock K V e N c" and "e \<noteq> 0" and "takes_frames ws"
  shows "\<exists>c' g'. gcache_handler pid ws cb (c, g) = Done (c', g') \<and> keeps_stock K V e N c'"
proof -
  have e: "entry_bytes c \<noteq> 0" using assms(1,2) by (simp add: keeps_stock_def)
  note r = resize_keeps_stock [OF assms(1,3), of pid _ g]
  show ?thesis using assms(1) e r
    by (cases cb) (simp_all add: gcache_handler_def handle_shrink_def handle_grow_def Let_def)
qed

lemma commands_keep_stock:
  "keeps_stock K V e N c \<Longrightarrow> e \<noteq> 0 \<Longrightarrow> list_all (takes_frames \<circ> snd) xs \<Longrightarrow>
   \<exists>c' g'. run_commands pid xs (c, g) = Done (c', g') \<and> keeps_stock K V e N c'"
proof (induction xs arbitrary: c g)
  case (Cons x xs)
  obtain cb ws where x: "x = (cb, ws)" by fastforce
  with command_keeps_stock [OF Cons.prems(1,2), of ws pid cb g] Cons.prems(3)
  obtain c1 g1 where "gcache_handler pid ws cb (c, g) = Done (c1, g1)" "keeps_stock K V e N c1" by auto
  with Cons.IH [of c1 g1] Cons.prems(2,3) x show ?case by simp
qed simp

lemma operation_keeps_stock:
  assumes "keeps_stock K V e N c" and "finite K" and "card K < 2 ^ 64"
    and "app_key (zipf_next (op_draw i)) \<in> K" and "val \<in> V"
  shows "\<exists>c'. app_operation val i c = Some c' \<and>
    keeps_stock K V e (if is_read (op_coin i) then N + 1 else N) c'"
proof -
  let ?k = "app_key (zipf_next (op_draw i))"
  from assms(1) obtain s where s: "lru_implements (gc_cache c) s" "stocked K V s" "hits s + misses s = N"
    and e: "entry_bytes c = e" by (auto simp: keeps_stock_def)
  show ?thesis
  proof (cases "is_read (op_coin i)")
    case True
    from lru_store.get_stocked [OF s(1,2), of ?k] obtain r l s' where
      "lru_get ?k (gc_cache c) = Some (r, l)" "lru_implements l s'" "stocked K V s'"
      "hits s' + misses s' = N + 1" unfolding s(3) by blast
    with True e show ?thesis by (auto simp: app_operation_def gcache_get_def keeps_stock_def)
  next
    case False
    from lru_store.put_stocked [OF s(1,2) assms(2-5)] obtain l where
      "lru_put ?k val (gc_cache c) = Some l" "lru_implements l (spec_put ?k val s)" "stocked K V (spec_put ?k val s)"
      by blast
    with False e s(3) show ?thesis
      by (auto simp: app_operation_def gcache_put_def keeps_stock_def intro!: exI [of _ "spec_put ?k val s"])
  qed
qed

lemma elapsed_at_least_one:
  assumes "1000000000 \<le> ns" and "ns < 2 ^ 64"
  shows "\<exists>x. elapsed_seconds ns = Finite x \<and> 1 \<le> x"
proof -
  let ?n = "of_int ns :: rat"
  have n: "1000000000 \<le> ?n" "?n \<le> 2 ^ 64"
  proof -
    have "of_int 1000000000 \<le> ?n" unfolding of_int_le_iff by (rule assms(1))
    then show "1000000000 \<le> ?n" by simp
    have "?n \<le> of_int (2 ^ 64)" unfolding of_int_le_iff using assms(2) by simp
    then show "?n \<le> 2 ^ 64" by simp
  qed
  have d: "dbl_of_int ns = Finite (rnd ?n)" unfolding dbl_of_int_def using n by (intro to_double_small) simp_all
  have g: "dbl_of_int 1000000000 = Finite 1000000000" using dbl_of_int_exact [of 1000000000] by simp
  have lo: "1000000000 \<le> rnd ?n" using rnd_mono [of "of_int 1000000000" ?n] rnd_of_int [of 1000000000] n by simp
  have "rnd ?n \<le> rnd (of_int 1 * 2 powi 64)" using n by (intro rnd_mono) simp_all
  then have hi: "rnd ?n \<le> 2 ^ 64" using rnd_exact [of 1 64] by simp
  let ?q = "rnd ?n / 1000000000"
  have q: "1 \<le> ?q" "?q \<le> 2 ^ 70" using lo hi by simp_all
  then have "to_double ?q = Finite (rnd ?q)" by (intro to_double_small) simp_all
  moreover have "1 \<le> rnd ?q" using rnd_mono [of "of_int 1" ?q] rnd_of_int [of 1] q by simp
  ultimately show ?thesis by (simp add: elapsed_seconds_def d g)
qed

lemma rate_defined:
  assumes "unat n < 2 ^ 53" and "1 \<le> x"
  shows "\<exists>t. dbl_to_u64 (dbl_div (dbl_of_u64 n) (Finite x)) = Some t \<and> t \<le> n"
proof -
  have N: "int (unat n) < 2 ^ 53"
    using assms(1) unfolding of_nat_less_iff [symmetric, where 'a = int] by (simp only: of_nat_power of_nat_numeral)
  define A where "A = (of_int (int (unat n)) :: rat)"
  have "0 \<le> A" unfolding A_def by (simp only: of_int_0_le_iff of_nat_0_le_iff)
  then have "A * 1 \<le> A * x" using assms(2) by (rule mult_left_mono [rotated])
  then have "A / x \<le> A" "0 \<le> A / x" using assms(2) \<open>0 \<le> A\<close> by (simp_all add: pos_divide_le_eq)
  then obtain y where y: "to_double (A / x) = Finite y" "0 \<le> y" "y \<le> of_int (int (unat n))"
    using to_double_unit [OF _ _ of_nat_0_le_iff N, of "A / x"] unfolding A_def by blast
  show ?thesis using to_u64_below [OF y(2,3) refl N] y(1) assms(2)
    by (simp only: dbl_of_u64_exact [OF refl N] dbl_div.simps flip: A_def) auto
qed

text \<open>With an interval of at least a second a report divides by at least one, so its rate is
  defined and at most the number of operations.\<close>

lemma report_defined:
  assumes "0 < app_report_interval cfg" and "wl_last w \<le> now" and "now < wl_last w + 2 ^ 63" and "unat (wl_since w) < 2 ^ 53"
  shows "\<exists>w'. app_report cfg now w = Some w' \<and> wl_cache w' = wl_cache w \<and> wl_client w' = wl_client w \<and>
    wl_total w' = wl_total w \<and> wl_last w' \<in> {wl_last w, now} \<and> unat (wl_since w') \<le> unat (wl_since w)"
proof (cases "app_report_interval cfg \<le> word_of_int ((now - wl_last w) div 1000000000)")
  case True
  then have "(word_of_int ((now - wl_last w) div 1000000000) :: u64) \<noteq> 0" using assms(1) by auto
  then have "(now - wl_last w) div 1000000000 \<noteq> 0" by (metis of_int_0)
  moreover have "0 \<le> (now - wl_last w) div 1000000000" using assms(2) by (simp add: pos_imp_zdiv_nonneg_iff)
  ultimately have "1000000000 \<le> now - wl_last w" by linarith
  then obtain x where x: "elapsed_seconds (now - wl_last w) = Finite x" "1 \<le> x"
    using elapsed_at_least_one [of "now - wl_last w"] assms(3) by auto
  from rate_defined [OF assms(4) x(2)] True x(1) show ?thesis by (auto simp: app_report_def Let_def)
next
  case False
  then show ?thesis by (simp add: app_report_def Let_def)
qed

lemma throttle_select [simp]:
  "wl_cache (app_throttle cfg i w) = wl_cache w" "wl_client (app_throttle cfg i w) = wl_client w"
  "wl_total (app_throttle cfg i w) = wl_total w" "wl_last (app_throttle cfg i w) = wl_last w"
  "wl_since (app_throttle cfg i w) = wl_since w"
  by (simp_all add: app_throttle_def Let_def)

subsection \<open>A run never fails\<close>

text \<open>What a round may rely on: writes that take whole frames, a draw the distribution can make,
  and a clock of 64 bits.\<close>

definition good_input :: "int \<Rightarrow> u64 \<Rightarrow> op_input \<Rightarrow> bool" where
  "good_input start n i \<longleftrightarrow> list_all (takes_frames \<circ> snd) (op_before i @ op_after i) \<and>
     (op_draw i < n \<or> op_draw i = 0) \<and> start \<le> op_now i \<and> op_now i < start + 2 ^ 63"

definition app_keys :: "u64 \<Rightarrow> string set" where
  "app_keys n = (\<lambda>j. app_key (of_nat j)) ` {1..max 1 (unat n)}"

lemma app_keys_card: "finite (app_keys n)" "card (app_keys n) \<le> max 1 (unat n)" "card (app_keys n) < 2 ^ 64"
proof -
  show "finite (app_keys n)" by (simp add: app_keys_def)
  have "card (app_keys n) \<le> card {1..max 1 (unat n)}" unfolding app_keys_def by (rule card_image_le) simp
  then show c: "card (app_keys n) \<le> max 1 (unat n)" by simp
  have "max 1 (unat n) < 2 ^ 64" by (simp only: max_less_iff_conj unat_lt_u64) simp
  with c show "card (app_keys n) < 2 ^ 64" by linarith
qed

lemma draw_in_keys:
  assumes "draw < n \<or> draw = 0"
  shows "app_key (zipf_next draw) \<in> app_keys n"
proof -
  have "unat draw + 1 \<le> max 1 (unat n)" using assms by (auto simp: word_less_nat_alt)
  then have "app_key (of_nat (unat draw + 1)) \<in> app_keys n" unfolding app_keys_def by (intro imageI) simp
  then show ?thesis by (simp add: zipf_next_def add.commute)
qed

lemma step_keeps_stock:
  assumes "keeps_stock (app_keys n) {val} e N (wl_cache w)" and "e \<noteq> 0" and "0 < app_report_interval cfg"
    and "good_input start n i" and "start \<le> wl_last w" and "wl_last w \<le> op_now i" and "unat (wl_since w) + 1 < 2 ^ 53"
  shows "\<exists>w'. app_step cfg val pid i w = Done w' \<and>
    keeps_stock (app_keys n) {val} e (if is_read (op_coin i) then N + 1 else N) (wl_cache w') \<and>
    wl_total w' = wl_total w + 1 \<and> wl_last w' \<in> {wl_last w, op_now i} \<and> unat (wl_since w') \<le> unat (wl_since w) + 1"
proof -
  let ?N = "if is_read (op_coin i) then N + 1 else N"
  have io: "list_all (takes_frames \<circ> snd) (op_before i)" "list_all (takes_frames \<circ> snd) (op_after i)"
    "op_draw i < n \<or> op_draw i = 0" "op_now i < start + 2 ^ 63" using assms(4) by (auto simp: good_input_def)
  obtain c1 g1 where 1: "run_commands pid (op_before i) (wl_cache w, wl_client w) = Done (c1, g1)"
    "keeps_stock (app_keys n) {val} e N c1"
    using commands_keep_stock [OF assms(1,2) io(1)] by blast
  obtain c2 where 2: "app_operation val i c1 = Some c2" "keeps_stock (app_keys n) {val} e ?N c2"
    using operation_keeps_stock [OF 1(2) app_keys_card(1,3) draw_in_keys [OF io(3)], of val] by auto
  obtain c3 g3 where 3: "run_commands pid (op_after i) (c2, g1) = Done (c3, g3)" "keeps_stock (app_keys n) {val} e ?N c3"
    using commands_keep_stock [OF 2(2) assms(2) io(2)] by blast
  let ?w = "w\<lparr>wl_cache := c3, wl_client := g3, wl_since := wl_since w + 1, wl_total := wl_total w + 1\<rparr>"
  have u: "unat (wl_since w + 1) = unat (wl_since w) + 1" using assms(7) unat_Suc_u64 [of "wl_since w"] by simp
  have "\<exists>w'. app_report cfg (op_now i) ?w = Some w' \<and> wl_cache w' = wl_cache ?w \<and> wl_client w' = wl_client ?w \<and>
    wl_total w' = wl_total ?w \<and> wl_last w' \<in> {wl_last ?w, op_now i} \<and> unat (wl_since w') \<le> unat (wl_since ?w)"
    by (rule report_defined) (use assms(3,5,6,7) io(4) u in simp_all)
  then show ?thesis using 1(1) 2(1) 3 u by (auto simp: app_step_def)
qed

abbreviation rounds_done :: "int \<Rightarrow> op_input list \<Rightarrow> op_input list" where
  "rounds_done deadline is \<equiv> takeWhile (\<lambda>i. op_test i < deadline) is"

lemma loop_keeps_stock:
  assumes "keeps_stock (app_keys n) {val} e N (wl_cache w)" and "e \<noteq> 0" and "0 < app_report_interval cfg"
    and "list_all (good_input start n) is" and "sorted (map op_now is)"
    and "start \<le> wl_last w" and "list_all (\<lambda>i. wl_last w \<le> op_now i) is" and "unat (wl_since w) + length is < 2 ^ 53"
  shows "\<exists>w'. app_loop cfg val pid deadline is w = Done w' \<and>
    keeps_stock (app_keys n) {val} e (N + of_nat (length (filter (\<lambda>i. is_read (op_coin i)) (rounds_done deadline is)))) (wl_cache w') \<and>
    wl_total w' = wl_total w + of_nat (length (rounds_done deadline is))"
  using assms
proof (induction "is" arbitrary: w N)
  case (Cons i "is")
  show ?case
  proof (cases "deadline \<le> op_test i")
    case False
    have "\<exists>w'. app_step cfg val pid i w = Done w' \<and>
      keeps_stock (app_keys n) {val} e (if is_read (op_coin i) then N + 1 else N) (wl_cache w') \<and>
      wl_total w' = wl_total w + 1 \<and> wl_last w' \<in> {wl_last w, op_now i} \<and> unat (wl_since w') \<le> unat (wl_since w) + 1"
      by (rule step_keeps_stock [OF Cons.prems(1-3)]) (use Cons.prems in simp_all)
    then obtain w1 where w1: "app_step cfg val pid i w = Done w1"
      "keeps_stock (app_keys n) {val} e (if is_read (op_coin i) then N + 1 else N) (wl_cache w1)"
      "wl_total w1 = wl_total w + 1" "wl_last w1 \<in> {wl_last w, op_now i}" "unat (wl_since w1) \<le> unat (wl_since w) + 1"
      by blast
    have "start \<le> wl_last w1" "list_all (\<lambda>i. wl_last w1 \<le> op_now i) is" "unat (wl_since w1) + length is < 2 ^ 53"
      using Cons.prems w1(4,5) by (auto simp: list_all_iff good_input_def)
    with Cons.IH [OF w1(2) Cons.prems(2,3)] Cons.prems(4,5) obtain w2 where
      "app_loop cfg val pid deadline is w1 = Done w2"
      "keeps_stock (app_keys n) {val} e ((if is_read (op_coin i) then N + 1 else N) +
         of_nat (length (filter (\<lambda>i. is_read (op_coin i)) (rounds_done deadline is)))) (wl_cache w2)"
      "wl_total w2 = wl_total w1 + of_nat (length (rounds_done deadline is))" by auto
    with False w1(1,3) show ?thesis by (cases "is_read (op_coin i)") (auto simp: algebra_simps)
  qed (use Cons.prems(1) in simp)
qed simp

lemma start_keeps_stock:
  assumes "gcache_start pid a ws (gcache_new cap e) = Done cg"
  shows "keeps_stock K V e 0 (wl_cache (app_begin start cg))"
proof -
  have "fst cg = fst (gcache_new cap e)"
    using assms by (auto simp: gcache_start_def gcache_new_def Let_def split: prod.splits if_splits)
  then have "wl_cache (app_begin start cg) = \<lparr>gc_cache = lru_new cap, entry_bytes = e\<rparr>"
    by (simp add: app_begin_def gcache_new_def case_prod_beta)
  moreover have "lru_implements (lru_new cap) (spec_new cap)" by (rule implements_new)
  moreover have "hits (spec_new cap) + misses (spec_new cap) = 0" by (simp add: spec_new_def)
  ultimately show ?thesis by (auto simp: keeps_stock_def intro!: exI [of _ "spec_new cap"] stocked_new)
qed

lemma workload_run:
  assumes "gcache_start pid a ws (gcache_new cap (app_entry_size cfg)) = Done cg"
    and "app_entry_size cfg \<noteq> 0" and "0 < app_report_interval cfg"
    and "list_all (good_input start (app_key_space cfg)) is" and "sorted (map op_now is)" and "length is < 2 ^ 53"
  shows "\<exists>w s. app_loop cfg val pid deadline is (app_begin start cg) = Done w \<and>
    lru_implements (gc_cache (wl_cache w)) s \<and> set (items s) \<subseteq> app_keys (app_key_space cfg) \<times> {val} \<and>
    unat (lru_size (gc_cache (wl_cache w))) \<le> max 1 (unat (app_key_space cfg)) \<and>
    hits s + misses s = of_nat (length (filter (\<lambda>i. is_read (op_coin i)) (rounds_done deadline is))) \<and>
    wl_total w = of_nat (length (rounds_done deadline is))"
proof -
  let ?w = "app_begin start cg"
  have w: "wl_last ?w = start" "wl_since ?w = 0" "wl_total ?w = 0" by (simp_all add: app_begin_def case_prod_beta)
  have "\<exists>w'. app_loop cfg val pid deadline is ?w = Done w' \<and>
    keeps_stock (app_keys (app_key_space cfg)) {val} (app_entry_size cfg)
      (0 + of_nat (length (filter (\<lambda>i. is_read (op_coin i)) (rounds_done deadline is)))) (wl_cache w') \<and>
    wl_total w' = wl_total ?w + of_nat (length (rounds_done deadline is))"
    by (rule loop_keeps_stock [OF start_keeps_stock [OF assms(1)] assms(2-5)])
      (use assms(4,6) w in \<open>auto simp: list_all_iff good_input_def\<close>)
  then obtain w' s where r: "app_loop cfg val pid deadline is ?w = Done w'"
    "wl_total w' = of_nat (length (rounds_done deadline is))"
    and s: "lru_implements (gc_cache (wl_cache w')) s" "stocked (app_keys (app_key_space cfg)) {val} s"
      "hits s + misses s = of_nat (length (filter (\<lambda>i. is_read (op_coin i)) (rounds_done deadline is)))"
    by (auto simp: keeps_stock_def w)
  have "unat (lru_size (gc_cache (wl_cache w'))) \<le> max 1 (unat (app_key_space cfg))"
    using implements_size [OF s(1)] stocked_length [OF s(2) app_keys_card(1)] app_keys_card(2) [of "app_key_space cfg"]
    by linarith
  with r s show ?thesis by (auto simp: stocked_def)
qed


lemma start_done:
  assumes "takes_frames ws"
  shows "\<exists>cg. gcache_start pid a ws (gcache_new cap e) = Done cg"
proof -
  let ?g = "snd (gcache_new cap e)" and ?c = "fst (gcache_new cap e)"
  obtain ok g1 where g1: "client_connect a ?g = (ok, g1)" by fastforce
  show ?thesis
  proof (cases "ok \<and> connected g1")
    case True
    then show ?thesis using g1 send_message_complete [OF _ assms, of g1]
      by (simp add: gcache_start_def case_prod_beta register_cache_def)
  next
    case False
    then show ?thesis using g1
      by (simp add: gcache_start_def case_prod_beta register_cache_def send_message_def Let_def)
  qed
qed

lemma stopped_twice:
  "gcache_stop (gcache_stop (c, g)) = (c', g') \<Longrightarrow>
   c' = c \<and> \<not> connected g' \<and> \<not> listening g' \<and> sock_fd g' = - 1"
proof -
  have d: "\<not> connected (client_disconnect g) \<and> sock_fd (client_disconnect g) = - 1 \<and>
      listening (client_disconnect g) = listening g" for g
    by (simp add: client_disconnect_def)
  have l: "\<not> listening (stop_listening g)" for g by (simp add: stop_listening_def)
  assume "gcache_stop (gcache_stop (c, g)) = (c', g')"
  then show ?thesis using d l by (auto simp: gcache_stop_def)
qed


text \<open>C38: Two options are not checked. With an entry size of zero the first command that arrives divides
  by zero; with a report interval of zero a first operation that ends within the clock tick in which
  the loop started makes the rate infinite, whose conversion to an integer is undefined.\<close>

theorem zero_options_break:
  assumes "gcache_start pid a ws (gcache_new cap e) = Done cg" and "op_test i < deadline"
    and "e = 0 \<and> op_before i \<noteq> [] \<or>
      app_report_interval cfg = 0 \<and> op_before i = [] \<and> op_after i = [] \<and> op_now i = start"
  shows "app_loop cfg val pid deadline (i # is) (app_begin start cg) = Breaks"
proof -
  let ?w = "app_begin start cg" and ?K = "{app_key (zipf_next (op_draw i))}"
  have k: "keeps_stock ?K {val} e 0 (wl_cache ?w)" using assms(1) by (rule start_keeps_stock)
  from assms(3) show ?thesis
  proof
    assume z: "e = 0 \<and> op_before i \<noteq> []"
    then obtain cb ws' xs where "op_before i = (cb, ws') # xs" by (cases "op_before i") auto
    moreover have "entry_bytes (wl_cache ?w) = 0" using k z by (simp add: keeps_stock_def)
    ultimately show ?thesis using assms(2)
      by (cases cb) (simp_all add: app_step_def gcache_handler_def handle_shrink_def handle_grow_def)
  next
    assume z: "app_report_interval cfg = 0 \<and> op_before i = [] \<and> op_after i = [] \<and> op_now i = start"
    obtain c where c: "app_operation val i (wl_cache ?w) = Some c" using operation_keeps_stock [OF k] by auto
    have w: "wl_last ?w = start" "wl_since ?w = 0" by (simp_all add: app_begin_def case_prod_beta)
    have "elapsed_seconds 0 = Finite 0" "dbl_of_u64 1 = Finite 1"
      using dbl_of_int_exact [of 0] dbl_of_int_exact [of 1000000000] dbl_of_u64_exact [of 1 1]
      by (simp_all add: elapsed_seconds_def to_double_def)
    then show ?thesis using z c w assms(2) by (simp add: app_step_def app_report_def dbl_to_u64_def)
  qed
qed

subsection \<open>Witnesses\<close>

definition sample_round :: "int \<Rightarrow> u64 \<Rightarrow> double \<Rightarrow> op_input" where
  "sample_round t draw coin = \<lparr>op_test = t, op_begin = t, op_before = [(OnShrink 300, [Wrote 200])], op_draw = draw,
     op_coin = coin, op_now = t + 5, op_after = [], op_end = t + 5\<rparr>"

lemma sample_start:
  "\<exists>cg. gcache_start 42 (Established 9 []) [Wrote 200] (gcache_new 4 n) = Done cg"
  using start_new_cache [OF one_write] by blast


theorem zero_options_break_witness:
  "\<exists>cg. gcache_start 42 (Established 9 []) [Wrote 200] (gcache_new 4 0) = Done cg \<and>
    app_loop app_default ''xyz'' 42 1000 [sample_round 0 7 (Finite (9 / 10))] (app_begin 0 cg) = Breaks"
proof -
  obtain cg where "gcache_start 42 (Established 9 []) [Wrote 200] (gcache_new 4 0) = Done cg"
    using sample_start by blast
  with zero_options_break [OF this] show ?thesis by (auto simp: sample_round_def)
qed


end
