(* ===== verification/Pressure_Gen.thy ===== *)
theory Pressure_Gen
  imports Cpp_Strings
begin

text \<open>
  \<open>src/pressure_gen/main.cpp\<close>: the program that allocates memory in a chosen shape. The clock,
  the results of \<open>malloc\<close> and the moment of the signal are inputs, the sine of the C library
  is a parameter. Blocks are numbered in the order they are allocated.
\<close>

record pg_config =
  mode :: string
  max_mb :: u64
  duration :: int
  ramp_time :: int
  hold_time :: int
  release_time :: int
  wave_period :: int
  touch_pages :: bool

definition pg_default :: pg_config where
  "pg_default = \<lparr>mode = ''ramp'', max_mb = 512, duration = 30, ramp_time = 10, hold_time = 10,
     release_time = 10, wave_period = 20, touch_pages = True\<rparr>"

datatype pg_cli = PgRun pg_config | PgExit int | PgUncaught cpp_exception

definition int_option :: "string \<Rightarrow> (int \<Rightarrow> pg_config) \<Rightarrow> (pg_config \<Rightarrow> pg_cli) \<Rightarrow> pg_cli" where
  "int_option s upd k = (case stoi s of Inl e \<Rightarrow> PgUncaught e | Inr i \<Rightarrow> k (upd i))"

text \<open>An option at the end without its value falls through to the unknown arguments.\<close>

function pg_args :: "string list \<Rightarrow> pg_config \<Rightarrow> pg_cli" where
  "pg_args [] c = PgRun c"
| "pg_args (arg # rest) c =
     (if arg = ''--mode'' \<and> rest \<noteq> [] then pg_args (tl rest) (c\<lparr>mode := hd rest\<rparr>)
      else if arg = ''--max-mb'' \<and> rest \<noteq> []
      then (case stoull (hd rest) of Inl e \<Rightarrow> PgUncaught e | Inr n \<Rightarrow> pg_args (tl rest) (c\<lparr>max_mb := n\<rparr>))
      else if arg = ''--duration'' \<and> rest \<noteq> []
      then int_option (hd rest) (\<lambda>i. c\<lparr>duration := i\<rparr>) (\<lambda>c'. pg_args (tl rest) c')
      else if arg = ''--ramp-time'' \<and> rest \<noteq> []
      then int_option (hd rest) (\<lambda>i. c\<lparr>ramp_time := i\<rparr>) (\<lambda>c'. pg_args (tl rest) c')
      else if arg = ''--hold-time'' \<and> rest \<noteq> []
      then int_option (hd rest) (\<lambda>i. c\<lparr>hold_time := i\<rparr>) (\<lambda>c'. pg_args (tl rest) c')
      else if arg = ''--release-time'' \<and> rest \<noteq> []
      then int_option (hd rest) (\<lambda>i. c\<lparr>release_time := i\<rparr>) (\<lambda>c'. pg_args (tl rest) c')
      else if arg = ''--wave-period'' \<and> rest \<noteq> []
      then int_option (hd rest) (\<lambda>i. c\<lparr>wave_period := i\<rparr>) (\<lambda>c'. pg_args (tl rest) c')
      else if arg = ''--touch-pages'' \<and> rest \<noteq> []
      then pg_args (tl rest) (c\<lparr>touch_pages := (hd rest = ''true'')\<rparr>)
      else if arg = ''--help'' then PgExit 0
      else PgExit 1)"
  by pat_completeness auto
termination
  by (relation "measure (length \<circ> fst)") (auto simp: less_Suc_eq_le)

declare pg_args.simps(2) [simp del]

lemma pg_args_mode: "pg_args (''--mode'' # v # rest) c = pg_args rest (c\<lparr>mode := v\<rparr>)"
  by (subst pg_args.simps) simp

lemma pg_args_max_mb:
  "stoull v = Inr n \<Longrightarrow> pg_args (''--max-mb'' # v # rest) c = pg_args rest (c\<lparr>max_mb := n\<rparr>)"
  by (subst pg_args.simps) simp

subsection \<open>Blocks\<close>

record pg_state =
  blocks :: "nat list"
  current_mb :: u64
  next_block :: nat
  freed :: "nat list"

definition pg_start :: pg_state where
  "pg_start = \<lparr>blocks = [], current_mb = 0, next_block = 0, freed = []\<rparr>"

text \<open>The first loop of \<open>allocate_to\<close>: one result of \<open>malloc\<close> per round; when the list is used up
  the signal has come. The last element of the vector is the head of the list.\<close>

fun allocate_up :: "u64 \<Rightarrow> bool list \<Rightarrow> pg_state \<Rightarrow> pg_state" where
  "allocate_up t [] s = s"
| "allocate_up t (ok # oks) s =
     (if current_mb s < t
      then if ok
           then allocate_up t oks (s\<lparr>blocks := next_block s # blocks s, next_block := Suc (next_block s),
                  current_mb := current_mb s + 1\<rparr>)
           else s
      else s)"

function free_down :: "u64 \<Rightarrow> pg_state \<Rightarrow> pg_state" where
  "free_down t s =
     (if t < current_mb s \<and> blocks s \<noteq> []
      then free_down t (s\<lparr>blocks := tl (blocks s), freed := hd (blocks s) # freed s, current_mb := current_mb s - 1\<rparr>)
      else s)"
  by pat_completeness auto
termination
  by (relation "measure (\<lambda>(t, s). length (blocks s))") auto

declare free_down.simps [simp del]

definition allocate_to :: "u64 \<Rightarrow> bool list \<Rightarrow> pg_state \<Rightarrow> pg_state" where
  "allocate_to t oks s = free_down t (allocate_up t oks s)"

subsection \<open>The target\<close>

definition int_add :: "int \<Rightarrow> int \<Rightarrow> int option" where
  "int_add a b = (if - 2147483648 \<le> a + b \<and> a + b \<le> 2147483647 then Some (a + b) else None)"

definition ramp_up_target :: "pg_config \<Rightarrow> double \<Rightarrow> u64 option" where
  "ramp_up_target c elapsed = dbl_to_u64 (dbl_mul (dbl_div elapsed (dbl_of_int (ramp_time c))) (dbl_of_u64 (max_mb c)))"

definition release_target :: "pg_config \<Rightarrow> double \<Rightarrow> u64 option" where
  "release_target c elapsed =
     (let release_elapsed = dbl_sub (dbl_sub elapsed (dbl_of_int (ramp_time c))) (dbl_of_int (hold_time c))
      in dbl_to_u64 (dbl_sub (dbl_of_u64 (max_mb c))
           (dbl_mul (dbl_div release_elapsed (dbl_of_int (release_time c))) (dbl_of_u64 (max_mb c)))))"

text \<open>\<open>M_PI\<close> is the double nearest to pi.\<close>

definition pi_double :: double where
  "pi_double = Finite (884279719003555 / 281474976710656)"

definition wave_target :: "(double \<Rightarrow> double) \<Rightarrow> pg_config \<Rightarrow> double \<Rightarrow> u64 option" where
  "wave_target sine c elapsed =
     (let phase = dbl_mul (dbl_mul (dbl_div elapsed (dbl_of_int (wave_period c))) (Finite 2)) pi_double;
          s = sine (dbl_sub phase (dbl_div pi_double (Finite 2)))
      in dbl_to_u64 (dbl_mul (dbl_div (dbl_add s (Finite 1)) (Finite 2)) (dbl_of_u64 (max_mb c))))"

definition target_mb :: "(double \<Rightarrow> double) \<Rightarrow> pg_config \<Rightarrow> double \<Rightarrow> u64 option" where
  "target_mb sine c elapsed =
     (if mode c = ''ramp''
      then if elapsed < dbl_of_int (ramp_time c) then ramp_up_target c elapsed
           else do {
             rh \<leftarrow> int_add (ramp_time c) (hold_time c);
             if elapsed < dbl_of_int rh then Some (max_mb c)
             else do {
               rhl \<leftarrow> int_add rh (release_time c);
               if elapsed < dbl_of_int rhl then release_target c elapsed else Some 0
             }
           }
      else if mode c = ''spike''
      then Some (if elapsed < dbl_of_int (hold_time c) then max_mb c else 0)
      else if mode c = ''wave'' then wave_target sine c elapsed
      else if mode c = ''hold'' then Some (max_mb c)
      else Some 0)"

subsection \<open>The program\<close>

text \<open>One round per second: the elapsed time, and the results of \<open>malloc\<close> before a signal. The
  end of the list is the signal.\<close>

fun pressure_loop :: "(double \<Rightarrow> double) \<Rightarrow> pg_config \<Rightarrow> (double \<times> bool list) list \<Rightarrow> pg_state \<Rightarrow> pg_state option" where
  "pressure_loop sine c [] s = Some s"
| "pressure_loop sine c ((elapsed, oks) # rounds) s =
     (if dbl_of_int (duration c) \<le> elapsed then Some s
      else do {
        t \<leftarrow> target_mb sine c elapsed;
        pressure_loop sine c rounds (allocate_to t oks s)
      })"

definition pressure_main :: "(double \<Rightarrow> double) \<Rightarrow> string list \<Rightarrow> (double \<times> bool list) list \<Rightarrow>
    cpp_exception + (int \<times> pg_state) option" where
  "pressure_main sine args rounds = (case pg_args args pg_default of
     PgUncaught e \<Rightarrow> Inl e
   | PgExit n \<Rightarrow> Inr (Some (n, pg_start))
   | PgRun c \<Rightarrow> Inr (map_option (\<lambda>s. (0, allocate_to 0 [] s)) (pressure_loop sine c rounds pg_start)))"

subsection \<open>Every block is freed\<close>

definition blocks_ok :: "pg_state \<Rightarrow> bool" where
  "blocks_ok s \<longleftrightarrow> unat (current_mb s) = length (blocks s) \<and> distinct (blocks s @ freed s) \<and>
     set (blocks s @ freed s) = {0..<next_block s}"

lemma blocks_count: "blocks_ok s \<Longrightarrow> next_block s = length (blocks s) + length (freed s)"
  unfolding blocks_ok_def by (metis card_atLeastLessThan diff_zero distinct_card length_append)

lemma allocate_up_ok:
  "blocks_ok s \<Longrightarrow> next_block s + length oks < 2 ^ 64 \<Longrightarrow>
   blocks_ok (allocate_up t oks s) \<and> next_block (allocate_up t oks s) \<le> next_block s + length oks"
proof (induction t oks s rule: allocate_up.induct)
  case (1 t s)
  then show ?case by simp
next
  case (2 t ok oks s)
  let ?s = "s\<lparr>blocks := next_block s # blocks s, next_block := Suc (next_block s), current_mb := current_mb s + 1\<rparr>"
  show ?case
  proof (cases "current_mb s < t \<and> ok")
    case True
    have "unat (current_mb s) + 1 < 2 ^ 64"
      using "2.prems" blocks_count [OF "2.prems"(1)] by (simp add: blocks_ok_def)
    then have "unat (current_mb s + 1) = Suc (length (blocks s))"
      using "2.prems"(1) unat_Suc_u64 by (simp add: blocks_ok_def)
    then have "blocks_ok ?s"
      using "2.prems"(1) by (auto simp: blocks_ok_def atLeastLessThanSuc)
    with 2 True show ?thesis by simp
  next
    case False
    with "2.prems" show ?thesis by auto
  qed
qed

lemma free_down_ok:
  "blocks_ok s \<Longrightarrow> blocks_ok (free_down t s) \<and> next_block (free_down t s) = next_block s \<and>
     current_mb (free_down t s) \<le> t"
proof (induction t s rule: free_down.induct)
  case (1 t s)
  let ?s = "s\<lparr>blocks := tl (blocks s), freed := hd (blocks s) # freed s, current_mb := current_mb s - 1\<rparr>"
  show ?case
  proof (cases "t < current_mb s \<and> blocks s \<noteq> []")
    case True
    then obtain b bs where b: "blocks s = b # bs" by (cases "blocks s") auto
    then have "unat (current_mb s - 1) = length bs"
      using "1.prems" unat_pred_u64 [of "current_mb s"] by (simp add: blocks_ok_def)
    then have "blocks_ok ?s" using "1.prems" b by (auto simp: blocks_ok_def)
    with 1 True show ?thesis by (subst (1 2 3) free_down.simps) simp
  next
    case False
    have "current_mb s \<le> t"
    proof (cases "blocks s = []")
      case True
      then have "current_mb s = 0" using "1.prems" by (simp add: blocks_ok_def unat_eq_0)
      then show ?thesis by simp
    next
      case nonempty: False
      with False show ?thesis by simp
    qed
    with False "1.prems" show ?thesis by (subst (1 2 3) free_down.simps) auto
  qed
qed

lemma allocate_to_ok:
  "blocks_ok s \<Longrightarrow> next_block s + length oks < 2 ^ 64 \<Longrightarrow>
   blocks_ok (allocate_to t oks s) \<and> next_block (allocate_to t oks s) \<le> next_block s + length oks \<and>
   current_mb (allocate_to t oks s) \<le> t"
  using allocate_up_ok [of s oks t] free_down_ok [of "allocate_up t oks s" t]
  by (simp add: allocate_to_def)

lemma pressure_loop_ok:
  "blocks_ok s \<Longrightarrow> next_block s + sum_list (map (length \<circ> snd) rounds) < 2 ^ 64 \<Longrightarrow>
   pressure_loop sine c rounds s = Some s' \<Longrightarrow> blocks_ok s' \<and> next_block s' < 2 ^ 64"
proof (induction sine c rounds s rule: pressure_loop.induct)
  case (1 sine c s)
  then show ?case by simp
next
  case (2 sine c elapsed oks rounds s)
  show ?case
  proof (cases "dbl_of_int (duration c) \<le> elapsed")
    case True
    with "2.prems" show ?thesis by simp
  next
    case False
    with "2.prems"(3) obtain t where t: "target_mb sine c elapsed = Some t"
      "pressure_loop sine c rounds (allocate_to t oks s) = Some s'"
      by (cases "target_mb sine c elapsed") auto
    have "next_block s + length oks < 2 ^ 64" using "2.prems"(2) by simp
    from allocate_to_ok [OF "2.prems"(1) this, of t] "2.prems"(2) t
    show ?thesis by (intro "2.IH" [OF False t(1)]) auto
  qed
qed

text \<open>C39: The generator frees what it allocates. For any arguments, any clock, any results of
  \<open>malloc\<close> (fewer than \<open>2^64\<close> calls) and any moment of the signal, a run that ends normally has
  no block left, and has freed every block it ever got exactly once.\<close>

theorem pressure_frees_all:
  assumes "sum_list (map (length \<circ> snd) rounds) < 2 ^ 64"
    and "pressure_main sine args rounds = Inr (Some (n, s))"
  shows "blocks s = [] \<and> current_mb s = 0 \<and> distinct (freed s) \<and> set (freed s) = {0..<next_block s}"
proof -
  have start: "blocks_ok pg_start" by (simp add: blocks_ok_def pg_start_def)
  show ?thesis
  proof (cases "pg_args args pg_default")
    case (PgRun c)
    with assms(2) obtain s1 where s1: "pressure_loop sine c rounds pg_start = Some s1"
      and s: "s = allocate_to 0 [] s1" by (auto simp: pressure_main_def)
    have "blocks_ok s1" "next_block s1 < 2 ^ 64"
      using pressure_loop_ok [OF start _ s1] assms(1) by (simp_all add: pg_start_def)
    with allocate_to_ok [of s1 "[]" 0] have "blocks_ok s" "current_mb s \<le> 0" by (simp_all add: s)
    then show ?thesis by (auto simp: blocks_ok_def)
  next
    case (PgExit m)
    with assms(2) show ?thesis by (auto simp: pressure_main_def pg_start_def)
  next
    case (PgUncaught e)
    with assms(2) show ?thesis by (simp add: pressure_main_def)
  qed
qed

theorem pressure_frees_all_witness:
  "\<exists>s. pressure_main (\<lambda>x. x) [''--mode'', ''hold'', ''--max-mb'', ''2''] [(Finite 0, [True, True, True])] = Inr (Some (0, s)) \<and>
    blocks s = [] \<and> current_mb s = 0 \<and> distinct (freed s) \<and> set (freed s) = {0..<2}"
proof -
  have args: "pg_args [''--mode'', ''hold'', ''--max-mb'', ''2''] pg_default =
      PgRun (pg_default\<lparr>mode := ''hold'', max_mb := 2\<rparr>)"
  proof -
    have "nat_str 2 = ''2''" by code_simp
    then have "stoull ''2'' = Inr 2" using stoull_nat_str [of 2 "[]"] by simp
    then show ?thesis by (simp add: pg_args_mode pg_args_max_mb)
  qed
  have dur: "\<not> dbl_of_int (duration pg_default) \<le> Finite 0" by code_simp
  obtain s where run: "pressure_main (\<lambda>x. x) [''--mode'', ''hold'', ''--max-mb'', ''2''] [(Finite 0, [True, True, True])] =
      Inr (Some (0, s))" and n: "next_block s = 2"
    using dur by (simp add: pressure_main_def args target_mb_def allocate_to_def free_down.simps pg_start_def)
  from pressure_frees_all [OF _ run] n run show ?thesis by auto
qed

subsection \<open>The target is never out of range\<close>

lemma ramp_up_range:
  assumes "0 \<le> q" and "q < of_int (ramp_time c)" and "ramp_time c < 2 ^ 53"
    and N: "int (unat (max_mb c)) = N" "N < 2 ^ 53"
  shows "\<exists>t. ramp_up_target c (Finite q) = Some t \<and> t \<le> max_mb c"
proof -
  have r: "0 < ramp_time c" using assms(1,2) by (metis le_less_trans of_int_0_less_iff)
  then have "0 \<le> q / of_int (ramp_time c)" "q / of_int (ramp_time c) \<le> of_int 1" using assms(1,2) by simp_all
  from to_double_unit [OF this] obtain x where x: "to_double (q / of_int (ramp_time c)) = Finite x" "0 \<le> x" "x \<le> 1"
    by auto
  obtain p where p: "dbl_mul (Finite x) (dbl_of_u64 (max_mb c)) = Finite p" "0 \<le> p" "p \<le> of_int N"
    using scaled_product [OF x(2,3) N] by blast
  show ?thesis using to_u64_below [OF p(2,3) N] r assms(3) x(1) p(1)
    by (simp add: ramp_up_target_def dbl_of_int_exact)
qed

lemma release_range:
  assumes "0 \<le> ramp_time c" and "0 \<le> hold_time c"
    and "of_int (ramp_time c + hold_time c) \<le> q"
    and "q < of_int (ramp_time c + hold_time c + release_time c)"
    and "ramp_time c + hold_time c + release_time c < 2 ^ 53"
    and N: "int (unat (max_mb c)) = N" "N < 2 ^ 53"
  shows "\<exists>t. release_target c (Finite q) = Some t \<and> t \<le> max_mb c"
proof -
  let ?R = "ramp_time c" and ?H = "hold_time c" and ?L = "release_time c"
  have "(of_int (?R + ?H) :: rat) < of_int (?R + ?H + ?L)" using assms(3,4) by (rule le_less_trans)
  then have L: "0 < ?L" unfolding of_int_less_iff by simp
  then have small: "\<bar>?R\<bar> < 2 ^ 53" "\<bar>?H\<bar> < 2 ^ 53" "\<bar>?L\<bar> < 2 ^ 53" "?H + ?L < 2 ^ 53" using assms(1,2,5) by linarith+
  have "0 \<le> q - of_int ?R" "q - of_int ?R \<le> of_int (?H + ?L)" using assms(2-4) by simp_all
  moreover have "(of_int ?H :: rat) \<le> q - of_int ?R" using assms(3) by simp
  ultimately have a: "to_double (q - of_int ?R) = Finite (rnd (q - of_int ?R))"
    "of_int ?H \<le> rnd (q - of_int ?R)" "rnd (q - of_int ?R) \<le> of_int (?H + ?L)"
    using to_double_unit [of "q - of_int ?R" "?H + ?L"] small assms(2) L
      rnd_mono [of "of_int ?H" "q - of_int ?R"] rnd_of_int [of ?H]
      rnd_mono [of "q - of_int ?R" "of_int (?H + ?L)"] rnd_of_int [of "?H + ?L"]
    by (auto simp: to_double_def Let_def split: if_splits)
  let ?a = "rnd (q - of_int ?R)"
  have "0 \<le> ?a - of_int ?H" "?a - of_int ?H \<le> of_int ?L" using a(2,3) by simp_all
  from to_double_unit [OF this] obtain b where b: "to_double (?a - of_int ?H) = Finite b" "0 \<le> b" "b \<le> of_int ?L"
    using L small by auto
  have "0 \<le> b / of_int ?L" "b / of_int ?L \<le> of_int 1" using b L by simp_all
  from to_double_unit [OF this] obtain x where x: "to_double (b / of_int ?L) = Finite x" "0 \<le> x" "x \<le> 1" by auto
  obtain p where p: "dbl_mul (Finite x) (dbl_of_u64 (max_mb c)) = Finite p" "0 \<le> p" "p \<le> of_int N"
    using scaled_product [OF x(2,3) N] by blast
  have "0 \<le> of_int N - p" "of_int N - p \<le> of_int N"
    using p by simp_all
  from to_double_unit [OF this] obtain d where d: "to_double (of_int N - p) = Finite d"
    "0 \<le> d" "d \<le> of_int N" using N by auto
  have "dbl_sub (dbl_sub (Finite q) (dbl_of_int ?R)) (dbl_of_int ?H) = Finite b"
    using a(1) b(1) small by (simp add: dbl_sub_def dbl_of_int_exact)
  moreover have "dbl_div (Finite b) (dbl_of_int ?L) = Finite x" using x(1) L small by (simp add: dbl_of_int_exact)
  moreover have "dbl_sub (dbl_of_u64 (max_mb c)) (Finite p) = Finite d"
    using d(1) by (simp add: dbl_sub_def dbl_of_u64_exact [OF N])
  ultimately show ?thesis using to_u64_below [OF d(2,3) N] p(1) by (simp add: release_target_def Let_def)
qed



end
