(* ===== verification/Unit_Tests.thy ===== *)
theory Unit_Tests
  imports Governed_Cache Policy_Runs Psi_Parser
begin

text \<open>
  The unit tests of the repository (\<open>tests/test_lru_cache.cpp\<close>, \<open>tests/test_policy_engine.cpp\<close>,
  \<open>tests/test_psi_parser.cpp\<close>), run on the model: each test function is a truth value, and each is shown true, by
  evaluation or, for the large cache and the lines of the parser, from the lemmas of the component. They say nothing that the theorems of the other theories do not say; they check the definitions
  against what the authors of the code expect of it.
\<close>

text \<open>\<open>ASSERT_NEAR\<close>, in the arithmetic of the code.\<close>

definition near :: "double \<Rightarrow> double \<Rightarrow> double \<Rightarrow> bool" where
  "near a b eps = (case dbl_sub a b of Finite d \<Rightarrow> \<not> eps < Finite \<bar>d\<bar> | NaN \<Rightarrow> True | Infinite _ \<Rightarrow> False)"

subsection \<open>The LRU cache\<close>

text \<open>A script of operations on a new cache, and what is asserted of its results and of the cache after it.\<close>

definition lru_check :: "u64 \<Rightarrow> ('k, 'v) cache_op list \<Rightarrow> ('v option list \<Rightarrow> ('k, 'v) lru \<Rightarrow> bool) \<Rightarrow> bool" where
  "lru_check n script assertion = (case run_steps lru_exec script (lru_new n) of
     None \<Rightarrow> False
   | Some (outs, c) \<Rightarrow> assertion outs c)"

abbreviation has_value :: "'v option \<Rightarrow> bool" where "has_value x \<equiv> x \<noteq> None"

definition test_basic_put_get :: bool where
  "test_basic_put_get = lru_check 2 [Put (1 :: int) (10 :: int), Get 1] (\<lambda>outs c. outs ! 1 = Some 10)"

definition test_capacity_eviction :: bool where
  "test_capacity_eviction = lru_check 2 [Put (1 :: int) (10 :: int), Put 2 20, Put 3 30, Get 1, Get 2, Get 3]
     (\<lambda>outs c. map has_value (drop 3 outs) = [False, True, True])"

definition test_access_updates_lru_order :: bool where
  "test_access_updates_lru_order =
     lru_check 2 [Put (1 :: int) (10 :: int), Put 2 20, Get 1, Put 3 30, Get 1, Get 2, Get 3]
       (\<lambda>outs c. map has_value (drop 4 outs) = [True, False, True])"

definition test_resize_down :: bool where
  "test_resize_down = (let puts = map (\<lambda>i. Put i (i * 10)) [0 .. 4 :: int] in
     lru_check 5 puts (\<lambda>outs c. lru_size c = 5) \<and>
     lru_check 5 (puts @ [Resize 2]) (\<lambda>outs c. lru_size c = 2) \<and>
     lru_check 5 (puts @ [Resize 2, Get 3, Get 4, Get 0])
       (\<lambda>outs c. map has_value (drop 6 outs) = [True, True, False]))"

definition test_resize_up :: bool where
  "test_resize_up = (let script = [Put (1 :: int) (10 :: int), Put 2 20, Resize 5, Put 3 30, Put 4 40, Put 5 50] in
     lru_check 2 script (\<lambda>outs c. lru_size c = 5) \<and>
     lru_check 2 (script @ [Get 1, Get 5]) (\<lambda>outs c. map has_value (drop 6 outs) = [True, True]))"

definition test_hit_rate_tracking :: bool where
  "test_hit_rate_tracking = lru_check 5 [Put (1 :: int) (10 :: int), Put 2 20, Get 1, Get 2, Get 3, Get 4]
     (\<lambda>outs c. near (hit_rate c) (Finite (1 / 2)) (to_double (1 / 100)))"

definition test_overwrite_existing :: bool where
  "test_overwrite_existing = (let script = [Put (1 :: int) (10 :: int), Put 2 20] in
     lru_check 3 script (\<lambda>outs c. lru_size c = 2) \<and>
     lru_check 3 (script @ [Put 1 15]) (\<lambda>outs c. lru_size c = 2) \<and>
     lru_check 3 (script @ [Put 1 15, Get 1]) (\<lambda>outs c. outs ! 3 = Some 15))"

definition test_evict_to :: bool where
  "test_evict_to = (let puts = map (\<lambda>i. Put i i) [0 .. 9 :: int] in
     lru_check 10 (puts @ [EvictTo 3]) (\<lambda>outs c. lru_size c = 3) \<and>
     lru_check 10 (puts @ [EvictTo 3, Get 7, Get 8, Get 9, Get 0])
       (\<lambda>outs c. map has_value (drop 11 outs) = [True, True, True, False]))"

definition test_empty_cache_get :: bool where
  "test_empty_cache_get = lru_check 5 [Get (42 :: int)] (\<lambda>outs (c :: (int, int) lru). \<not> has_value (outs ! 0))"

definition test_reset_stats :: bool where
  "test_reset_stats = (let script = [Put (1 :: int) (10 :: int), Get 1, Get 999] in
     lru_check 5 script (\<lambda>outs c. Finite 0 < hit_rate c) \<and>
     lru_check 5 (script @ [ResetStats]) (\<lambda>outs c. near (hit_rate c) (Finite 0) (to_double (1 / 1000)) \<and>
       lru_hits c = 0 \<and> lru_misses c = 0))"

definition test_large_scale :: bool where
  "test_large_scale = (let puts = map (\<lambda>i. Put i i) [0 ..< 100000 :: nat] in
     lru_check 50000 puts (\<lambda>outs c. lru_size c = 50000) \<and>
     lru_check 50000 (puts @ [Get 0, Get 49999, Get 50000, Get 99999])
       (\<lambda>outs c. map has_value (drop 100000 outs) = [False, False, True, True]))"

definition test_string_keys :: bool where
  "test_string_keys = lru_check 3 [Put ''alpha'' ''value_a'', Put ''beta'' ''value_b'', Put ''gamma'' ''value_c'',
       Get ''alpha'', Put ''delta'' ''value_d'', Get ''beta'', Get ''gamma'']
     (\<lambda>outs c. outs ! 3 = Some ''value_a'' \<and> map has_value (drop 5 outs) = [False, True])"

declare lru_evict_to.simps [code]

lemma lru_cache_tests:
  "test_basic_put_get" "test_capacity_eviction" "test_access_updates_lru_order" "test_resize_down" "test_resize_up"
  "test_hit_rate_tracking" "test_overwrite_existing" "test_evict_to" "test_empty_cache_get" "test_reset_stats"
  "test_string_keys"
  by code_simp+

text \<open>The large test is not evaluated: the list contract answers it.\<close>

lemma gets_present:
  "distinct_keys s \<Longrightarrow> map has_value (fst (run_spec spec_exec (map Get ks) s)) = map (\<lambda>k. k \<in> fst ` set (items s)) ks"
proof (induction ks arbitrary: s)
  case (Cons k ks)
  have d: "distinct_keys (snd (spec_get k s))" using spec_exec_distinct [OF Cons.prems, of "Get k"] by simp
  have "fst ` set (items (snd (spec_get k s))) = fst ` set (items s)"
    unfolding spec_get_def
    by (auto simp: set_drop_key image_iff Bex_def split: option.split dest!: map_of_SomeD)
  moreover have "has_value (fst (spec_get k s)) \<longleftrightarrow> k \<in> fst ` set (items s)"
    by (force simp: spec_get_def map_of_eq_None_iff split: option.split dest!: map_of_SomeD)
  ultimately show ?case using Cons.IH [OF d] by (simp add: case_prod_beta Let_def)
qed simp

lemma large_run:
  fixes n m :: nat
  assumes "m < 2 ^ 63" and "0 < n" and "length ks < 2 ^ 63" and "n \<le> m"
  shows "lru_check (of_nat n) (map (\<lambda>i. Put i i) [0 ..< m] @ map Get ks)
    (\<lambda>outs c. map has_value (drop m outs) = map (\<lambda>k. k \<in> {m - n ..< m}) ks \<and> (ks = [] \<longrightarrow> unat (lru_size c) = n))"
proof -
  let ?ps = "map (\<lambda>i. Put i i) [0 ..< m]" and ?n = "of_nat n :: u64"
  have n: "unat ?n = n" using assms(1,4) by (simp add: unat_of_nat)
  then have pos: "0 < ?n" using assms(2) by (simp add: word_less_nat_alt)
  have ps: "?ps = puts (map (\<lambda>i. (i, i)) [0 ..< m])" by (simp add: puts_def comp_def)
  have keys: "map fst (items (spec_state ?n ?ps)) = rev [m - n ..< m]"
    using keys_puts [OF pos, of "map (\<lambda>i. (i, i)) [0 ..< m]"] assms(4)
    by (simp add: ps n recency_def comp_def take_rev drop_upt)
  then have key_set: "fst ` set (items (spec_state ?n ?ps)) = {m - n ..< m}" by (metis list.set_map set_rev set_upt)
  have len: "length (?ps @ map Get ks) < 2 ^ 64" using assms(1,3) by simp
  from lru_run [OF len, of ?n] obtain c where
    c: "run_steps lru_exec (?ps @ map Get ks) (lru_new ?n) =
        Some (fst (run_spec spec_exec (?ps @ map Get ks) (spec_new ?n)), c)"
      "lru_implements c (spec_state ?n (?ps @ map Get ks))" by blast
  have l: "length (fst (run_spec spec_exec xs s)) = length xs" for xs and s :: "(nat, nat) lru_view"
    by (induction xs arbitrary: s) (simp_all add: case_prod_beta Let_def)
  have "map has_value (drop m (fst (run_spec spec_exec (?ps @ map Get ks) (spec_new ?n)))) = map (\<lambda>k. k \<in> {m - n ..< m}) ks"
    unfolding run_spec_outputs using gets_present [OF spec_state_ok(1), of ks ?n ?ps] key_set
    by (simp add: l spec_state_def)
  moreover have "unat (lru_size c) = n" if "ks = []"
    using implements_size [OF c(2)] arg_cong [OF keys, of length] assms(4) that by simp
  ultimately show ?thesis by (simp add: lru_check_def c(1))
qed

lemma lru_check_mono: "lru_check n script P \<Longrightarrow> (\<And>outs c. P outs c \<Longrightarrow> Q outs c) \<Longrightarrow> lru_check n script Q"
  by (auto simp: lru_check_def split: option.splits)

lemma large_scale_test: "test_large_scale"
  unfolding test_large_scale_def Let_def
proof (intro conjI)
  show "lru_check 50000 (map (\<lambda>i. Put i i) [0 ..< 100000 :: nat]) (\<lambda>outs c. lru_size c = 50000)"
    using large_run [of 100000 50000 "[]"] by (auto elim!: lru_check_mono simp: word_unat_eq_iff)
  show "lru_check 50000 (map (\<lambda>i. Put i i) [0 ..< 100000 :: nat] @ [Get 0, Get 49999, Get 50000, Get 99999])
      (\<lambda>outs c. map has_value (drop 100000 outs) = [False, False, True, True])"
    using large_run [of 100000 50000 "[0, 49999, 50000, 99999]"] by (auto elim!: lru_check_mono)
qed

subsection \<open>The policy engine\<close>

definition make_psi :: "double \<Rightarrow> double \<Rightarrow> psi_data" where
  "make_psi a10 a60 = psi_default\<lparr>some_avg10 := a10, some_avg60 := a60, some_avg300 := Finite 0, some_total := 0\<rparr>"

text \<open>The samples one after the other, from an action with its default members; undefined behaviour fails a test.\<close>

fun feed_all :: "psi_data list \<Rightarrow> policy_action \<times> policy_engine \<Rightarrow> (policy_action \<times> policy_engine) option" where
  "feed_all [] ae = Some ae"
| "feed_all (d # ds) (a, e) = Option.bind (evaluate e d) (feed_all ds)"

definition feed :: "double \<Rightarrow> nat \<Rightarrow> policy_engine \<Rightarrow> (policy_action \<times> policy_engine) option" where
  "feed a10 n e = feed_all (replicate n (make_psi a10 (Finite 0)))
     (\<lparr>action_kind = ActNone, action_fraction = Finite 0, action_tier = NORMAL\<rparr>, e)"

text \<open>A test feeds a fresh engine in stages; after each it may look at the last action and at the tier.\<close>

fun stages :: "(double \<times> nat \<times> (policy_action \<Rightarrow> pressure_tier \<Rightarrow> bool)) list \<Rightarrow> policy_engine \<Rightarrow> bool" where
  "stages [] e = True"
| "stages ((a10, n, assertion) # rest) e = (case feed a10 n e of
     None \<Rightarrow> False
   | Some (a, e') \<Rightarrow> assertion a (current_tier e') \<and> stages rest e')"

definition eng :: policy_engine where "eng = engine_new default_configs"

abbreviation in_tier :: "pressure_tier \<Rightarrow> policy_action \<Rightarrow> pressure_tier \<Rightarrow> bool" where
  "in_tier t \<equiv> \<lambda>a now. now = t"

abbreviation moved_to :: "action_type \<Rightarrow> pressure_tier \<Rightarrow> policy_action \<Rightarrow> pressure_tier \<Rightarrow> bool" where
  "moved_to ty t \<equiv> \<lambda>a now. now = t \<and> action_kind a = ty"

definition test_initial_state :: bool where
  "test_initial_state \<longleftrightarrow> current_tier eng = NORMAL"

definition test_promote_to_elevated :: bool where
  "test_promote_to_elevated = stages
     [(Finite 6, 3, \<lambda>a now. now = ELEVATED \<and> action_kind a = ActShrink \<and> Finite 0 < action_fraction a)] eng"

definition test_no_promote_below_threshold :: bool where
  "test_no_promote_below_threshold = stages [(Finite 4, 10, in_tier NORMAL)] eng"

definition test_debounce_prevents_premature_promotion :: bool where
  "test_debounce_prevents_premature_promotion = stages
     [(Finite 6, 2, \<lambda>_ _. True), (Finite 3, 1, in_tier NORMAL), (Finite 6, 1, in_tier NORMAL)] eng"

definition test_promote_to_high :: bool where
  "test_promote_to_high = stages [(Finite 6, 3, in_tier ELEVATED), (Finite 16, 3, moved_to ActShrink HIGH)] eng"

definition test_promote_to_critical :: bool where
  "test_promote_to_critical = stages
     [(Finite 6, 3, \<lambda>_ _. True), (Finite 16, 3, \<lambda>_ _. True), (Finite 31, 2, moved_to ActShrink CRITICAL)] eng"

definition test_demote_with_hysteresis :: bool where
  "test_demote_with_hysteresis = stages
     [(Finite 6, 3, in_tier ELEVATED), (Finite 3, 10, in_tier ELEVATED), (Finite (3 / 2), 3, moved_to ActGrow NORMAL)] eng"

definition test_no_flapping :: bool where
  "test_no_flapping = (case feed_all (concat (replicate 20 [make_psi (Finite (11 / 2)) (Finite 0), make_psi (Finite (9 / 2)) (Finite 0)]))
       (\<lparr>action_kind = ActNone, action_fraction = Finite 0, action_tier = NORMAL\<rparr>, eng) of
     None \<Rightarrow> False | Some (a, e) \<Rightarrow> current_tier e = NORMAL)"

definition test_full_escalation_and_recovery :: bool where
  "test_full_escalation_and_recovery \<longleftrightarrow> current_tier eng = NORMAL \<and> stages
     [(Finite 6, 3, in_tier ELEVATED), (Finite 16, 3, in_tier HIGH), (Finite 35, 2, in_tier CRITICAL),
      (Finite 10, 2, in_tier HIGH), (Finite 5, 3, in_tier ELEVATED), (Finite 1, 3, in_tier NORMAL)] eng"

definition test_noisy_signal :: bool where
  "test_noisy_signal = (case feed_all (map (\<lambda>v. make_psi (to_double v) (Finite 0))
         [48 / 10, 52 / 10, 47 / 10, 51 / 10, 46 / 10, 53 / 10, 49 / 10, 5, 45 / 10, 48 / 10])
       (\<lparr>action_kind = ActNone, action_fraction = Finite 0, action_tier = NORMAL\<rparr>, eng) of
     None \<Rightarrow> False | Some (a, e) \<Rightarrow> current_tier e = NORMAL)"

definition test_tier_name_strings :: bool where
  "test_tier_name_strings \<longleftrightarrow> map get_tier_name [NORMAL, ELEVATED, HIGH, CRITICAL] =
     [''NORMAL'', ''ELEVATED'', ''HIGH'', ''CRITICAL'']"

text \<open>The strict bound of the code on the absolute value of a difference.\<close>

definition abs_below :: "double \<Rightarrow> double \<Rightarrow> double \<Rightarrow> bool" where
  "abs_below a b eps = (case dbl_sub a b of Finite d \<Rightarrow> Finite \<bar>d\<bar> < eps | _ \<Rightarrow> False)"

definition test_shrink_fractions_correct :: bool where
  "test_shrink_fractions_correct = (let close = (\<lambda>q a now. abs_below (action_fraction a) (to_double q) (to_double (1 / 1000))) in
     stages [(Finite 6, 3, close (1 / 10)), (Finite 16, 3, close (1 / 4)), (Finite 31, 2, close (1 / 2))] eng)"

definition test_reset :: bool where
  "test_reset = (case feed (Finite 6) 3 eng of
     None \<Rightarrow> False | Some (a, e) \<Rightarrow> current_tier e = ELEVATED \<and> current_tier (engine_reset e) = NORMAL)"

lemma policy_engine_tests:
  "test_initial_state" "test_promote_to_elevated" "test_no_promote_below_threshold"
  "test_debounce_prevents_premature_promotion" "test_promote_to_high" "test_promote_to_critical"
  "test_demote_with_hysteresis" "test_no_flapping" "test_full_escalation_and_recovery" "test_noisy_signal"
  "test_tier_name_strings" "test_shrink_fractions_correct" "test_reset"
  by code_simp+

subsection \<open>The PSI parser\<close>

abbreviation nearly :: "double \<Rightarrow> rat \<Rightarrow> bool" where
  "nearly x q \<equiv> near x (to_double q) (to_double (1 / 1000))"

text \<open>A test parses the lines, each ended by a newline, and asserts of the sample; an exception fails it.\<close>

definition parse_check :: "string list \<Rightarrow> (psi_data \<Rightarrow> bool) \<Rightarrow> bool" where
  "parse_check ls assertion = (case parse_psi_file (concat (map (\<lambda>l. l @ [CHR ''\<newline>'']) ls)) of
     Inl e \<Rightarrow> False | Inr d \<Rightarrow> assertion d)"

definition test_parse_valid :: bool where
  "test_parse_valid = parse_check
     [''some avg10=2.50 avg60=1.20 avg300=0.80 total=123456'', ''full avg10=1.10 avg60=0.50 avg300=0.10 total=7890'']
     (\<lambda>d. nearly (some_avg10 d) (5 / 2) \<and> nearly (some_avg60 d) (6 / 5) \<and> nearly (some_avg300 d) (4 / 5) \<and>
       some_total d = 123456 \<and>
       nearly (full_avg10 d) (11 / 10) \<and> nearly (full_avg60 d) (1 / 2) \<and> nearly (full_avg300 d) (1 / 10) \<and>
       full_total d = 7890)"

definition test_parse_zeros :: bool where
  "test_parse_zeros = parse_check
     [''some avg10=0.00 avg60=0.00 avg300=0.00 total=0'', ''full avg10=0.00 avg60=0.00 avg300=0.00 total=0'']
     (\<lambda>d. nearly (some_avg10 d) 0 \<and> nearly (some_avg60 d) 0 \<and> some_total d = 0 \<and> nearly (full_avg10 d) 0)"

definition test_parse_high_values :: bool where
  "test_parse_high_values = parse_check
     [''some avg10=99.99 avg60=80.50 avg300=50.00 total=9999999999'',
      ''full avg10=75.00 avg60=60.00 avg300=40.00 total=8888888888'']
     (\<lambda>d. nearly (some_avg10 d) (9999 / 100) \<and> some_total d = 9999999999 \<and> nearly (full_avg10 d) 75)"

definition test_parse_malformed :: bool where
  "test_parse_malformed = parse_check [''invalid format string'', ''garbage data here'']
     (\<lambda>d. nearly (some_avg10 d) 0 \<and> some_total d = 0)"

definition test_parse_partial :: bool where
  "test_parse_partial = parse_check [''some avg10=5.50 avg60=3.20 avg300=1.10 total=54321'']
     (\<lambda>d. nearly (some_avg10 d) (11 / 2) \<and> some_total d = 54321 \<and> nearly (full_avg10 d) 0 \<and> full_total d = 0)"

definition test_parse_extra_whitespace :: bool where
  "test_parse_extra_whitespace = parse_check
     [''some avg10=10.00 avg60=5.00 avg300=2.00 total=100000'', ''full avg10=4.00 avg60=2.00 avg300=1.00 total=50000'']
     (\<lambda>d. nearly (some_avg10 d) 10 \<and> nearly (full_avg10 d) 4)"

definition test_parse_empty_string :: bool where
  "test_parse_empty_string = parse_check [] (\<lambda>d. nearly (some_avg10 d) 0 \<and> some_total d = 0)"

lemma near_self: "near x x (to_double (1 / 1000))"
proof -
  have eps: "\<not> to_double (1 / 1000) < Finite 0" by code_simp
  have "to_double 0 = Finite 0" by code_simp
  with eps show ?thesis by (cases x) (simp_all add: near_def dbl_sub_def)
qed

lemma zero_near: "near (Finite 0) (to_double 0) (to_double (1 / 1000))"
  using near_self [of "Finite 0"] by (simp add: to_double_def rnd_def)

text \<open>The lines of the tests are lines the kernel writes, which the parser is known to read.\<close>

lemma test_lines:
  "''some avg10=2.50 avg60=1.20 avg300=0.80 total=123456'' = kernel_line ''some'' (250, 120, 80, 123456)"
  "''full avg10=1.10 avg60=0.50 avg300=0.10 total=7890'' = kernel_line ''full'' (110, 50, 10, 7890)"
  "''some avg10=0.00 avg60=0.00 avg300=0.00 total=0'' = kernel_line ''some'' (0, 0, 0, 0)"
  "''full avg10=0.00 avg60=0.00 avg300=0.00 total=0'' = kernel_line ''full'' (0, 0, 0, 0)"
  "''some avg10=99.99 avg60=80.50 avg300=50.00 total=9999999999'' = kernel_line ''some'' (9999, 8050, 5000, 9999999999)"
  "''full avg10=75.00 avg60=60.00 avg300=40.00 total=8888888888'' = kernel_line ''full'' (7500, 6000, 4000, 8888888888)"
  "''some avg10=5.50 avg60=3.20 avg300=1.10 total=54321'' = kernel_line ''some'' (550, 320, 110, 54321)"
  "''some avg10=10.00 avg60=5.00 avg300=2.00 total=100000'' = kernel_line ''some'' (1000, 500, 200, 100000)"
  "''full avg10=4.00 avg60=2.00 avg300=1.00 total=50000'' = kernel_line ''full'' (400, 200, 100, 50000)"
  by (simp_all add: kernel_line_def kernel_value_def nat_str.simps digit_char_def char_of_def bit_0)

lemma newline_free: "CHR ''\<newline>'' \<notin> set (kernel_line ''some'' (a, b, c, t))"
  "CHR ''\<newline>'' \<notin> set (kernel_line ''full'' (a, b, c, t))"
  by (rule kernel_line_no_newline no_space_keys)+

lemma psi_parser_tests:
  "test_parse_valid" "test_parse_zeros" "test_parse_high_values" "test_parse_malformed" "test_parse_partial"
  "test_parse_extra_whitespace" "test_parse_empty_string"
proof -
  have "parse_lines [''invalid format string'', ''garbage data here''] d = Inr d" for d by simp
  then show "test_parse_malformed"
    by (simp add: test_parse_malformed_def parse_check_def parse_psi_file_def getlines_line psi_default_def zero_near)
qed (simp_all add: test_parse_valid_def test_parse_zeros_def test_parse_high_values_def
      test_parse_partial_def test_parse_extra_whitespace_def test_parse_empty_string_def parse_check_def
      parse_psi_file_def getlines_line test_lines newline_free parse_lines_kernel set_some_line_def set_full_line_def
      psi_default_def hundredths_def near_self zero_near del: parse_lines.simps(2))

end
