(* ===== verification/Spec2Isabelle.thy ===== *)
theory Spec2Isabelle
  imports System_Effect Client_Threads Daemon_Main Cache_App Pressure_Gen Unit_Tests
begin

text \<open>
  A verification development for the memory-pressure-aware cache governor.

  The program. A daemon samples the kernel's memory pressure file, moves a pressure tier up or
  down, and tells every connected cache to shrink or to grow by a fraction. An application
  links a cache library that connects to the daemon over a Unix socket, reports its size and
  obeys. A workload driver exercises the cache and a generator puts memory under pressure.

    \<^item> \<open>include/client/governed_cache.h\<close>, class \<open>LRUCache\<close>: theories LRU_Heap (the pointer code),
      LRU_Shape (doubly linked segments), LRU_Spec (the contract, on lists), LRU_Refine (the
      simulation of one by the other), LRU_Cache (runs and properties).
    \<^item> \<open>governor/policy_engine\<close>: Policy_Engine (the tiers, \<open>evaluate\<close>), Policy_Runs (sequences of
      samples).
    \<^item> \<open>governor/psi_poller\<close>: Psi_Data, Psi_Parser (the parser and the polling loop).
    \<^item> \<open>governor/protocol.h\<close>: Protocol (messages, JSON text, frames).
    \<^item> \<open>governor/client_registry\<close>: Client_Registry (start and stop, epoll loop, framed reader,
      broadcasts), over Sockets (what system calls return, and the two loops that read a payload);
      Registry_Refine (what the registry promises, a table of clients and sizes, and that the loop keeps it).
    \<^item> \<open>governor/governor_daemon\<close> and \<open>governor/main.cpp\<close>: Governor_Daemon, Daemon_Main.
    \<^item> \<open>client/governor_client\<close>: Governor_Client (connection, sending, the listener thread);
      Client_Threads takes the listener and \<open>stop_listening\<close> apart into their accesses to the shared
      members, which the two threads make without a lock.
    \<^item> \<open>client/governed_cache.cpp\<close>: Governed_Cache (the LRU cache driven by the client's callbacks).
    \<^item> \<open>cache_app/main.cpp\<close>: Cache_App (the workload driver, with the commands of the listener thread
      interleaved between its operations).
    \<^item> \<open>pressure_gen/main.cpp\<close>: Pressure_Gen.
    \<^item> End_To_End composes the two sides of the socket for one cache; System composes the daemon and
      any number of caches into one step relation over the functions of the other theories; System_Effect
      follows a SHRINK from the sample that caused it to the caches that obey it.
    \<^item> \<open>tests/\<close>: Unit_Tests runs the repository's own tests on the model.
    \<^item> Prelude holds the machine integers, the exceptions, the generic locales of machines that
      are driven by inputs (\<open>safe_machine\<close>, \<open>simulation\<close>) and shared lemmas; Doubles the IEEE binary64
      arithmetic, executable on rationals; Cpp_Strings what is used of the C++ string library.

  How the code is read. A class is a record with the names of its members; a method is a
  function on it. \<open>size_t\<close>, \<open>uint64_t\<close>, \<open>uint32_t\<close>, \<open>uint8_t\<close> are words of their width, so that
  their arithmetic wraps; an \<open>int\<close> whose overflow is undefined is an integer with the overflow
  a failure. A \<open>double\<close> is NaN, an infinity, or a rational that has been rounded. \<open>None\<close> in a
  result is undefined behaviour (a dangling pointer, an index out of range, a conversion out of
  range), for \<open>lru_evict_to\<close> and the destructor also a loop that does not end; \<open>Inl e\<close> is an
  exception. A lock makes each critical section one step, and threads are interleavings of such
  steps: lists of inputs where they act on one state (Daemon_Main, Cache_App), an inductive step
  relation with its reachable states where several processes do (System) and where no lock is
  held (Client_Threads).

  What stands outside. System calls, the clock, the scheduler, \<open>malloc\<close> and the signal are not
  code of the repository: their results are arguments of the definitions, as lists that each
  call consumes. A list that is used up stands for a peer (or a user) that does nothing more;
  a loop that would then wait or spin for ever says so in its result (\<open>Spinning\<close>, \<open>Starved\<close>,
  \<open>StillReading\<close>, \<open>SendBlocked\<close>, a flag). So every socket loop is total, with what is left of the
  inputs as its measure, and no fuel is used anywhere; \<open>partial_function\<close> appears only for the
  two pointer loops, and both are shown to return in every state that satisfies the invariant.

  Interfaces. \<open>safe_machine\<close> (an invariant of every input) is interpreted on the engine,
  \<open>table_property\<close> (what the four operations of the registry keep, its event loop keeps) on the
  agreement of the table with the kernel and on the registry's own descriptors, \<open>simulation\<close> (a detailed machine follows an abstract one) on the LRU cache and
  the engine, \<open>payload_reader\<close> on the two loops that read a payload, and \<open>cache_store\<close>, what the
  governed cache and the workload driver rely on, on the LRU pointer code.

  What the lemmas show. LRU: the pointer code never touches a dead node, implements the list
  contract over any run, evicts the least recently used entry, frees every node once; its loops return; the
  size is bounded while capacities are positive and unbounded once one is zero. Policy: no sample
  sequence fails, a move needs its number of consecutive samples, the default tiers escalate and
  recover, and two flaws of the \<open>avg60\<close> trigger. Parser: every field of a kernel file is read,
  correctly rounded, and whatever a file contains a sample holds only doubles. Protocol and sockets:
  reading inverts writing, however the bytes are cut into chunks. Registry: the table, the open
  connections and the watched descriptors agree in every state of the loop, and any run of the loop is the run of
  the table of sizes over what the clients did; targets are within
  rounding of their fraction. Client: commands are called back in order, the back-off doubles up to
  thirty seconds; while the daemon is away \<open>stop_listening\<close> returns within fifteen steps under any
  schedule. Daemon: a sample moves one tier and sends the matching command to every client; a run
  that reaches the signal ends with exit code 0 and every descriptor closed once, and while kernel,
  clients and pressure file behave (\<open>fair\<close>) every run does reach it. System: in every
  reachable state every recorded size is zero and every cache has the capacity it joined with or none, and
  after a rise of the tier every connected cache ends with none.
  Driver: it never fails under any interleaving of rounds and commands, its entries stay within the
  keys, and it returns 0. Generator: targets stay in range and every block is freed once. Several
  theorems show where the code does not keep its promise: a first SHRINK that always empties the
  cache, capacity that no GROW gives back, a header split in two reads, a frame cut short that stops the daemon
  for good, a listener that reconnects
  behind the back of \<open>stop_listening\<close> and hangs its \<open>join\<close>, descriptors closed twice, a client that blocks the broadcast, a reconnection that leaks,
  a payload that ends the process, options of zero that lead to undefined behaviour.

  Choices. System delivers what was written in the pieces it was written in, which no reader depends on
  (the two theorems on reassembly), and takes one sample of the daemon as one step. In System a cache joins
  empty, as it does in the workload driver, its sockets accept what it writes, and a put stays below \<open>2^64\<close> entries.
  Client_Threads leaves the payload and the callbacks of a frame to Governor_Client.

  Not modelled: how the standard library samples a distribution (the draws are inputs, below the
  number of keys; the power function of the Zipf weights is a parameter); what is printed, beyond
  the record of a tier transition and the reports of the driver; the time stamps; the flags of descriptors; memory exhaustion
  outside the generator; the counters and output of the test framework; build files and evaluation scripts.
\<close>

end
